(* ===== verification/Cpp_Prelude.thy ===== *)
theory Cpp_Prelude
  imports Main "HOL-Library.Word"
begin

text \<open>
  Shared vocabulary of the development: bytes, the conversions between the C integer
  types the program mixes (\<open>int\<close> and \<open>size_t\<close>), the faults an operation can end in
  (undefined behaviour, a failed library precondition, an abort) with a result type and its
  sequencing, list lemmas for overwriting and slicing an array, and reachability over a
  step relation with the invariant rule every concurrent component uses.
\<close>

section \<open>Definitions\<close>

subsection \<open>Bytes and C integers\<close>

type_synonym byte = "8 word"

text \<open>
  Conversion of a mathematical integer to \<open>int\<close> (32 bits, two's complement) and to
  \<open>size_t\<close> (64 bits, unsigned), as the implicit conversions of the source do.
\<close>

definition to_int32 :: "int \<Rightarrow> int" where
  "to_int32 x = signed_take_bit 31 x"

definition to_size_t :: "int \<Rightarrow> int" where
  "to_size_t x = take_bit 64 x"

subsection \<open>Faults\<close>

text \<open>
  What an operation can do instead of returning: an access outside an object, a range
  that violates the precondition of \<open>std::copy\<close>, a null pointer, \<open>front\<close>/\<open>back\<close> of an
  empty container, a call of an empty \<open>std::function\<close>, an access to a freed object, a
  use of a \<open>pthread_t\<close> that no longer names a thread, and \<open>abort()\<close>.
\<close>

datatype fault =
    Out_Of_Bounds
  | Overlapping_Copy
  | Null_Dereference
  | Empty_Container
  | Bad_Function_Call
  | Use_After_Free
  | Bad_Thread_Handle
  | Aborted

type_synonym 'a outcome = "fault + 'a"

fun bind_ok :: "'a outcome \<Rightarrow> ('a \<Rightarrow> 'b outcome) \<Rightarrow> 'b outcome" where
  "bind_ok (Inl e) f = Inl e"
| "bind_ok (Inr x) f = f x"

subsection \<open>Arrays as lists\<close>

text \<open>\<open>overwrite xs i ys\<close> is the array \<open>xs\<close> after \<open>ys\<close> was stored from index \<open>i\<close> on.\<close>

definition overwrite :: "'a list \<Rightarrow> nat \<Rightarrow> 'a list \<Rightarrow> 'a list" where
  "overwrite xs i ys = take i xs @ ys @ drop (i + length ys) xs"

definition segment :: "'a list \<Rightarrow> nat \<Rightarrow> nat \<Rightarrow> 'a list" where
  "segment xs i n = take n (drop i xs)"

text \<open>\<open>std::vector::resize\<close>: cut at the end, or padded with value-initialised elements.\<close>

definition vec_resize :: "nat \<Rightarrow> 'a \<Rightarrow> 'a list \<Rightarrow> 'a list" where
  "vec_resize n z xs = take n xs @ replicate (n - length xs) z"

subsection \<open>Reachable states\<close>

inductive reach :: "('s \<Rightarrow> bool) \<Rightarrow> ('s \<Rightarrow> 's \<Rightarrow> bool) \<Rightarrow> 's \<Rightarrow> bool"
  for start :: "'s \<Rightarrow> bool" and step :: "'s \<Rightarrow> 's \<Rightarrow> bool" where
  reach_start: "start s \<Longrightarrow> reach start step s"
| reach_step: "reach start step s \<Longrightarrow> step s t \<Longrightarrow> reach start step t"

text \<open>A schedule: moves executed one after the other, none where one is not possible.\<close>

fun schedule :: "('m \<Rightarrow> 's \<Rightarrow> 's option) \<Rightarrow> 'm list \<Rightarrow> 's \<Rightarrow> 's option" where
  "schedule move [] s = Some s"
| "schedule move (m # ms) s = (case move m s of None \<Rightarrow> None | Some s' \<Rightarrow> schedule move ms s')"

section \<open>Automation\<close>

named_theorems cint "conversions between C integer types that keep the value"
named_theorems arr "lengths and contents of overwritten arrays"

subsection \<open>C integers\<close>

lemma to_int32_id [cint]:
  "- 2147483648 \<le> x \<Longrightarrow> x < 2147483648 \<Longrightarrow> to_int32 x = x"
  by (simp add: to_int32_def signed_take_bit_int_eq_self)

lemma to_size_t_id [cint]:
  "0 \<le> x \<Longrightarrow> x < 18446744073709551616 \<Longrightarrow> to_size_t x = x"
  by (simp add: to_size_t_def take_bit_int_eq_self)

lemma to_int32_size_t [simp]: "to_int32 (to_size_t x) = to_int32 x"
  by (simp add: to_int32_def to_size_t_def signed_take_bit_take_bit)

lemma to_int32_range: "- 2147483648 \<le> to_int32 x" "to_int32 x < 2147483648"
  using signed_take_bit_int_greater_eq_minus_exp [of 31 x] signed_take_bit_int_less_exp [of 31 x]
  by (simp_all add: to_int32_def)

lemma to_int32_wrap:
  "2147483648 \<le> x \<Longrightarrow> x < 4294967296 \<Longrightarrow> to_int32 x = x - 4294967296"
  using mod_pos_pos_trivial [of "x - 2147483648" 4294967296]
    mod_add_self2 [of "x - 2147483648" 4294967296]
  by (simp add: to_int32_def signed_take_bit_eq_take_bit_shift take_bit_int_def
      add.commute)

lemma to_int32_word: "to_int32 x = sint (word_of_int x :: 32 word)"
  by (simp add: to_int32_def sint_sbintrunc')

subsection \<open>Outcomes\<close>

lemma bind_ok_Inr_iff: "bind_ok m f = Inr y \<longleftrightarrow> (\<exists>x. m = Inr x \<and> f x = Inr y)"
  by (cases m) auto

lemma bind_ok_assoc: "bind_ok (bind_ok m f) g = bind_ok m (\<lambda>x. bind_ok (f x) g)"
  by (cases m) auto

lemma bind_ok_cong: "(\<And>x. m = Inr x \<Longrightarrow> f x = g x) \<Longrightarrow> bind_ok m f = bind_ok m g"
  by (cases m) auto

lemma bind_ok_Inr_right [simp]: "bind_ok m Inr = m"
  by (cases m) auto

subsection \<open>Arrays\<close>

lemma length_overwrite [simp]:
  "i + length ys \<le> length xs \<Longrightarrow> length (overwrite xs i ys) = length xs"
  by (simp add: overwrite_def)

lemma length_segment [simp]: "i + n \<le> length xs \<Longrightarrow> length (segment xs i n) = n"
  by (simp add: segment_def)

lemma segment_0 [simp]: "segment xs i 0 = []"
  by (simp add: segment_def)

lemma length_vec_resize [simp]: "length (vec_resize n z xs) = n"
  by (simp add: vec_resize_def)

lemma take_vec_resize [arr]: "m \<le> n \<Longrightarrow> m \<le> length xs \<Longrightarrow> take m (vec_resize n z xs) = take m xs"
  by (simp add: vec_resize_def)

lemma segment_vec_resize [arr]:
  "i + m \<le> n \<Longrightarrow> i + m \<le> length xs \<Longrightarrow> segment (vec_resize n z xs) i m = segment xs i m"
  by (simp add: segment_def vec_resize_def drop_take min_def)

lemma segment_split: "segment xs i (m + n) = segment xs i m @ segment xs (i + m) n"
  by (simp add: segment_def take_add add.commute)

lemma segment_overwrite_same [arr]:
  "i + length ys \<le> length xs \<Longrightarrow> segment (overwrite xs i ys) i (length ys) = ys"
  by (simp add: segment_def overwrite_def)

lemma segment_overwrite_before [arr]:
  "j + n \<le> i \<Longrightarrow> i \<le> length xs \<Longrightarrow> segment (overwrite xs i ys) j n = segment xs j n"
  by (cases "j \<le> i") (auto simp: segment_def overwrite_def drop_take min_def)

lemma segment_overwrite_after [arr]:
  "i + length ys \<le> j \<Longrightarrow> i \<le> length xs \<Longrightarrow> segment (overwrite xs i ys) j n = segment xs j n"
  by (simp add: segment_def overwrite_def)

lemma segment_overwrite_extend [arr]:
  "j + n = i \<Longrightarrow> i + length ys \<le> length xs \<Longrightarrow> m = n + length ys \<Longrightarrow>
    segment (overwrite xs i ys) j m = segment xs j n @ ys"
  by (simp add: segment_split segment_overwrite_before segment_overwrite_same)

lemma segment_take_drop: "k \<le> n \<Longrightarrow> segment xs (i + k) (n - k) = drop k (segment xs i n)"
  by (simp add: segment_def drop_take add.commute)

lemma take_segment [arr]: "k \<le> n \<Longrightarrow> take k (segment xs i n) = segment xs i k"
  by (simp add: segment_def min_def)

subsection \<open>Invariants of reachable states\<close>

lemma schedule_append:
  "schedule move (ms @ ns) s = (case schedule move ms s of None \<Rightarrow> None | Some s' \<Rightarrow> schedule move ns s')"
  by (induction ms arbitrary: s) (auto split: option.splits)

lemma schedule_reach:
  assumes "\<And>m s s'. move m s = Some s' \<Longrightarrow> step s s'"
    and "reach start step s" and "schedule move ms s = Some s'"
  shows "reach start step s'"
  using assms(2,3)
proof (induction ms arbitrary: s)
  case Nil
  then show ?case by simp
next
  case (Cons m ms)
  then obtain s1 where "move m s = Some s1" and "schedule move ms s1 = Some s'"
    by (auto split: option.splits)
  with Cons show ?case by (blast intro: reach_step assms(1))
qed

text \<open>
  The contract of an invariant: it holds at the start and every step keeps it. A component
  states its own by interpreting this locale with its start states and its step relation.
\<close>

locale state_invariant =
  fixes start :: "'s \<Rightarrow> bool"
    and step :: "'s \<Rightarrow> 's \<Rightarrow> bool"
    and inv :: "'s \<Rightarrow> bool"
  assumes inv_start: "start s \<Longrightarrow> inv s"
    and inv_step: "step s t \<Longrightarrow> inv s \<Longrightarrow> inv t"
begin

lemma reach_inv: "reach start step s \<Longrightarrow> inv s"
  by (induction rule: reach.induct) (auto intro: inv_start inv_step)

lemma reach_inv_step: "reach start step s \<Longrightarrow> step s t \<Longrightarrow> inv t"
  by (blast intro: reach_inv inv_step)

end

end
