(* ===== verification/Byte_Order.thy ===== *)
theory Byte_Order
  imports Cpp_Prelude
begin

unbundle bit_operations_syntax

text \<open>
  Object representation of the fixed-width integers and the \<open>endian.h\<close> conversions the
  buffer uses (\<open>htobe16/32/64\<close>, \<open>be16toh/32/64\<close>) and \<open>htons\<close>/\<open>ntohs\<close> of the address
  class, for a host of either byte order. The lemmas show that what is stored is the
  big-endian encoding whatever the host's order is, and that it is read back.
\<close>

section \<open>Definitions\<close>

datatype endian = Little | Big

text \<open>Bytes of a word from the least significant one on, and back.\<close>

definition bytes_le :: "'a::len word \<Rightarrow> byte list" where
  "bytes_le w = map (\<lambda>i. ucast (drop_bit (8 * i) w)) [0..<LENGTH('a) div 8]"

fun word_of_le :: "byte list \<Rightarrow> 'a::len word" where
  "word_of_le [] = 0"
| "word_of_le (b # bs) = ucast b OR push_bit 8 (word_of_le bs)"

definition bytes_be :: "'a::len word \<Rightarrow> byte list" where
  "bytes_be w = rev (bytes_le w)"

definition word_of_be :: "byte list \<Rightarrow> 'a::len word" where
  "word_of_be bs = word_of_le (rev bs)"

text \<open>What \<open>memcpy\<close> copies from and into an integer object on the host.\<close>

definition mem_of :: "endian \<Rightarrow> 'a::len word \<Rightarrow> byte list" where
  "mem_of e w = (case e of Little \<Rightarrow> bytes_le w | Big \<Rightarrow> bytes_be w)"

definition of_mem :: "endian \<Rightarrow> byte list \<Rightarrow> 'a::len word" where
  "of_mem e bs = (case e of Little \<Rightarrow> word_of_le bs | Big \<Rightarrow> word_of_be bs)"

definition bswap :: "'a::len word \<Rightarrow> 'a word" where
  "bswap w = word_of_le (rev (bytes_le w))"

definition htobe :: "endian \<Rightarrow> 'a::len word \<Rightarrow> 'a word" where
  "htobe e w = (case e of Little \<Rightarrow> bswap w | Big \<Rightarrow> w)"

definition betoh :: "endian \<Rightarrow> 'a::len word \<Rightarrow> 'a word" where
  "betoh e w = (case e of Little \<Rightarrow> bswap w | Big \<Rightarrow> w)"

section \<open>Lemmas\<close>

lemma length_bytes_le [simp]: "length (bytes_le (w :: 'a::len word)) = LENGTH('a) div 8"
  by (simp add: bytes_le_def)

lemma length_bytes_be [simp]: "length (bytes_be (w :: 'a::len word)) = LENGTH('a) div 8"
  by (simp add: bytes_be_def)

lemma bit_word_of_le:
  "bit (word_of_le bs :: 'a::len word) n \<longleftrightarrow>
     n < LENGTH('a) \<and> n < 8 * length bs \<and> bit (bs ! (n div 8)) (n mod 8)"
proof (induction bs arbitrary: n)
  case Nil
  show ?case by simp
next
  case (Cons b bs)
  show ?case
  proof (cases "n < 8")
    case True
    then show ?thesis by (auto simp: bit_or_iff bit_push_bit_iff bit_ucast_iff)
  next
    case False
    then have "n div 8 = Suc ((n - 8) div 8)" and "n mod 8 = (n - 8) mod 8"
      by (simp_all add: le_div_geq le_mod_geq)
    moreover have "\<not> bit b n"
      using False by (auto dest: bit_imp_le_length)
    ultimately show ?thesis
      using False by (auto simp: bit_or_iff bit_push_bit_iff bit_ucast_iff Cons.IH)
  qed
qed

lemma bit_bytes_le:
  "i < LENGTH('a) div 8 \<Longrightarrow> j < 8 \<Longrightarrow>
    bit (bytes_le (w :: 'a::len word) ! i) j \<longleftrightarrow> bit w (8 * i + j)"
  by (simp add: bytes_le_def bit_ucast_iff bit_drop_bit_eq)

lemma word_of_le_bytes_le [simp]:
  assumes "8 dvd LENGTH('a)"
  shows "word_of_le (bytes_le w) = (w :: 'a::len word)"
proof (rule bit_word_eqI)
  fix n
  assume n: "n < LENGTH('a)"
  with assms have "n div 8 < LENGTH('a) div 8"
    by (auto simp: less_mult_imp_div_less elim!: dvdE)
  with n assms show "bit (word_of_le (bytes_le w) :: 'a word) n = bit w n"
    by (simp add: bit_word_of_le bit_bytes_le)
qed

lemma bytes_le_word_of_le [simp]:
  assumes "8 dvd LENGTH('a)" and "length bs = LENGTH('a) div 8"
  shows "bytes_le (word_of_le bs :: 'a::len word) = bs"
proof (rule nth_equalityI)
  show "length (bytes_le (word_of_le bs :: 'a word)) = length bs"
    using assms by simp
  fix i
  assume "i < length (bytes_le (word_of_le bs :: 'a word))"
  then have i: "i < LENGTH('a) div 8" by simp
  show "bytes_le (word_of_le bs :: 'a word) ! i = bs ! i"
  proof (rule bit_word_eqI)
    fix j
    assume j: "j < LENGTH(8)"
    then have j8: "j < 8" by simp
    with i have "8 * i + j < 8 * (LENGTH('a) div 8)" by linarith
    with assms have "8 * i + j < LENGTH('a)" by simp
    with i j8 assms show "bit (bytes_le (word_of_le bs :: 'a word) ! i) j = bit (bs ! i) j"
      by (simp add: bit_bytes_le bit_word_of_le)
  qed
qed

lemma word_of_be_bytes_be [simp]:
  "8 dvd LENGTH('a) \<Longrightarrow> word_of_be (bytes_be w) = (w :: 'a::len word)"
  by (simp add: word_of_be_def bytes_be_def)

lemma bswap_bswap: "8 dvd LENGTH('a) \<Longrightarrow> bswap (bswap w) = (w :: 'a::len word)"
  by (simp add: bswap_def)

text \<open>What is stored is the big-endian encoding, on every host, and it is read back.\<close>

lemma mem_of_htobe [simp]:
  "8 dvd LENGTH('a) \<Longrightarrow> mem_of e (htobe e w) = bytes_be (w :: 'a::len word)"
  by (cases e) (simp_all add: mem_of_def htobe_def bswap_def bytes_be_def)

lemma betoh_of_mem [simp]:
  "8 dvd LENGTH('a) \<Longrightarrow> length bs = LENGTH('a) div 8 \<Longrightarrow>
    betoh e (of_mem e bs) = (word_of_be bs :: 'a::len word)"
  by (cases e) (simp_all add: of_mem_def betoh_def bswap_def word_of_be_def)

lemma betoh_htobe: "8 dvd LENGTH('a) \<Longrightarrow> betoh e (htobe e w) = (w :: 'a::len word)"
  by (cases e) (simp_all add: betoh_def htobe_def bswap_bswap)

end
