(* ===== verification/Byte_Stream.thy ===== *)
theory Byte_Stream
  imports Cpp_Prelude
begin

text \<open>
  The contract a connection relies on when it queues output: bytes put at the end are
  consumed from the front, in order, none lost or duplicated. The operations may refuse a
  put for want of room (\<open>room\<close>) and never fault otherwise. \<open>net/Buffer\<close> provides it.
\<close>

locale byte_stream =
  fixes inv :: "'b \<Rightarrow> bool"
    and stream :: "'b \<Rightarrow> byte list"
    and room :: "'b \<Rightarrow> nat \<Rightarrow> bool"
    and put :: "'b \<Rightarrow> byte list \<Rightarrow> 'b outcome"
    and consume :: "'b \<Rightarrow> int \<Rightarrow> 'b"
    and avail :: "'b \<Rightarrow> int"
  assumes put_law: "inv b \<Longrightarrow> room b (length xs) \<Longrightarrow>
      \<exists>b'. put b xs = Inr b' \<and> inv b' \<and> stream b' = stream b @ xs"
    and consume_inv: "inv b \<Longrightarrow> 0 \<le> n \<Longrightarrow> inv (consume b n)"
    and consume_law: "inv b \<Longrightarrow> 0 \<le> n \<Longrightarrow> stream (consume b n) = drop (nat n) (stream b)"
    and avail_law: "inv b \<Longrightarrow> avail b = int (length (stream b))"
begin

lemma avail_0: "inv b \<Longrightarrow> avail b = 0 \<longleftrightarrow> stream b = []"
  by (simp add: avail_law)

text \<open>What one write hands to the kernel and what stays make up what was there.\<close>

lemma consume_split: "inv b \<Longrightarrow> 0 \<le> n \<Longrightarrow> take (nat n) (stream b) @ stream (consume b n) = stream b"
  by (simp add: consume_law)

text \<open>
  The unwritten tail of a message is queued: the part already written followed by the queue
  is the old queue, here empty, followed by the message.
\<close>

lemma put_tail:
  assumes "inv b" and "room b (length xs - k)" and "stream b = []" and "k \<le> length xs"
  obtains b' where "put b (drop k xs) = Inr b'" and "inv b'" and "take k xs @ stream b' = xs"
  using put_law [of b "drop k xs"] assms by auto

text \<open>A sequence of drains removes the sum of what each removed.\<close>

lemma drain_inv:
  "inv b \<Longrightarrow> \<forall>n \<in> set ns. 0 \<le> n \<Longrightarrow> inv (foldl consume b ns)"
  by (induction ns arbitrary: b) (auto simp: consume_inv)

lemma drain_stream:
  "inv b \<Longrightarrow> \<forall>n \<in> set ns. 0 \<le> n \<Longrightarrow>
    stream (foldl consume b ns) = drop (nat (sum_list ns)) (stream b)"
proof (induction ns arbitrary: b)
  case Nil
  then show ?case by simp
next
  case (Cons n ns)
  then have "0 \<le> sum_list ns" by (auto intro: sum_list_nonneg)
  with Cons show ?case
    by (simp add: consume_inv consume_law nat_add_distrib add.commute)
qed

lemma drained_all:
  "inv b \<Longrightarrow> \<forall>n \<in> set ns. 0 \<le> n \<Longrightarrow> avail b \<le> sum_list ns \<Longrightarrow> avail (foldl consume b ns) = 0"
  by (simp add: avail_law drain_inv drain_stream)

end

end
