(* ===== verification/Buffer.thy ===== *)
theory Buffer
  imports Byte_Order Byte_Stream
begin

text \<open>
  \<open>net/Buffer.h\<close> and \<open>net/Buffer.cpp\<close>: the growable byte buffer of a connection. The
  record has the class's three members; the two indices are C \<open>int\<close>s, and every
  conversion between \<open>int\<close> and \<open>size_t\<close> the source makes is written out. An operation
  that would touch memory outside the vector returns a fault.
\<close>

section \<open>Definitions\<close>

record buffer =
  buf_data :: "byte list"
  readIndex :: int
  writeIndex :: int

definition kInitialSize :: int where
  "kInitialSize = 1024"

definition kPrependSize :: int where
  "kPrependSize = 8"

text \<open>The constructor: its argument (the requested size) is not used, as in the source.\<close>

definition new_buffer :: "int \<Rightarrow> buffer" where
  "new_buffer n =
     \<lparr>buf_data = replicate (nat (kPrependSize + kInitialSize)) 0,
      readIndex = kPrependSize, writeIndex = kPrependSize\<rparr>"

subsection \<open>Sizes\<close>

definition buf_size :: "buffer \<Rightarrow> int" where
  "buf_size b = int (length (buf_data b))"

definition prependableBytes :: "buffer \<Rightarrow> int" where
  "prependableBytes b = readIndex b"

definition readableBytes :: "buffer \<Rightarrow> int" where
  "readableBytes b = to_int32 (writeIndex b - readIndex b)"

definition writableBytes :: "buffer \<Rightarrow> int" where
  "writableBytes b = to_int32 (to_size_t (buf_size b - writeIndex b))"

subsection \<open>Memory accesses through \<open>begin() + index\<close>\<close>

definition read_mem :: "buffer \<Rightarrow> int \<Rightarrow> int \<Rightarrow> byte list outcome" where
  "read_mem b pos len =
     (if 0 \<le> pos \<and> 0 \<le> len \<and> pos + len \<le> buf_size b
      then Inr (segment (buf_data b) (nat pos) (nat len)) else Inl Out_Of_Bounds)"

definition write_mem :: "buffer \<Rightarrow> int \<Rightarrow> byte list \<Rightarrow> buffer outcome" where
  "write_mem b pos xs =
     (if 0 \<le> pos \<and> pos + int (length xs) \<le> buf_size b
      then Inr (b\<lparr>buf_data := overwrite (buf_data b) (nat pos) xs\<rparr>) else Inl Out_Of_Bounds)"

text \<open>
  \<open>std::copy\<close> inside the vector; its destination must not lie in the source range.
\<close>

definition copy_range :: "buffer \<Rightarrow> int \<Rightarrow> int \<Rightarrow> int \<Rightarrow> buffer outcome" where
  "copy_range b first_ptr last_ptr dest_ptr =
     bind_ok (read_mem b first_ptr (last_ptr - first_ptr)) (\<lambda>xs.
       if first_ptr \<le> dest_ptr \<and> dest_ptr < last_ptr then Inl Overlapping_Copy
       else write_mem b dest_ptr xs)"

subsection \<open>Appending\<close>

definition make_room :: "buffer \<Rightarrow> int \<Rightarrow> buffer outcome" where
  "make_room b len =
     (if to_size_t (writableBytes b) < len then
        (if to_size_t (to_int32 (writableBytes b + prependableBytes b))
              < to_size_t (len + kPrependSize) then
           Inr (b\<lparr>buf_data := vec_resize (nat (to_size_t (writeIndex b + len))) 0 (buf_data b)\<rparr>)
         else
           (let originReadSize = to_size_t (readableBytes b) in
            bind_ok (copy_range b (readIndex b) (writeIndex b) kPrependSize) (\<lambda>b1.
              Inr (b1\<lparr>readIndex := kPrependSize,
                      writeIndex := to_int32 (to_size_t (originReadSize + kPrependSize))\<rparr>))))
      else Inr b)"

definition append_bytes :: "buffer \<Rightarrow> byte list \<Rightarrow> buffer outcome" where
  "append_bytes b xs =
     (let len = int (length xs) in
      bind_ok (make_room b len) (\<lambda>b1.
      bind_ok (write_mem b1 (writeIndex b1) xs) (\<lambda>b2.
        Inr (b2\<lparr>writeIndex := to_int32 (to_size_t (writeIndex b2 + len))\<rparr>))))"

definition appendInt8 :: "endian \<Rightarrow> buffer \<Rightarrow> 8 word \<Rightarrow> buffer outcome" where
  "appendInt8 e b v = append_bytes b (mem_of e v)"

definition appendInt16 :: "endian \<Rightarrow> buffer \<Rightarrow> 16 word \<Rightarrow> buffer outcome" where
  "appendInt16 e b v = append_bytes b (mem_of e (htobe e v))"

definition appendInt32 :: "endian \<Rightarrow> buffer \<Rightarrow> 32 word \<Rightarrow> buffer outcome" where
  "appendInt32 e b v = append_bytes b (mem_of e (htobe e v))"

definition appendInt64 :: "endian \<Rightarrow> buffer \<Rightarrow> 64 word \<Rightarrow> buffer outcome" where
  "appendInt64 e b v = append_bytes b (mem_of e (htobe e v))"

subsection \<open>Prepending\<close>

definition prepend :: "buffer \<Rightarrow> byte list \<Rightarrow> buffer outcome" where
  "prepend b xs =
     (let b1 = b\<lparr>readIndex := to_int32 (to_size_t (readIndex b - int (length xs)))\<rparr>
      in write_mem b1 (readIndex b1) xs)"

definition prependInt8 :: "endian \<Rightarrow> buffer \<Rightarrow> 8 word \<Rightarrow> buffer outcome" where
  "prependInt8 e b v = prepend b (mem_of e v)"

definition prependInt16 :: "endian \<Rightarrow> buffer \<Rightarrow> 16 word \<Rightarrow> buffer outcome" where
  "prependInt16 e b v = prepend b (mem_of e (htobe e v))"

definition prependInt32 :: "endian \<Rightarrow> buffer \<Rightarrow> 32 word \<Rightarrow> buffer outcome" where
  "prependInt32 e b v = prepend b (mem_of e (htobe e v))"

definition prependInt64 :: "endian \<Rightarrow> buffer \<Rightarrow> 64 word \<Rightarrow> buffer outcome" where
  "prependInt64 e b v = prepend b (mem_of e (htobe e v))"

subsection \<open>Retrieving\<close>

definition retrieveAll :: "buffer \<Rightarrow> buffer" where
  "retrieveAll b = b\<lparr>readIndex := kPrependSize, writeIndex := kPrependSize\<rparr>"

definition retrieve :: "buffer \<Rightarrow> int \<Rightarrow> buffer" where
  "retrieve b len =
     (if len < to_size_t (readableBytes b)
      then b\<lparr>readIndex := to_int32 (to_size_t (readIndex b + len))\<rparr>
      else retrieveAll b)"

text \<open>A \<open>const char *\<close> into the buffer is its index from \<open>begin()\<close>.\<close>

definition peek :: "buffer \<Rightarrow> int" where
  "peek b = readIndex b"

definition retrieveUntil :: "buffer \<Rightarrow> int \<Rightarrow> buffer" where
  "retrieveUntil b end_ptr = retrieve b (to_size_t (end_ptr - peek b))"

definition retrieveAsString :: "buffer \<Rightarrow> int \<Rightarrow> (byte list \<times> buffer) outcome" where
  "retrieveAsString b len =
     bind_ok (read_mem b (peek b) len) (\<lambda>s. Inr (s, retrieve b len))"

definition retrieveAllAsString :: "buffer \<Rightarrow> (byte list \<times> buffer) outcome" where
  "retrieveAllAsString b = retrieveAsString b (to_size_t (readableBytes b))"

definition retrieveAsString_until :: "buffer \<Rightarrow> int \<Rightarrow> (byte list \<times> buffer) outcome" where
  "retrieveAsString_until b end_ptr =
     bind_ok (read_mem b (peek b) (to_size_t (end_ptr - peek b))) (\<lambda>s.
       Inr (s, retrieve b (to_size_t (end_ptr - peek b))))"

subsection \<open>Reading integers\<close>

definition peekInt8 :: "endian \<Rightarrow> buffer \<Rightarrow> 8 word outcome" where
  "peekInt8 e b = bind_ok (read_mem b (peek b) 1) (\<lambda>bs. Inr (of_mem e bs))"

definition peekInt16 :: "endian \<Rightarrow> buffer \<Rightarrow> 16 word outcome" where
  "peekInt16 e b = bind_ok (read_mem b (peek b) 2) (\<lambda>bs. Inr (betoh e (of_mem e bs)))"

definition peekInt32 :: "endian \<Rightarrow> buffer \<Rightarrow> 32 word outcome" where
  "peekInt32 e b = bind_ok (read_mem b (peek b) 4) (\<lambda>bs. Inr (betoh e (of_mem e bs)))"

definition peekInt64 :: "endian \<Rightarrow> buffer \<Rightarrow> 64 word outcome" where
  "peekInt64 e b = bind_ok (read_mem b (peek b) 8) (\<lambda>bs. Inr (betoh e (of_mem e bs)))"

definition readInt8 :: "endian \<Rightarrow> buffer \<Rightarrow> (8 word \<times> buffer) outcome" where
  "readInt8 e b = bind_ok (peekInt8 e b) (\<lambda>v. Inr (v, retrieve b 1))"

definition readInt16 :: "endian \<Rightarrow> buffer \<Rightarrow> (16 word \<times> buffer) outcome" where
  "readInt16 e b = bind_ok (peekInt16 e b) (\<lambda>v. Inr (v, retrieve b 2))"

definition readInt32 :: "endian \<Rightarrow> buffer \<Rightarrow> (32 word \<times> buffer) outcome" where
  "readInt32 e b = bind_ok (peekInt32 e b) (\<lambda>v. Inr (v, retrieve b 4))"

definition readInt64 :: "endian \<Rightarrow> buffer \<Rightarrow> (64 word \<times> buffer) outcome" where
  "readInt64 e b = bind_ok (peekInt64 e b) (\<lambda>v. Inr (v, retrieve b 8))"

subsection \<open>Searching\<close>

text \<open>\<open>std::search\<close> for a pattern: offset of its first occurrence.\<close>

fun search :: "byte list \<Rightarrow> byte list \<Rightarrow> nat option" where
  "search pat [] = (if pat = [] then Some 0 else None)"
| "search pat (x # xs) =
     (if take (length pat) (x # xs) = pat then Some 0 else map_option Suc (search pat xs))"

definition kCRLF :: "byte list" where
  "kCRLF = [13, 10]"

text \<open>The readable range, on which the searches run.\<close>

definition readable_range :: "buffer \<Rightarrow> byte list outcome" where
  "readable_range b = read_mem b (peek b) (writeIndex b - peek b)"

definition findCRLF :: "buffer \<Rightarrow> int option outcome" where
  "findCRLF b = bind_ok (readable_range b) (\<lambda>xs.
     Inr (case search kCRLF xs of None \<Rightarrow> None | Some i \<Rightarrow> Some (peek b + int i)))"

definition findEOL :: "buffer \<Rightarrow> int option outcome" where
  "findEOL b = bind_ok (read_mem b (peek b) (to_size_t (readableBytes b))) (\<lambda>xs.
     Inr (case search [10] xs of None \<Rightarrow> None | Some i \<Rightarrow> Some (peek b + int i)))"

subsection \<open>Reading from a descriptor\<close>

text \<open>
  The result of \<open>::readv\<close>: an error number, or the bytes the kernel scattered over the
  two areas. The kernel is a parameter; it is given the total length of the areas.
\<close>

datatype read_result = Read_Fail int | Read_Bytes "byte list"

definition sizeof_extrabuf :: int where
  "sizeof_extrabuf = 65536"

definition readFromFd :: "(int \<Rightarrow> read_result) \<Rightarrow> buffer \<Rightarrow> (int \<times> int option \<times> buffer) outcome" where
  "readFromFd kernel_readv b =
     (let originWrite = to_size_t (writableBytes b);
          iovcnt = (if originWrite < sizeof_extrabuf then 2 else (1::int));
          extra = (if iovcnt = 2 then sizeof_extrabuf else 0);
          capacity = originWrite + extra
      in case kernel_readv capacity of
           Read_Fail err \<Rightarrow> Inr (- 1, Some err, b)
         | Read_Bytes bs \<Rightarrow>
             (let n = int (length bs) in
              bind_ok (write_mem b (writeIndex b) (take (nat originWrite) bs)) (\<lambda>b1.
                if n \<le> originWrite
                then Inr (n, None, b1\<lparr>writeIndex := to_int32 (writeIndex b1 + n)\<rparr>)
                else if extra < n - originWrite then Inl Out_Of_Bounds
                else bind_ok
                       (append_bytes (b1\<lparr>writeIndex := to_int32 (buf_size b1)\<rparr>)
                          (drop (nat originWrite) bs))
                       (\<lambda>b2. Inr (n, None, b2)))))"

subsection \<open>Abstract view\<close>

text \<open>
  Well-formedness, the bytes a reader will see, and the condition under which an append
  of \<open>n\<close> bytes keeps the write index inside a C \<open>int\<close>.
\<close>

definition buf_inv :: "buffer \<Rightarrow> bool" where
  "buf_inv b \<longleftrightarrow> 0 \<le> readIndex b \<and> readIndex b \<le> writeIndex b \<and> writeIndex b \<le> buf_size b
     \<and> kPrependSize \<le> buf_size b \<and> buf_size b < 2147483648"

definition content :: "buffer \<Rightarrow> byte list" where
  "content b = segment (buf_data b) (nat (readIndex b)) (nat (writeIndex b - readIndex b))"

definition buf_room :: "buffer \<Rightarrow> nat \<Rightarrow> bool" where
  "buf_room b n \<longleftrightarrow> writeIndex b + int n < 2147483648"


section \<open>Lemmas\<close>

lemmas buf_consts = kPrependSize_def kInitialSize_def
lemmas buf_sizes = readableBytes_def writableBytes_def prependableBytes_def

lemma buf_invD:
  assumes "buf_inv b"
  shows "0 \<le> readIndex b" and "readIndex b \<le> writeIndex b" and "writeIndex b \<le> buf_size b"
    and "8 \<le> buf_size b" and "buf_size b < 2147483648"
  using assms by (simp_all add: buf_inv_def buf_consts)

lemma buf_size_simps [simp]:
  "buf_size (b\<lparr>readIndex := r\<rparr>) = buf_size b"
  "buf_size (b\<lparr>writeIndex := w\<rparr>) = buf_size b"
  "buf_size (b\<lparr>buf_data := xs\<rparr>) = int (length xs)"
  by (simp_all add: buf_size_def)

text \<open>Under the invariant the size operations are the plain differences.\<close>

lemma readableBytes_eq: "buf_inv b \<Longrightarrow> readableBytes b = writeIndex b - readIndex b"
  using buf_invD [of b] by (simp add: buf_sizes cint)

lemma writableBytes_eq: "buf_inv b \<Longrightarrow> writableBytes b = buf_size b - writeIndex b"
  using buf_invD [of b] by (simp add: buf_sizes cint)


text \<open>A well-formed buffer in natural-number indices.\<close>

lemma buf_inv_natE:
  assumes "buf_inv b"
  obtains r w where "readIndex b = int r" and "writeIndex b = int w" and "r \<le> w"
    and "w \<le> length (buf_data b)" and "8 \<le> length (buf_data b)"
    and "length (buf_data b) < 2147483648"
proof (rule that [of "nat (readIndex b)" "nat (writeIndex b)"])
  show "readIndex b = int (nat (readIndex b))" "writeIndex b = int (nat (writeIndex b))"
    "nat (readIndex b) \<le> nat (writeIndex b)" "nat (writeIndex b) \<le> length (buf_data b)"
    "8 \<le> length (buf_data b)" "length (buf_data b) < 2147483648"
    using assms by (auto simp: buf_inv_def buf_consts buf_size_def)
qed

lemma buf_invI:
  "readIndex b = int r \<Longrightarrow> writeIndex b = int w \<Longrightarrow> r \<le> w \<Longrightarrow> w \<le> length (buf_data b) \<Longrightarrow>
    8 \<le> length (buf_data b) \<Longrightarrow> length (buf_data b) < 2147483648 \<Longrightarrow> buf_inv b"
  by (simp add: buf_inv_def buf_consts buf_size_def)

lemma content_nat:
  "readIndex b = int r \<Longrightarrow> writeIndex b = int w \<Longrightarrow> content b = segment (buf_data b) r (w - r)"
  by (simp add: content_def nat_diff_distrib')

lemma length_content: "buf_inv b \<Longrightarrow> int (length (content b)) = readableBytes b"
  by (erule buf_inv_natE) (simp add: content_nat readableBytes_def cint)

lemma readable_nat:
  "buf_inv b \<Longrightarrow> readIndex b = int r \<Longrightarrow> writeIndex b = int w \<Longrightarrow> readableBytes b = int (w - r)"
  by (simp add: readableBytes_eq buf_inv_def)

lemma read_mem_nat:
  "pos + n \<le> length (buf_data b) \<Longrightarrow>
    read_mem b (int pos) (int n) = Inr (segment (buf_data b) pos n)"
  by (simp add: read_mem_def buf_size_def)

lemma write_mem_nat:
  "pos + length xs \<le> length (buf_data b) \<Longrightarrow>
    write_mem b (int pos) xs = Inr (b\<lparr>buf_data := overwrite (buf_data b) pos xs\<rparr>)"
  by (simp add: write_mem_def buf_size_def)

lemma read_mem_content:
  "buf_inv b \<Longrightarrow> read_mem b (readIndex b) (writeIndex b - readIndex b) = Inr (content b)"
  by (simp add: read_mem_def content_def buf_inv_def)

lemma new_buffer_inv: "buf_inv (new_buffer n)"
  by (simp add: buf_inv_def new_buffer_def buf_consts buf_size_def)

lemma new_buffer_content [simp]: "content (new_buffer n) = []"
  by (simp add: content_def new_buffer_def)

subsection \<open>Appending\<close>

text \<open>
  The three ways \<open>append\<close> makes room. When it moves the readable bytes to the front they
  lie strictly behind the destination, so the precondition of \<open>std::copy\<close> holds.
\<close>

lemma make_room_fits:
  assumes "buf_inv b" and "int n \<le> writableBytes b"
  shows "make_room b (int n) = Inr b"
  using assms buf_invD [OF assms(1)] by (simp add: make_room_def writableBytes_eq cint)

lemma make_room_grows:
  assumes "buf_inv b" and "buf_room b n" and "writableBytes b < int n"
    and "writableBytes b + prependableBytes b < int n + kPrependSize"
  shows "make_room b (int n) =
    Inr (b\<lparr>buf_data := vec_resize (nat (writeIndex b + int n)) 0 (buf_data b)\<rparr>)"
  using assms buf_invD [OF assms(1)]
  by (simp add: make_room_def writableBytes_eq prependableBytes_def buf_room_def buf_consts cint)

lemma make_room_moves:
  assumes "buf_inv b" and "writableBytes b < int n"
    and "int n + kPrependSize \<le> writableBytes b + prependableBytes b"
  shows "make_room b (int n) =
    Inr (b\<lparr>buf_data := overwrite (buf_data b) 8 (content b),
           readIndex := 8, writeIndex := 8 + int (length (content b))\<rparr>)"
proof -
  from assms(1) obtain r w where rw: "readIndex b = int r" "writeIndex b = int w" "r \<le> w"
    and len: "w \<le> length (buf_data b)" "length (buf_data b) < 2147483648"
    by (rule buf_inv_natE)
  have wr: "writableBytes b = int (length (buf_data b) - w)"
    using assms(1) rw len by (simp add: writableBytes_eq buf_size_def)
  have far: "8 < r" "8 + (w - r) \<le> length (buf_data b)"
    using assms(2,3) rw len wr by (simp_all add: prependableBytes_def buf_consts)
  have cont: "content b = segment (buf_data b) r (w - r)"
    using rw(1,2) by (rule content_nat)
  have "read_mem b (int r) (int w - int r) = Inr (content b)"
    using read_mem_content [OF assms(1)] rw by simp
  moreover have "write_mem b 8 (content b) =
      Inr (b\<lparr>buf_data := overwrite (buf_data b) 8 (content b)\<rparr>)"
    using write_mem_nat [of 8 "content b" b] far len rw by (simp add: cont)
  ultimately have "copy_range b (readIndex b) (writeIndex b) 8 =
      Inr (b\<lparr>buf_data := overwrite (buf_data b) 8 (content b)\<rparr>)"
    using far rw by (simp add: copy_range_def)
  moreover have "\<not> int (length (buf_data b) - w) + int r < int n + 8"
    and "int (length (buf_data b) - w) < int n"
    using assms(2,3) rw wr by (simp_all add: prependableBytes_def buf_consts)
  ultimately show ?thesis
    using assms(1) far len rw
    by (simp add: make_room_def Let_def wr prependableBytes_def buf_consts cint cont readable_nat)
qed


text \<open>Whatever way the room was made: nothing readable changes and the bytes fit.\<close>

lemma make_room_ok:
  assumes inv: "buf_inv b" and room: "buf_room b n"
  obtains b1 where "make_room b (int n) = Inr b1" and "buf_inv b1" and "content b1 = content b"
    and "writeIndex b1 + int n \<le> buf_size b1" and "writeIndex b1 \<le> writeIndex b"
proof (cases "int n \<le> writableBytes b")
  case True
  with make_room_fits [OF inv True] inv show ?thesis
    by (intro that [of b]) (simp_all add: writableBytes_eq)
next
  case no_fit: False
  from inv obtain r w where rw: "readIndex b = int r" "writeIndex b = int w" "r \<le> w"
    and len: "w \<le> length (buf_data b)" "8 \<le> length (buf_data b)" "length (buf_data b) < 2147483648"
    by (rule buf_inv_natE)
  have wr: "writableBytes b = int (length (buf_data b) - w)"
    using inv rw len by (simp add: writableBytes_eq buf_size_def)
  show ?thesis
  proof (cases "writableBytes b + prependableBytes b < int n + kPrependSize")
    case True
    have grown: "nat (writeIndex b + int n) = w + n" using rw by simp
    let ?b = "b\<lparr>buf_data := vec_resize (w + n) 0 (buf_data b)\<rparr>"
    have "buf_inv ?b"
      using rw len room no_fit wr by (intro buf_invI [of _ r w]) (simp_all add: buf_room_def)
    moreover have "content ?b = content b"
      using rw len by (simp add: content_nat [of _ r w] arr)
    ultimately show ?thesis
      using make_room_grows [OF inv room _ True] no_fit rw by (intro that [of ?b]) (simp_all add: grown nat_int_add)
  next
    case False
    let ?c = "content b"
    let ?b = "b\<lparr>buf_data := overwrite (buf_data b) 8 ?c, readIndex := 8,
      writeIndex := 8 + int (length ?c)\<rparr>"
    have lc: "length ?c = w - r" using rw len by (simp add: content_nat [of _ r w])
    have far: "8 < r" "8 + (w - r) + n \<le> length (buf_data b)"
      using False no_fit rw len wr by (simp_all add: prependableBytes_def buf_consts)
    have "buf_inv ?b"
      using far lc len by (intro buf_invI [of _ 8 "8 + (w - r)"]) simp_all
    moreover have "content ?b = ?c"
      using segment_overwrite_same [of 8 ?c "buf_data b"] far lc
      by (simp add: content_nat [of _ 8 "8 + (w - r)"])
    ultimately show ?thesis
      using make_room_moves [OF inv] False no_fit far lc rw
      by (intro that [of ?b]) simp_all
  qed
qed

lemma append_indices:
  assumes inv: "buf_inv b" and room: "buf_room b (length xs)"
  obtains b1 b' where "make_room b (int (length xs)) = Inr b1" and "append_bytes b xs = Inr b'" and "buf_inv b'"
    and "content b' = content b @ xs" and "readIndex b' = readIndex b1"
    and "writeIndex b' = writeIndex b1 + int (length xs)" and "buf_size b' = buf_size b1"
    and "writeIndex b1 \<le> writeIndex b"
proof -
  obtain b1 where b1: "make_room b (int (length xs)) = Inr b1" "buf_inv b1"
      "content b1 = content b" "writeIndex b1 + int (length xs) \<le> buf_size b1"
      "writeIndex b1 \<le> writeIndex b"
    by (rule make_room_ok [OF inv room])
  from b1(2) obtain r w where rw: "readIndex b1 = int r" "writeIndex b1 = int w" "r \<le> w"
    and len: "w \<le> length (buf_data b1)" "8 \<le> length (buf_data b1)" "length (buf_data b1) < 2147483648"
    by (rule buf_inv_natE)
  have fit: "w + length xs \<le> length (buf_data b1)"
    using b1(4) rw by (simp add: buf_size_def)
  let ?b = "b1\<lparr>buf_data := overwrite (buf_data b1) w xs, writeIndex := int (w + length xs)\<rparr>"
  have "append_bytes b xs = Inr ?b"
    using b1(1) rw fit len by (simp add: append_bytes_def Let_def write_mem_nat cint)
  moreover have "buf_inv ?b"
    using rw fit len by (intro buf_invI [of _ r "w + length xs"]) simp_all
  moreover have "content ?b = content b @ xs"
    using b1(3) rw fit
    by (simp add: content_nat [of _ r w] content_nat [of _ r "w + length xs"]
        segment_overwrite_extend [of r "w - r"])
  moreover have "buf_size ?b = buf_size b1" using fit by (simp add: buf_size_def)
  ultimately show ?thesis
    using b1(1,5) rw by (intro that [of b1 ?b]) simp_all
qed

lemma append_bytes_ok:
  assumes "buf_inv b" and "buf_room b (length xs)"
  obtains b' where "append_bytes b xs = Inr b'" and "buf_inv b'"
    and "content b' = content b @ xs" and "writeIndex b' \<le> writeIndex b + int (length xs)"
proof (rule append_indices [OF assms])
  fix b1 b'
  assume "append_bytes b xs = Inr b'" and "buf_inv b'" and "content b' = content b @ xs"
    and "writeIndex b' = writeIndex b1 + int (length xs)" and "writeIndex b1 \<le> writeIndex b"
  then show thesis by (intro that [of b']) (assumption | linarith)+
qed


subsection \<open>Retrieving\<close>

lemma retrieve_inv:
  assumes "buf_inv b" and "0 \<le> len"
  shows "buf_inv (retrieve b len)"
proof (cases "len < readableBytes b")
  case True
  with assms buf_invD [OF assms(1)] show ?thesis
    by (simp add: retrieve_def readableBytes_eq cint) (simp add: buf_inv_def buf_consts)
next
  case False
  with assms buf_invD [OF assms(1)] show ?thesis
    by (simp add: retrieve_def retrieveAll_def readableBytes_eq cint)
      (simp add: buf_inv_def buf_consts)
qed

lemma retrieve_content:
  assumes "buf_inv b" and "0 \<le> len"
  shows "content (retrieve b len) = drop (nat len) (content b)"
proof (cases "len < readableBytes b")
  case True
  from assms(1) obtain r w where rw: "readIndex b = int r" "writeIndex b = int w" "r \<le> w"
    and len: "w \<le> length (buf_data b)" "8 \<le> length (buf_data b)" "length (buf_data b) < 2147483648"
    by (rule buf_inv_natE)
  define k where "k = nat len"
  with True assms rw have k: "len = int k" "k < w - r"
    by (simp_all add: readable_nat)
  then have "retrieve b len = b\<lparr>readIndex := int (r + k)\<rparr>"
    using True assms(1) rw len by (simp add: retrieve_def readable_nat cint)
  then show ?thesis
    using rw k len segment_take_drop [of k "w - r" "buf_data b" r]
    by (simp add: content_nat [of _ r w] content_nat [of _ "r + k" w])
next
  case False
  then have "length (content b) \<le> nat len"
    using assms length_content [of b] by simp
  moreover have "content (retrieveAll b) = []"
    by (simp add: retrieveAll_def content_def)
  ultimately show ?thesis
    using False assms buf_invD [of b] by (simp add: retrieve_def readableBytes_eq cint)
qed

lemma read_mem_prefix:
  assumes "buf_inv b" and "0 \<le> n" and "n \<le> readableBytes b"
  shows "read_mem b (peek b) n = Inr (take (nat n) (content b))"
proof -
  have "nat n \<le> nat (writeIndex b - readIndex b)"
    using assms by (simp add: readableBytes_eq)
  then show ?thesis
    using assms buf_invD [of b]
    by (simp add: read_mem_def peek_def content_def readableBytes_eq arr)
qed

lemma retrieveAsString_ok:
  "buf_inv b \<Longrightarrow> 0 \<le> n \<Longrightarrow> n \<le> readableBytes b \<Longrightarrow>
    retrieveAsString b n = Inr (take (nat n) (content b), retrieve b n)"
  by (simp add: retrieveAsString_def read_mem_prefix)

lemma retrieveAllAsString_ok:
  assumes "buf_inv b"
  shows "retrieveAllAsString b = Inr (content b, retrieveAll b)"
proof -
  have r: "0 \<le> readableBytes b" "readableBytes b < 2147483648"
    using assms buf_invD [of b] by (simp_all add: readableBytes_eq)
  then have "to_size_t (readableBytes b) = readableBytes b"
    by (simp add: cint)
  moreover have "take (nat (readableBytes b)) (content b) = content b"
    using length_content [OF assms] by simp
  ultimately show ?thesis
    using assms r
    by (simp add: retrieveAllAsString_def retrieveAsString_ok retrieve_def)
qed

subsection \<open>Prepending\<close>

lemma to_int32_mod: "to_int32 x mod 4294967296 = x mod 4294967296"
proof -
  have "take_bit 32 (signed_take_bit 31 x) = take_bit 32 x"
    by (simp add: take_bit_signed_take_bit)
  then show ?thesis by (simp add: to_int32_def take_bit_int_def)
qed

lemma prepend_ok:
  assumes "buf_inv b" and "int (length xs) \<le> prependableBytes b"
  obtains b' where "prepend b xs = Inr b'" and "buf_inv b'" and "content b' = xs @ content b"
proof -
  from assms(1) obtain r w where rw: "readIndex b = int r" "writeIndex b = int w" "r \<le> w"
    and len: "w \<le> length (buf_data b)" "8 \<le> length (buf_data b)" "length (buf_data b) < 2147483648"
    by (rule buf_inv_natE)
  let ?p = "r - length xs"
  from assms(2) rw have le: "length xs \<le> r" by (simp add: prependableBytes_def)
  let ?b = "b\<lparr>buf_data := overwrite (buf_data b) ?p xs, readIndex := int ?p\<rparr>"
  have p: "to_int32 (int r - int (length xs)) = int ?p"
    using le rw len by (simp add: cint of_nat_diff)
  have "write_mem (b\<lparr>readIndex := int ?p\<rparr>) (int ?p) xs = Inr ?b"
    using write_mem_nat [of ?p xs "b\<lparr>readIndex := int ?p\<rparr>"] le rw len by simp
  with p have "prepend b xs = Inr ?b"
    by (simp add: prepend_def Let_def rw(1) del: of_nat_diff)
  moreover have "buf_inv ?b"
    using rw len le by (intro buf_invI [of _ ?p w]) simp_all
  moreover have "content ?b = xs @ content b"
  proof -
    have "w - ?p = length xs + (w - r)" and adj: "?p + length xs = r" using le rw by simp_all
    then have "segment (overwrite (buf_data b) ?p xs) ?p (w - ?p) =
        xs @ segment (buf_data b) r (w - r)"
      using len rw by (simp only: segment_split) (simp add: arr)
    then show ?thesis using rw by (simp add: content_nat [of _ r w] content_nat [of _ ?p w])
  qed
  ultimately show ?thesis by (rule that)
qed

lemma prepend_fault:
  assumes "buf_inv b" and "prependableBytes b < int (length xs)"
  shows "prepend b xs = Inl Out_Of_Bounds"
proof -
  let ?n = "int (length xs)"
  let ?p = "to_int32 (readIndex b - ?n)"
  have "\<not> (0 \<le> ?p \<and> ?p + ?n \<le> buf_size b)"
  proof
    assume a: "0 \<le> ?p \<and> ?p + ?n \<le> buf_size b"
    have "(?p + ?n) mod 4294967296 = (readIndex b - ?n + ?n) mod 4294967296"
      by (intro mod_add_cong to_int32_mod refl)
    then have "(?p + ?n) mod 4294967296 = readIndex b mod 4294967296" by simp
    then have "?p + ?n = readIndex b"
      using a buf_invD [OF assms(1)] by (simp add: mod_pos_pos_trivial)
    with a assms show False by (simp add: prependableBytes_def)
  qed
  then show ?thesis by (simp add: prepend_def Let_def write_mem_def)
qed


subsection \<open>Integers\<close>

lemma mem_of_8 [simp]: "mem_of e (v :: 8 word) = [v]"
  by (cases e) (simp_all add: mem_of_def bytes_le_def bytes_be_def)

lemma of_mem_8 [simp]: "of_mem e [v] = (v :: 8 word)"
  by (cases e) (simp_all add: of_mem_def word_of_be_def)

lemma bytes_be_8 [simp]: "bytes_be (v :: 8 word) = [v]"
  by (simp add: bytes_be_def bytes_le_def)

text \<open>Each \<open>appendInt\<close>/\<open>prependInt\<close> stores the big-endian bytes, on either host.\<close>

lemma appendInt_eq:
  "appendInt8 e b v8 = append_bytes b (bytes_be v8)"
  "appendInt16 e b v16 = append_bytes b (bytes_be v16)"
  "appendInt32 e b v32 = append_bytes b (bytes_be v32)"
  "appendInt64 e b v64 = append_bytes b (bytes_be v64)"
  by (simp_all add: appendInt8_def appendInt16_def appendInt32_def appendInt64_def)

lemma prependInt_eq:
  "prependInt8 e b v8 = prepend b (bytes_be v8)"
  "prependInt16 e b v16 = prepend b (bytes_be v16)"
  "prependInt32 e b v32 = prepend b (bytes_be v32)"
  "prependInt64 e b v64 = prepend b (bytes_be v64)"
  by (simp_all add: prependInt8_def prependInt16_def prependInt32_def prependInt64_def)

text \<open>A read consumes exactly the bytes of the integer at the front.\<close>

lemma front_bytes:
  assumes "buf_inv b" and "content b = xs @ rest"
  shows "read_mem b (peek b) (int (length xs)) = Inr xs"
    and "content (retrieve b (int (length xs))) = rest"
  using assms length_content [of b] read_mem_prefix [of b "int (length xs)"]
    retrieve_content [of b "int (length xs)"] by simp_all

lemma front_bytes_word:
  fixes v :: "'a::len word"
  assumes "buf_inv b" and "content b = bytes_be v @ rest" and "n = int (LENGTH('a) div 8)"
  shows "read_mem b (peek b) n = Inr (bytes_be v)" and "content (retrieve b n) = rest"
  using front_bytes [OF assms(1,2)] assms(3) by simp_all

lemma readInt_ok:
  assumes "buf_inv b"
  shows "content b = bytes_be v8 @ rest \<Longrightarrow>
      \<exists>b'. readInt8 e b = Inr (v8, b') \<and> buf_inv b' \<and> content b' = rest"
    and "content b = bytes_be v16 @ rest \<Longrightarrow>
      \<exists>b'. readInt16 e b = Inr (v16, b') \<and> buf_inv b' \<and> content b' = rest"
    and "content b = bytes_be v32 @ rest \<Longrightarrow>
      \<exists>b'. readInt32 e b = Inr (v32, b') \<and> buf_inv b' \<and> content b' = rest"
    and "content b = bytes_be v64 @ rest \<Longrightarrow>
      \<exists>b'. readInt64 e b = Inr (v64, b') \<and> buf_inv b' \<and> content b' = rest"
  using front_bytes_word [OF assms(1), of v8 rest 1] front_bytes_word [OF assms(1), of v16 rest 2]
    front_bytes_word [OF assms(1), of v32 rest 4] front_bytes_word [OF assms(1), of v64 rest 8]
    retrieve_inv [OF assms]
  by (simp_all add: readInt8_def readInt16_def readInt32_def readInt64_def
      peekInt8_def peekInt16_def peekInt32_def peekInt64_def)

subsection \<open>Searching\<close>

lemma search_Some:
  "search pat xs = Some i \<Longrightarrow>
    take (length pat) (drop i xs) = pat \<and> (\<forall>j<i. take (length pat) (drop j xs) \<noteq> pat)"
proof (induction pat xs arbitrary: i rule: search.induct)
  case (1 pat)
  then show ?case by (simp split: if_splits)
next
  case (2 pat x xs)
  show ?case
  proof (cases "take (length pat) (x # xs) = pat")
    case True
    with "2.prems" show ?thesis by simp
  next
    case False
    with "2.prems" obtain k where k: "i = Suc k" "search pat xs = Some k" by auto
    have "take (length pat) (drop j (x # xs)) \<noteq> pat" if "j < i" for j
      using "2.IH" [OF False k(2)] False that k(1) by (cases j) auto
    with "2.IH" [OF False k(2)] k(1) show ?thesis by simp
  qed
qed

lemma search_None:
  "search pat xs = None \<Longrightarrow> take (length pat) (drop j xs) \<noteq> pat \<or> length xs < j \<or> pat = []"
proof (induction pat xs arbitrary: j rule: search.induct)
  case (1 pat)
  then show ?case by (simp split: if_splits)
next
  case (2 pat x xs)
  then show ?case by (cases j) (auto split: if_splits)
qed

lemma search_CRLF_first:
  "search kCRLF (l @ [13]) = None \<Longrightarrow> search kCRLF (l @ kCRLF @ rest) = Some (length l)"
proof (induction l)
  case Nil
  then show ?case by (simp add: kCRLF_def)
next
  case (Cons x l)
  then show ?case by (cases l) (auto simp: kCRLF_def split: if_splits)
qed

lemma search_CRLF_in_range:
  "search kCRLF xs = Some i \<Longrightarrow> i + 2 \<le> length xs"
proof -
  assume "search kCRLF xs = Some i"
  then have "take (length kCRLF) (drop i xs) = kCRLF"
    by (simp only: search_Some)
  then have "length (take (length kCRLF) (drop i xs)) = length kCRLF"
    by (rule arg_cong)
  then show ?thesis by (simp add: kCRLF_def min_def split: if_splits)
qed

lemma findCRLF_eq:
  "buf_inv b \<Longrightarrow> findCRLF b = Inr (map_option (\<lambda>i. peek b + int i) (search kCRLF (content b)))"
  using read_mem_content [of b]
  by (simp add: findCRLF_def readable_range_def peek_def split: option.split)

subsection \<open>Reading from a descriptor\<close>

text \<open>
  The contract of \<open>readv\<close>: it never returns more bytes than the areas hold.
\<close>

definition readv_within :: "(int \<Rightarrow> read_result) \<Rightarrow> bool" where
  "readv_within k \<longleftrightarrow> (\<forall>cap bs. 0 \<le> cap \<longrightarrow> k cap = Read_Bytes bs \<longrightarrow> int (length bs) \<le> cap)"

definition iov_capacity :: "buffer \<Rightarrow> int" where
  "iov_capacity b = writableBytes b + (if writableBytes b < sizeof_extrabuf then sizeof_extrabuf else 0)"

lemma readFromFd_ok:
  assumes inv: "buf_inv b" and room: "buf_room b (length bs)"
    and kernel: "kernel_readv (iov_capacity b) = Read_Bytes bs"
    and within: "readv_within kernel_readv"
  obtains b' where "readFromFd kernel_readv b = Inr (int (length bs), None, b')"
    and "buf_inv b'" and "content b' = content b @ bs"
proof -
  from inv obtain r w where rw: "readIndex b = int r" "writeIndex b = int w" "r \<le> w"
    and len: "w \<le> length (buf_data b)" "8 \<le> length (buf_data b)" "length (buf_data b) < 2147483648"
    by (rule buf_inv_natE)
  define k where "k = length (buf_data b) - w"
  have ow: "to_size_t (int k) = int k" "writableBytes b = int k"
    using inv rw len by (simp_all add: writableBytes_eq buf_size_def k_def cint)
  let ?head = "take k bs"
  let ?b1 = "b\<lparr>buf_data := overwrite (buf_data b) w ?head\<rparr>"
  have lhead: "w + length ?head \<le> length (buf_data b)"
    using len by (simp add: k_def)
  then have wr: "write_mem b (writeIndex b) ?head = Inr ?b1"
    using rw by (simp only: write_mem_nat)
  have cap: "int (length bs) \<le> iov_capacity b"
    using within kernel ow by (auto simp: readv_within_def iov_capacity_def sizeof_extrabuf_def)
  have call: "readFromFd kernel_readv b =
      (if length bs \<le> k then Inr (int (length bs), None, ?b1\<lparr>writeIndex := to_int32 (int w + int (length bs))\<rparr>)
       else bind_ok (append_bytes (?b1\<lparr>writeIndex := to_int32 (buf_size ?b1)\<rparr>) (drop k bs))
              (\<lambda>b2. Inr (int (length bs), None, b2)))"
    using kernel cap wr rw
    by (cases "length bs \<le> k")
      (simp_all add: readFromFd_def iov_capacity_def ow Let_def sizeof_extrabuf_def
        split: if_splits)
  show ?thesis
  proof (cases "length bs \<le> k")
    case True
    let ?b = "?b1\<lparr>writeIndex := int (w + length bs)\<rparr>"
    have "buf_inv ?b"
      using True lhead rw len by (intro buf_invI [of _ r "w + length bs"]) simp_all
    moreover have "content ?b = content b @ bs"
      using True lhead rw len
      by (simp add: content_nat [of _ r w] content_nat [of _ r "w + length bs"]
          segment_overwrite_extend [of r "w - r"])
    moreover have "to_int32 (int w + int (length bs)) = int (w + length bs)"
      using True lhead len by (simp add: cint)
    ultimately show ?thesis using call True by (intro that [of ?b]) simp_all
  next
    case False
    then have hk: "length ?head = k" by simp
    let ?b2 = "?b1\<lparr>writeIndex := int (w + k)\<rparr>"
    have full: "w + k = length (buf_data b)" using len by (simp add: k_def)
    have inv2: "buf_inv ?b2"
      using full hk rw len by (intro buf_invI [of _ r "w + k"]) simp_all
    have c2: "content ?b2 = content b @ ?head"
      using full hk rw
      by (simp add: content_nat [of _ r w] content_nat [of _ r "w + k"]
          segment_overwrite_extend [of r "w - r"])
    have "buf_room ?b2 (length (drop k bs))"
      using room False rw by (simp add: buf_room_def)
    with inv2 obtain b' where b': "append_bytes ?b2 (drop k bs) = Inr b'" "buf_inv b'"
        "content b' = content ?b2 @ drop k bs"
      by (rule append_bytes_ok)
    have "to_int32 (buf_size ?b1) = int (w + k)"
      using full hk len by (simp add: cint)
    with b' c2 False call show ?thesis by (intro that [of b']) simp_all
  qed
qed

subsection \<open>Steps of a sequence of appends and reads\<close>

lemma append_step:
  assumes "buf_inv b" and "buf_room b (length xs + m)" and "n = length xs"
  obtains b' where "append_bytes b xs = Inr b'" and "buf_inv b'"
    and "content b' = content b @ xs" and "buf_room b' m"
proof -
  have "buf_room b (length xs)" using assms(2) by (simp add: buf_room_def)
  with assms(1) obtain b' where "append_bytes b xs = Inr b'" "buf_inv b'"
      "content b' = content b @ xs" "writeIndex b' \<le> writeIndex b + int (length xs)"
    by (rule append_bytes_ok)
  with assms(2) show ?thesis by (intro that [of b']) (simp_all add: buf_room_def)
qed

lemma retrieve_until_ok:
  assumes "buf_inv b" and "i \<le> length (content b)"
  shows "retrieveAsString_until b (peek b + int i) = Inr (take i (content b), retrieve b (int i))"
proof -
  have "int i \<le> readableBytes b" using assms length_content [of b] by simp
  then show ?thesis
    using assms(1) read_mem_prefix [of b "int i"] buf_invD [OF assms(1)]
    by (simp add: retrieveAsString_until_def readableBytes_eq cint)
qed

section \<open>The buffer provides the byte stream contract\<close>

interpretation buf: byte_stream buf_inv content buf_room append_bytes retrieve readableBytes
proof unfold_locales
  fix b :: buffer and xs :: "byte list"
  assume "buf_inv b" and "buf_room b (length xs)"
  then show "\<exists>b'. append_bytes b xs = Inr b' \<and> buf_inv b' \<and> content b' = content b @ xs"
    by (rule append_bytes_ok) blast
qed (simp_all add: retrieve_inv retrieve_content length_content)


section \<open>Properties\<close>

text \<open>
  C14. \<open>append\<close> refines list append: on a well-formed buffer whose write index stays a C
  \<open>int\<close> it returns (no access outside the vector, no overlapping copy), keeps the buffer
  well formed, and the readable bytes are the old ones followed by the appended ones,
  whether the bytes fit, the readable region is moved to the front or the vector grows.
\<close>

theorem append_refines:
  assumes "buf_inv b" and "buf_room b (length xs)"
  shows "\<exists>b'. append_bytes b xs = Inr b' \<and> buf_inv b' \<and> content b' = content b @ xs"
  by (rule buf.put_law [OF assms])

theorem append_refines_witness:
  "\<exists>b'. append_bytes \<lparr>buf_data = replicate 12 0, readIndex = 9, writeIndex = 11\<rparr> [1, 2, 3] = Inr b'
     \<and> buf_inv b' \<and> content b' = [0, 0] @ [1, 2, 3]"
proof -
  let ?b = "\<lparr>buf_data = replicate 12 0, readIndex = 9, writeIndex = 11\<rparr> :: buffer"
  have "buf_inv ?b" and "buf_room ?b (length [1 :: byte, 2, 3])"
    by (simp_all add: buf_inv_def buf_size_def buf_room_def buf_consts)
  moreover have "content ?b = [0, 0]"
    by (simp add: content_def segment_def numeral_eq_Suc)
  ultimately show ?thesis using append_refines [of ?b "[1, 2, 3]"] by simp
qed

text \<open>
  Space: \<open>append\<close> leaves the size of the vector unchanged when the free bytes before
  and after the readable region (keeping the 8 prepend bytes) suffice, and otherwise grows
  it to exactly the new write index, leaving no writable byte.
\<close>

theorem append_capacity:
  assumes "buf_inv b" and "buf_room b (length xs)"
  shows "\<exists>b'. append_bytes b xs = Inr b' \<and>
    (if int (length xs) \<le> writableBytes b
        \<or> int (length xs) + kPrependSize \<le> writableBytes b + prependableBytes b
     then buf_size b' = buf_size b
     else buf_size b' = writeIndex b + int (length xs) \<and> writableBytes b' = 0)"
proof -
  let ?n = "length xs"
  obtain b1 b' where b1: "make_room b (int ?n) = Inr b1" and b': "append_bytes b xs = Inr b'" "buf_inv b'"
      "writeIndex b' = writeIndex b1 + int ?n" "buf_size b' = buf_size b1"
    by (rule append_indices [OF assms])
  note inv = buf_invD [OF assms(1)]
  show ?thesis
  proof (cases "int ?n \<le> writableBytes b")
    case True
    then show ?thesis using make_room_fits [OF assms(1) True] b1 b' by simp
  next
    case no_fit: False
    show ?thesis
    proof (cases "int ?n + kPrependSize \<le> writableBytes b + prependableBytes b")
      case True
      have "8 + length (content b) \<le> length (buf_data b)"
        using True no_fit length_content [OF assms(1)] inv assms(1)
        by (simp add: readableBytes_eq writableBytes_eq prependableBytes_def buf_size_def buf_consts)
      with make_room_moves [OF assms(1) _ True] no_fit b1
      have "buf_size b1 = buf_size b" by (auto simp: buf_size_def)
      with b' True show ?thesis by simp
    next
      case False
      with make_room_grows [OF assms] no_fit b1
      have "b1 = b\<lparr>buf_data := vec_resize (nat (writeIndex b + int ?n)) 0 (buf_data b)\<rparr>"
        by simp
      with b' False no_fit inv show ?thesis by (auto simp: writableBytes_eq buf_size_def)
    qed
  qed
qed

theorem append_capacity_witness:
  "\<exists>b'. append_bytes (new_buffer 5) (replicate 1400 1) = Inr b' \<and> buf_size b' = 1408
     \<and> writableBytes b' = 0"
proof -
  have "buf_inv (new_buffer 5)" and "buf_room (new_buffer 5) (length (replicate 1400 (1 :: byte)))"
    by (rule new_buffer_inv) (simp add: buf_room_def new_buffer_def buf_consts)
  from append_capacity [OF this] show ?thesis
    by (auto simp: new_buffer_def buf_consts writableBytes_def prependableBytes_def buf_size_def cint)
qed

text \<open>
  \<open>prepend\<close> puts the bytes in front of the readable ones when the space before them
  suffices, and writes outside the vector as soon as it does not: the code has no check.
\<close>

theorem prepend_spec:
  assumes "buf_inv b"
  shows "if int (length xs) \<le> prependableBytes b
    then \<exists>b'. prepend b xs = Inr b' \<and> buf_inv b' \<and> content b' = xs @ content b
    else prepend b xs = Inl Out_Of_Bounds"
proof (cases "int (length xs) \<le> prependableBytes b")
  case True
  with assms obtain b' where "prepend b xs = Inr b'" "buf_inv b'" "content b' = xs @ content b"
    by (rule prepend_ok)
  with True show ?thesis by simp
next
  case False
  with prepend_fault [OF assms, of xs] show ?thesis by simp
qed

theorem prepend_spec_witness:
  "(\<exists>b'. prepend (new_buffer 0) [1, 2] = Inr b' \<and> content b' = [1, 2])
    \<and> prepend (new_buffer 0) (replicate 9 7) = Inl Out_Of_Bounds"
proof -
  have "prependableBytes (new_buffer 0) = 8"
    by (simp add: new_buffer_def prependableBytes_def buf_consts)
  with prepend_spec [OF new_buffer_inv, of "[1, 2]" 0]
    prepend_spec [OF new_buffer_inv, of "replicate 9 7" 0]
  show ?thesis by auto
qed


text \<open>
  C16. Round trip over the wire: integers of all four widths appended on a host of byte order
  \<open>e\<close> are laid out big-endian, and read back in order on a host of byte order \<open>e'\<close> they
  give the same values and leave the buffer empty.
\<close>

theorem int_roundtrip:
  assumes "buf_inv b" and "content b = []" and "buf_room b 15"
  shows "\<exists>b4 b5 b6 b7 b8.
      bind_ok (appendInt8 e b v8) (\<lambda>b1. bind_ok (appendInt16 e b1 v16) (\<lambda>b2.
        bind_ok (appendInt32 e b2 v32) (\<lambda>b3. appendInt64 e b3 v64))) = Inr b4
    \<and> content b4 = [v8] @ bytes_be v16 @ bytes_be v32 @ bytes_be v64
    \<and> readInt8 e' b4 = Inr (v8, b5) \<and> readInt16 e' b5 = Inr (v16, b6)
    \<and> readInt32 e' b6 = Inr (v32, b7) \<and> readInt64 e' b7 = Inr (v64, b8) \<and> content b8 = []"
proof -
  obtain b1 where b1: "append_bytes b (bytes_be v8) = Inr b1" "buf_inv b1"
      "content b1 = bytes_be v8" "buf_room b1 14"
    using assms by (auto elim!: append_step [of b "bytes_be v8" 14])
  obtain b2 where b2: "append_bytes b1 (bytes_be v16) = Inr b2" "buf_inv b2"
      "content b2 = content b1 @ bytes_be v16" "buf_room b2 12"
    using b1 by (auto elim!: append_step [of b1 "bytes_be v16" 12])
  obtain b3 where b3: "append_bytes b2 (bytes_be v32) = Inr b3" "buf_inv b3"
      "content b3 = content b2 @ bytes_be v32" "buf_room b3 8"
    using b2 by (auto elim!: append_step [of b2 "bytes_be v32" 8])
  obtain b4 where b4: "append_bytes b3 (bytes_be v64) = Inr b4" "buf_inv b4"
      "content b4 = content b3 @ bytes_be v64"
    using b3 by (auto elim!: append_step [of b3 "bytes_be v64" 0])
  have c4: "content b4 = bytes_be v8 @ bytes_be v16 @ bytes_be v32 @ bytes_be v64"
    using b1 b2 b3 b4 by simp
  obtain b5 where b5: "readInt8 e' b4 = Inr (v8, b5)" "buf_inv b5"
      "content b5 = bytes_be v16 @ bytes_be v32 @ bytes_be v64"
    using readInt_ok(1) [OF b4(2) c4] by blast
  obtain b6 where b6: "readInt16 e' b5 = Inr (v16, b6)" "buf_inv b6"
      "content b6 = bytes_be v32 @ bytes_be v64"
    using readInt_ok(2) [OF b5(2,3)] by blast
  obtain b7 where b7: "readInt32 e' b6 = Inr (v32, b7)" "buf_inv b7" "content b7 = bytes_be v64"
    using readInt_ok(3) [OF b6(2,3)] by blast
  obtain b8 where b8: "readInt64 e' b7 = Inr (v64, b8)" "content b8 = []"
    using readInt_ok(4) [OF b7(2), of v64 "[]"] b7(3) by auto
  show ?thesis
    using b1 b2 b3 b4 c4 b5 b6 b7 b8 by (simp add: appendInt_eq)
qed

theorem int_roundtrip_witness:
  "\<exists>b4 b5 b6 b7 b8.
      bind_ok (appendInt8 Little (new_buffer 0) 7) (\<lambda>b1. bind_ok (appendInt16 Little b1 258) (\<lambda>b2.
        bind_ok (appendInt32 Little b2 (- 4000)) (\<lambda>b3. appendInt64 Little b3 1))) = Inr b4
    \<and> content b4 = [7] @ bytes_be (258 :: 16 word) @ bytes_be (- 4000 :: 32 word) @ bytes_be (1 :: 64 word)
    \<and> readInt8 Big b4 = Inr (7, b5) \<and> readInt16 Big b5 = Inr (258, b6)
    \<and> readInt32 Big b6 = Inr (- 4000, b7) \<and> readInt64 Big b7 = Inr (1, b8) \<and> content b8 = []"
  by (rule int_roundtrip [OF new_buffer_inv new_buffer_content])
    (simp add: buf_room_def new_buffer_def buf_consts)

text \<open>
  A length header prepended to a message with \<open>prependInt32\<close> uses the reserved prepend
  bytes: reading it back gives the header and leaves exactly the message.
\<close>

theorem header_roundtrip:
  assumes "buf_inv b" and "4 \<le> prependableBytes b"
  shows "\<exists>b1 b2. prependInt32 e b v = Inr b1 \<and> content b1 = bytes_be v @ content b
    \<and> readInt32 e' b1 = Inr (v, b2) \<and> buf_inv b2 \<and> content b2 = content b"
proof -
  have "int (length (bytes_be v)) \<le> prependableBytes b" using assms(2) by simp
  with assms(1) obtain b1 where b1: "prepend b (bytes_be v) = Inr b1" "buf_inv b1"
      "content b1 = bytes_be v @ content b"
    by (rule prepend_ok)
  with readInt_ok(3) [OF b1(2,3)] show ?thesis by (auto simp: prependInt_eq)
qed

theorem header_roundtrip_witness:
  "\<exists>b1 b2. prependInt32 Little (new_buffer 0) 5 = Inr b1
     \<and> readInt32 Big b1 = Inr (5, b2) \<and> content b2 = []"
  using header_roundtrip [OF new_buffer_inv, of 0 Little 5 Big]
  by (auto simp: prependableBytes_def new_buffer_def buf_consts content_def)

text \<open>
  C17. Line framing: when the readable bytes are a line without CRLF, CRLF and a rest,
  \<open>findCRLF\<close> points at the first CRLF, \<open>retrieveAsString\<close> up to it returns the line, and
  after retrieving two more bytes the rest is left.
\<close>

theorem crlf_framing:
  assumes "buf_inv b" and "content b = line @ kCRLF @ rest"
    and "search kCRLF (line @ [13]) = None"
  shows "\<exists>p b1. findCRLF b = Inr (Some p) \<and> retrieveAsString_until b p = Inr (line, b1)
    \<and> buf_inv b1 \<and> content (retrieve b1 2) = rest"
proof (intro exI conjI)
  let ?i = "length line"
  let ?b1 = "retrieve b (int ?i)"
  show "findCRLF b = Inr (Some (peek b + int ?i))"
    using assms search_CRLF_first [of line rest] by (simp add: findCRLF_eq)
  show "retrieveAsString_until b (peek b + int ?i) = Inr (line, ?b1)"
    using retrieve_until_ok [OF assms(1), of ?i] assms(2) by simp
  show "buf_inv ?b1" using assms(1) by (simp add: retrieve_inv)
  then show "content (retrieve ?b1 2) = rest"
    using assms(1,2) by (simp add: retrieve_content kCRLF_def)
qed

theorem crlf_framing_witness:
  "\<exists>p b1. findCRLF \<lparr>buf_data = [9, 9, 9, 9, 65, 13, 66, 13, 10, 67], readIndex = 4, writeIndex = 10\<rparr>
       = Inr (Some p)
    \<and> retrieveAsString_until
        \<lparr>buf_data = [9, 9, 9, 9, 65, 13, 66, 13, 10, 67], readIndex = 4, writeIndex = 10\<rparr> p
        = Inr ([65, 13, 66], b1)
    \<and> content (retrieve b1 2) = [67]"
proof -
  let ?b = "\<lparr>buf_data = [9, 9, 9, 9, 65, 13, 66, 13, 10, 67], readIndex = 4, writeIndex = 10\<rparr> :: buffer"
  have "buf_inv ?b" by (simp add: buf_inv_def buf_size_def buf_consts)
  moreover have "content ?b = [65, 13, 66] @ kCRLF @ [67]"
    by (simp add: content_def segment_def kCRLF_def)
  moreover have "search kCRLF ([65, 13, 66] @ [13]) = None"
    by (simp add: kCRLF_def)
  ultimately show ?thesis
    using crlf_framing [of ?b "[65, 13, 66]" "[67]"] by blast
qed

lemma readFromFd_fail:
  assumes "buf_inv b" and "kernel_readv (iov_capacity b) = Read_Fail err"
  shows "readFromFd kernel_readv b = Inr (- 1, Some err, b)"
proof -
  have "to_size_t (writableBytes b) = writableBytes b"
    using buf_invD [OF assms(1)] assms(1) by (simp add: writableBytes_eq cint)
  with assms(2) show ?thesis
    by (simp add: readFromFd_def iov_capacity_def Let_def split: if_splits)
qed

text \<open>
  C15. \<open>readFromFd\<close> under the contract of \<open>readv\<close>: on success it returns the number of bytes
  the kernel delivered and the readable bytes are extended by exactly these, also when they
  overflow the free space into the stack area; on failure it returns -1, reports \<open>errno\<close>
  and leaves the buffer as it was.
\<close>

theorem readFromFd_refines:
  assumes "buf_inv b" and "readv_within kernel_readv"
    and "\<And>bs. kernel_readv (iov_capacity b) = Read_Bytes bs \<Longrightarrow> buf_room b (length bs)"
  shows "case kernel_readv (iov_capacity b) of
      Read_Fail err \<Rightarrow> readFromFd kernel_readv b = Inr (- 1, Some err, b)
    | Read_Bytes bs \<Rightarrow> \<exists>b'. readFromFd kernel_readv b = Inr (int (length bs), None, b')
        \<and> buf_inv b' \<and> content b' = content b @ bs"
proof (cases "kernel_readv (iov_capacity b)")
  case (Read_Fail err)
  with readFromFd_fail [OF assms(1)] show ?thesis by simp
next
  case (Read_Bytes bs)
  obtain b' where "readFromFd kernel_readv b = Inr (int (length bs), None, b')" "buf_inv b'"
      "content b' = content b @ bs"
    by (rule readFromFd_ok [OF assms(1) assms(3) [OF Read_Bytes] Read_Bytes assms(2)])
  with Read_Bytes show ?thesis by simp
qed

definition sample_readv :: "int \<Rightarrow> read_result" where
  "sample_readv cap = Read_Bytes (replicate (min 20 (nat cap)) 3)"

theorem readFromFd_refines_witness:
  "\<exists>b'. readFromFd sample_readv \<lparr>buf_data = replicate 12 0, readIndex = 9, writeIndex = 11\<rparr>
      = Inr (20, None, b') \<and> content b' = [0, 0] @ replicate 20 3"
proof -
  let ?b = "\<lparr>buf_data = replicate 12 0, readIndex = 9, writeIndex = 11\<rparr> :: buffer"
  have inv: "buf_inv ?b" by (simp add: buf_inv_def buf_size_def buf_consts)
  have within: "readv_within sample_readv"
    by (auto simp: readv_within_def sample_readv_def)
  have "iov_capacity ?b = 65537"
    by (simp add: iov_capacity_def writableBytes_def buf_size_def sizeof_extrabuf_def cint)
  then have k: "sample_readv (iov_capacity ?b) = Read_Bytes (replicate 20 3)"
    by (simp add: sample_readv_def)
  have "content ?b = [0, 0]"
    by (simp add: content_def segment_def numeral_eq_Suc)
  then show ?thesis
    using readFromFd_refines [OF inv within] k by (auto simp: buf_room_def)
qed

end
