(* ===== verification/Channel.thy ===== *)
theory Channel
  imports Cpp_Prelude
begin

text \<open>
  \<open>net/Channel.h\<close> and \<open>net/Channel.cpp\<close>: the events of interest of one descriptor, its
  callbacks, and the dispatch of the events that \<open>poll\<close> reported. Events are the bits of an
  \<open>int\<close>; the type of the callbacks is a parameter, an empty \<open>std::function\<close> is \<open>None\<close>.
\<close>

unbundle bit_operations_syntax

section \<open>Definitions\<close>

subsection \<open>Events\<close>

type_synonym events = "32 word"

definition POLLIN :: events where "POLLIN = 0x001"
definition POLLPRI :: events where "POLLPRI = 0x002"
definition POLLOUT :: events where "POLLOUT = 0x004"
definition POLLERR :: events where "POLLERR = 0x008"
definition POLLHUP :: events where "POLLHUP = 0x010"
definition POLLNVAL :: events where "POLLNVAL = 0x020"
definition POLLRDHUP :: events where "POLLRDHUP = 0x2000"

definition NONE :: events where
  "NONE = 0"

definition READ :: events where
  "READ = POLLIN OR POLLPRI"

definition WRITE :: events where
  "WRITE = POLLOUT"

definition has_event :: "events \<Rightarrow> events \<Rightarrow> bool" where
  "has_event e m \<longleftrightarrow> e AND m \<noteq> 0"

subsection \<open>The object\<close>

datatype channel_state = NEW | ADDED | DELETED

record 'c channel =
  ch_fd :: int
  ch_readCallback :: "'c option"
  ch_writeCallback :: "'c option"
  ch_closeCallback :: "'c option"
  ch_errorCallback :: "'c option"
  ch_events :: events
  ch_revents :: events
  ch_state :: channel_state

definition new_channel :: "int \<Rightarrow> 'c channel" where
  "new_channel fd = \<lparr>ch_fd = fd, ch_readCallback = None, ch_writeCallback = None,
     ch_closeCallback = None, ch_errorCallback = None, ch_events = NONE, ch_revents = 0,
     ch_state = NEW\<rparr>"

text \<open>The setters, given the function to call.\<close>

definition channel_setReadCallback :: "'c \<Rightarrow> 'c channel \<Rightarrow> 'c channel" where
  [simp]: "channel_setReadCallback cb ch = ch\<lparr>ch_readCallback := Some cb\<rparr>"

definition channel_setWriteCallback :: "'c \<Rightarrow> 'c channel \<Rightarrow> 'c channel" where
  [simp]: "channel_setWriteCallback cb ch = ch\<lparr>ch_writeCallback := Some cb\<rparr>"

definition channel_setCloseCallback :: "'c \<Rightarrow> 'c channel \<Rightarrow> 'c channel" where
  [simp]: "channel_setCloseCallback cb ch = ch\<lparr>ch_closeCallback := Some cb\<rparr>"

definition channel_setErrorCallback :: "'c \<Rightarrow> 'c channel \<Rightarrow> 'c channel" where
  [simp]: "channel_setErrorCallback cb ch = ch\<lparr>ch_errorCallback := Some cb\<rparr>"

definition setState :: "channel_state \<Rightarrow> 'c channel \<Rightarrow> 'c channel" where
  [simp]: "setState st ch = ch\<lparr>ch_state := st\<rparr>"

definition setREvents :: "events \<Rightarrow> 'c channel \<Rightarrow> 'c channel" where
  "setREvents e ch = ch\<lparr>ch_revents := e\<rparr>"

text \<open>The assignments of the four switches; the \<open>update()\<close> that follows is in the poller.\<close>

definition set_reading :: "'c channel \<Rightarrow> 'c channel" where
  "set_reading ch = ch\<lparr>ch_events := ch_events ch OR READ\<rparr>"

definition clear_reading :: "'c channel \<Rightarrow> 'c channel" where
  "clear_reading ch = ch\<lparr>ch_events := ch_events ch AND NOT READ\<rparr>"

definition set_writing :: "'c channel \<Rightarrow> 'c channel" where
  "set_writing ch = ch\<lparr>ch_events := ch_events ch OR WRITE\<rparr>"

definition clear_writing :: "'c channel \<Rightarrow> 'c channel" where
  "clear_writing ch = ch\<lparr>ch_events := ch_events ch AND NOT WRITE\<rparr>"

definition disableAll :: "'c channel \<Rightarrow> 'c channel" where
  "disableAll ch = ch\<lparr>ch_events := NONE\<rparr>"

definition isNoneEvent :: "'c channel \<Rightarrow> bool" where
  "isNoneEvent ch \<longleftrightarrow> ch_events ch = NONE"

definition hasWrite :: "'c channel \<Rightarrow> bool" where
  "hasWrite ch \<longleftrightarrow> has_event (ch_events ch) WRITE"

definition hasRead :: "'c channel \<Rightarrow> bool" where
  "hasRead ch \<longleftrightarrow> has_event (ch_events ch) READ"

subsection \<open>Dispatch\<close>

text \<open>
  \<open>handleEvent\<close> runs on an object that lives in a state of type \<open>'s\<close>: \<open>obj\<close> finds it
  there, \<open>call\<close> runs a callback on the state. Each test reads members of the object, which
  a callback may have freed.
\<close>

definition deref :: "('s \<Rightarrow> 'c channel option) \<Rightarrow> 's \<Rightarrow> 'c channel outcome" where
  "deref obj s = (case obj s of None \<Rightarrow> Inl Use_After_Free | Some ch \<Rightarrow> Inr ch)"

definition run_callback :: "('c \<Rightarrow> 's \<Rightarrow> 's outcome) \<Rightarrow> 'c option \<Rightarrow> 's \<Rightarrow> 's outcome" where
  "run_callback call cb s = (case cb of None \<Rightarrow> Inr s | Some c \<Rightarrow> call c s)"

definition handle_if ::
  "('s \<Rightarrow> 'c channel option) \<Rightarrow> ('c \<Rightarrow> 's \<Rightarrow> 's outcome) \<Rightarrow> (events \<Rightarrow> bool)
    \<Rightarrow> ('c channel \<Rightarrow> 'c option) \<Rightarrow> 's \<Rightarrow> 's outcome" where
  "handle_if obj call test cb s =
     bind_ok (deref obj s) (\<lambda>ch.
       if test (ch_revents ch) then run_callback call (cb ch) s else Inr s)"

definition close_test :: "events \<Rightarrow> bool" where
  "close_test r \<longleftrightarrow> has_event r POLLHUP \<and> \<not> has_event r POLLIN"

definition error_test :: "events \<Rightarrow> bool" where
  "error_test r \<longleftrightarrow> has_event r (POLLERR OR POLLNVAL)"

definition read_test :: "events \<Rightarrow> bool" where
  "read_test r \<longleftrightarrow> has_event r (POLLIN OR POLLPRI OR POLLRDHUP)"

definition write_test :: "events \<Rightarrow> bool" where
  "write_test r \<longleftrightarrow> has_event r POLLOUT"

definition handleEvent ::
  "('s \<Rightarrow> 'c channel option) \<Rightarrow> ('c \<Rightarrow> 's \<Rightarrow> 's outcome) \<Rightarrow> 's \<Rightarrow> 's outcome" where
  "handleEvent obj call s =
     bind_ok (handle_if obj call close_test ch_closeCallback s) (\<lambda>s1.
     bind_ok (handle_if obj call error_test ch_errorCallback s1) (\<lambda>s2.
     bind_ok (handle_if obj call read_test ch_readCallback s2) (\<lambda>s3.
       handle_if obj call write_test ch_writeCallback s3)))"

subsection \<open>Reference\<close>

text \<open>The callbacks due for what was reported, in order.\<close>

definition due_if :: "bool \<Rightarrow> 'c option \<Rightarrow> 'c list" where
  "due_if b cb = (if b then (case cb of None \<Rightarrow> [] | Some c \<Rightarrow> [c]) else [])"

definition due :: "'c channel \<Rightarrow> 'c list" where
  "due ch =
     (let seen = has_event (ch_revents ch) in
        due_if (seen POLLHUP \<and> \<not> seen POLLIN) (ch_closeCallback ch)
      @ due_if (seen POLLERR \<or> seen POLLNVAL) (ch_errorCallback ch)
      @ due_if (seen POLLIN \<or> seen POLLPRI \<or> seen POLLRDHUP) (ch_readCallback ch)
      @ due_if (seen POLLOUT) (ch_writeCallback ch))"

fun call_all :: "('c \<Rightarrow> 's \<Rightarrow> 's outcome) \<Rightarrow> 'c list \<Rightarrow> 's \<Rightarrow> 's outcome" where
  "call_all call [] s = Inr s"
| "call_all call (c # cs) s = bind_ok (call c s) (call_all call cs)"

section \<open>Lemmas\<close>

lemmas poll_bits = POLLIN_def POLLPRI_def POLLOUT_def POLLERR_def POLLHUP_def POLLNVAL_def
  POLLRDHUP_def NONE_def READ_def WRITE_def

lemma has_event_zero [simp]: "\<not> has_event 0 m"
  by (simp add: has_event_def)

lemma and_zero_iff: "(e :: events) AND m = 0 \<longleftrightarrow> (\<forall>n. \<not> (bit e n \<and> bit m n))"
  using bit_imp_le_length [of e] by (auto simp: bit_eq_iff bit_and_iff)

lemma has_event_iff: "has_event e m \<longleftrightarrow> (\<exists>n. bit e n \<and> bit m n)"
  by (auto simp: has_event_def and_zero_iff)

lemma has_event_or: "has_event (e OR f) m \<longleftrightarrow> has_event e m \<or> has_event f m"
  by (auto simp: has_event_iff bit_or_iff)

lemma has_event_or_mask: "has_event e (m OR n) \<longleftrightarrow> has_event e m \<or> has_event e n"
  by (auto simp: has_event_iff bit_or_iff)

lemma has_event_clear: "\<not> has_event (e AND NOT m) m"
  by (auto simp: has_event_iff bit_and_iff bit_not_iff)

lemma has_event_clear_other: "m AND n = 0 \<Longrightarrow> has_event (e AND NOT m) n \<longleftrightarrow> has_event e n"
  by (fastforce simp: has_event_iff and_zero_iff bit_and_iff bit_not_iff impossible_bit
      dest: bit_imp_le_length)

lemma READ_WRITE [simp]: "READ AND WRITE = 0" "WRITE AND READ = 0" "WRITE \<noteq> 0" "READ \<noteq> 0"
  by (simp_all add: poll_bits)

lemma has_event_self [simp]: "has_event m m \<longleftrightarrow> m \<noteq> 0"
  by (simp add: has_event_def)

lemma not_READ_WRITE [simp]: "\<not> has_event READ WRITE" "\<not> has_event WRITE READ"
  by (simp_all add: has_event_def)

lemmas channel_switch_defs =
  hasWrite_def hasRead_def isNoneEvent_def set_writing_def clear_writing_def set_reading_def
  clear_reading_def disableAll_def

lemma switch_bits [simp]:
  "hasWrite (set_writing ch)" "\<not> hasWrite (clear_writing ch)"
  "hasRead (set_reading ch)" "\<not> hasRead (clear_reading ch)"
  "hasRead (set_writing ch) = hasRead ch" "hasRead (clear_writing ch) = hasRead ch"
  "hasWrite (set_reading ch) = hasWrite ch" "hasWrite (clear_reading ch) = hasWrite ch"
  "\<not> hasWrite (disableAll ch)" "\<not> hasRead (disableAll ch)" "isNoneEvent (disableAll ch)"
  by (simp_all add: channel_switch_defs has_event_or has_event_clear has_event_clear_other
      NONE_def)

lemma hasWrite_not_none: "hasWrite ch \<Longrightarrow> \<not> isNoneEvent ch"
  by (auto simp: hasWrite_def isNoneEvent_def NONE_def)

lemma hasRead_not_none: "hasRead ch \<Longrightarrow> \<not> isNoneEvent ch"
  by (auto simp: hasRead_def isNoneEvent_def NONE_def)

lemma new_channel_off [simp]: "\<not> hasRead (new_channel fd)" "\<not> hasWrite (new_channel fd)"
  by (simp_all add: hasRead_def hasWrite_def new_channel_def NONE_def)

lemma new_channel_simps [simp]:
  "ch_fd (new_channel fd) = fd" "ch_state (new_channel fd) = NEW" "ch_events (new_channel fd) = NONE"
  by (simp_all add: new_channel_def)

lemma call_all_Nil [simp]: "call_all call [] = Inr"
  by (rule ext) simp

lemma call_all_append: "call_all call (xs @ ys) s = bind_ok (call_all call xs s) (call_all call ys)"
  by (induction xs arbitrary: s) (auto simp: bind_ok_assoc intro: bind_ok_cong)

text \<open>
  Callbacks that leave the object alive, with the events it was told of and its callbacks;
  they may switch the events it asks for.
\<close>

definition same_dispatch :: "'c channel \<Rightarrow> 'c channel \<Rightarrow> bool" where
  "same_dispatch ch' ch \<longleftrightarrow> ch_revents ch' = ch_revents ch
     \<and> ch_closeCallback ch' = ch_closeCallback ch \<and> ch_errorCallback ch' = ch_errorCallback ch
     \<and> ch_readCallback ch' = ch_readCallback ch \<and> ch_writeCallback ch' = ch_writeCallback ch"

lemma same_dispatch_refl [simp]: "same_dispatch ch ch"
  by (simp add: same_dispatch_def)

lemma same_dispatch_trans: "same_dispatch x y \<Longrightarrow> same_dispatch y z \<Longrightarrow> same_dispatch x z"
  by (simp add: same_dispatch_def)

definition keeps :: "('s \<Rightarrow> 'c channel option) \<Rightarrow> ('c \<Rightarrow> 's \<Rightarrow> 's outcome) \<Rightarrow> bool" where
  "keeps obj call \<longleftrightarrow> (\<forall>c s s' ch. call c s = Inr s' \<longrightarrow> obj s = Some ch \<longrightarrow>
     (\<exists>ch'. obj s' = Some ch' \<and> same_dispatch ch' ch))"

lemma keepsD: "keeps obj call \<Longrightarrow> call c s = Inr s' \<Longrightarrow> obj s = Some ch \<Longrightarrow>
    \<exists>ch'. obj s' = Some ch' \<and> same_dispatch ch' ch"
  unfolding keeps_def by blast

lemma call_all_keeps:
  "keeps obj call \<Longrightarrow> call_all call cs s = Inr s' \<Longrightarrow> obj s = Some ch \<Longrightarrow>
    \<exists>ch'. obj s' = Some ch' \<and> same_dispatch ch' ch"
proof (induction cs arbitrary: s ch)
  case (Cons c cs)
  from Cons.prems(2) obtain s1 where s1: "call c s = Inr s1" "call_all call cs s1 = Inr s'"
    by (auto simp: bind_ok_Inr_iff)
  from keepsD [OF Cons.prems(1) s1(1) Cons.prems(3)] obtain ch1 where
      "obj s1 = Some ch1" "same_dispatch ch1 ch" by blast
  with Cons.IH [OF Cons.prems(1) s1(2)] show ?case using same_dispatch_trans by blast
qed simp

lemma handle_if_alive:
  "obj s = Some ch \<Longrightarrow>
    handle_if obj call test cb s = call_all call (due_if (test (ch_revents ch)) (cb ch)) s"
  by (simp add: handle_if_def deref_def run_callback_def due_if_def split: option.split)

lemma handle_ifE:
  assumes "handle_if obj call test cb s = Inr s'"
  obtains (nothing) ch where "obj s = Some ch" and "s' = s"
  | (callback) ch c where "obj s = Some ch" and "cb ch = Some c" and "call c s = Inr s'"
proof -
  from assms obtain ch where ch: "obj s = Some ch"
    and e: "(if test (ch_revents ch) then run_callback call (cb ch) s else Inr s) = Inr s'"
    by (cases "obj s") (simp_all add: handle_if_def deref_def)
  show thesis
  proof (cases "test (ch_revents ch) \<and> cb ch \<noteq> None")
    case True
    then obtain c where "cb ch = Some c" by blast
    with e True have "call c s = Inr s'" by (simp add: run_callback_def)
    with ch \<open>cb ch = Some c\<close> show thesis by (rule callback)
  next
    case False
    with e have "s' = s" by (auto simp: run_callback_def split: if_splits)
    with ch show thesis by (rule nothing)
  qed
qed

lemma handle_if_then:
  assumes "keeps obj call" and "obj s = Some ch'" and "same_dispatch ch' ch" and "cb ch' = cb ch"
    and "\<And>s' x. obj s' = Some x \<Longrightarrow> same_dispatch x ch \<Longrightarrow> f s' = call_all call cs s'"
  shows "bind_ok (handle_if obj call test cb s) f =
    call_all call (due_if (test (ch_revents ch)) (cb ch) @ cs) s"
proof -
  have "handle_if obj call test cb s = call_all call (due_if (test (ch_revents ch)) (cb ch)) s"
    using assms(2-4) by (simp add: handle_if_alive same_dispatch_def)
  moreover have "f s' = call_all call cs s'"
    if "call_all call (due_if (test (ch_revents ch)) (cb ch)) s = Inr s'" for s'
    using call_all_keeps [OF assms(1) that assms(2)] assms(3,5) same_dispatch_trans by blast
  ultimately show ?thesis by (auto simp: call_all_append intro: bind_ok_cong)
qed

lemma tests_due:
  "close_test r \<longleftrightarrow> has_event r POLLHUP \<and> \<not> has_event r POLLIN"
  "error_test r \<longleftrightarrow> has_event r POLLERR \<or> has_event r POLLNVAL"
  "read_test r \<longleftrightarrow> has_event r POLLIN \<or> has_event r POLLPRI \<or> has_event r POLLRDHUP"
  "write_test r \<longleftrightarrow> has_event r POLLOUT"
  by (auto simp: close_test_def error_test_def read_test_def write_test_def has_event_or_mask)

lemma handleEvent_due:
  assumes "keeps obj call" and "obj s = Some ch"
  shows "handleEvent obj call s = call_all call (due ch) s"
  unfolding handleEvent_def due_def Let_def tests_due [symmetric]
  by (rule handle_if_then [OF assms same_dispatch_refl refl],
      rule handle_if_then [OF assms(1)], assumption, assumption, simp add: same_dispatch_def,
      rule handle_if_then [OF assms(1)], assumption, assumption, simp add: same_dispatch_def,
      simp add: same_dispatch_def handle_if_alive)

text \<open>A channel with a read callback only.\<close>

lemma due_reader:
  assumes "ch_closeCallback ch = None" and "ch_errorCallback ch = None" and "ch_writeCallback ch = None"
    and "ch_readCallback ch = Some c"
  shows "due ch = (if read_test (ch_revents ch) then [c] else [])"
  using assms by (simp add: due_def due_if_def tests_due Let_def)

lemma handle_if_freed: "obj s = None \<Longrightarrow> handle_if obj call test cb s = Inl Use_After_Free"
  by (simp add: handle_if_def deref_def)

section \<open>Properties\<close>

text \<open>
  C22. Dispatch: as long as the callbacks leave the channel alive, with its callbacks and the
  events it was told of (they may switch what it asks for), \<open>handleEvent\<close> runs exactly the
  callbacks due for the reported flags, close before error before read before write, each
  at most once, and stops at the first that fails.
\<close>

theorem handleEvent_dispatch:
  assumes "keeps obj call" and "obj s = Some ch"
  shows "handleEvent obj call s = call_all call (due ch) s"
  using assms by (rule handleEvent_due)

text \<open>A peer that closed with data still to read gets its data read and no close callback.\<close>

definition example_channel :: "string channel" where
  "example_channel = (new_channel 7)\<lparr>ch_readCallback := Some ''read'', ch_closeCallback := Some ''close'',
     ch_writeCallback := Some ''write'', ch_revents := POLLIN OR POLLHUP OR POLLOUT\<rparr>"

theorem handleEvent_dispatch_witness:
  "handleEvent (\<lambda>s. Some example_channel) (\<lambda>c log. Inr (log @ [c])) [] = Inr [''read'', ''write'']"
  using handleEvent_dispatch [of "\<lambda>s. Some example_channel" "\<lambda>c log. Inr (log @ [c])" "[]"]
  by (simp add: keeps_def due_def due_if_def example_channel_def new_channel_def has_event_def poll_bits)

end
