(* ===== verification/Epoller.thy ===== *)
theory Epoller
  imports Channel
begin

text \<open>
  \<open>net/Epoller.h\<close> and \<open>net/Epoller.cpp\<close>, with the switches of \<open>net/Channel.h\<close> that update
  the poller. The kernel's interest list is part of the state: a map from descriptors to
  the events asked for and the pointer stored with them. \<open>epoll_ctl\<close> fails as documented for
  a descriptor that is already there (\<open>EPOLL_CTL_ADD\<close>) or is not (\<open>MOD\<close>, \<open>DEL\<close>), and
  always when the kernel denies it (\<open>ep_deny\<close>, say for want of memory). Channels are known
  by their addresses, numbers here.
\<close>

unbundle bit_operations_syntax

section \<open>Definitions\<close>

record epoller =
  ep_channels :: "int \<Rightarrow> nat option"
  ep_capacity :: nat
  ep_interest :: "int \<Rightarrow> (events \<times> nat) option"
  ep_deny :: bool

text \<open>The constructor aborts when \<open>epoll_create1\<close> fails.\<close>

definition new_epoller :: "int \<Rightarrow> epoller outcome" where
  "new_epoller epollfd =
     (if epollfd < 0 then Inl Aborted
      else Inr \<lparr>ep_channels = \<lambda>_. None, ep_capacity = 16, ep_interest = \<lambda>_. None, ep_deny = False\<rparr>)"

text \<open>
  The destructor closes the descriptor and looks at no result; \<open>fds\<close> are the open descriptors
  of the process. The kernel drops the interest list with the descriptor.
\<close>

definition epoller_dtor :: "int \<Rightarrow> epoller \<Rightarrow> int set \<Rightarrow> epoller \<times> int set" where
  "epoller_dtor epollfd ep fds = (ep\<lparr>ep_interest := \<lambda>_. None\<rparr>, fds - {epollfd})"

datatype ctl_op = EPOLL_CTL_ADD | EPOLL_CTL_DEL | EPOLL_CTL_MOD

text \<open>The system call: the flag is false when it returns -1.\<close>

definition epoll_ctl :: "ctl_op \<Rightarrow> int \<Rightarrow> events \<times> nat \<Rightarrow> epoller \<Rightarrow> epoller \<times> bool" where
  "epoll_ctl operation fd event ep =
     (if ep_deny ep then (ep, False)
      else case operation of
        EPOLL_CTL_ADD \<Rightarrow>
          if ep_interest ep fd = None
          then (ep\<lparr>ep_interest := (ep_interest ep)(fd := Some event)\<rparr>, True) else (ep, False)
      | EPOLL_CTL_MOD \<Rightarrow>
          if ep_interest ep fd = None then (ep, False)
          else (ep\<lparr>ep_interest := (ep_interest ep)(fd := Some event)\<rparr>, True)
      | EPOLL_CTL_DEL \<Rightarrow>
          if ep_interest ep fd = None then (ep, False)
          else (ep\<lparr>ep_interest := (ep_interest ep)(fd := None)\<rparr>, True))"

text \<open>A failure is only logged. \<open>p\<close> is the address of the channel.\<close>

definition controlEpoll :: "ctl_op \<Rightarrow> nat \<Rightarrow> 'c channel \<Rightarrow> epoller \<Rightarrow> epoller" where
  "controlEpoll operation p ch ep = fst (epoll_ctl operation (ch_fd ch) (ch_events ch, p) ep)"

definition updateChannel :: "nat \<Rightarrow> 'c channel \<Rightarrow> epoller \<Rightarrow> 'c channel \<times> epoller" where
  "updateChannel p ch ep =
     (if ch_state ch = NEW \<or> ch_state ch = DELETED then
        (let ep1 = ep\<lparr>ep_channels := (ep_channels ep)(ch_fd ch := Some p)\<rparr>;
             ch1 = setState ADDED ch
         in (ch1, controlEpoll EPOLL_CTL_ADD p ch1 ep1))
      else if isNoneEvent ch then
        (let ep1 = controlEpoll EPOLL_CTL_DEL p ch ep
         in (setState DELETED ch, ep1))
      else (ch, controlEpoll EPOLL_CTL_MOD p ch ep))"

definition removeChannel :: "nat \<Rightarrow> 'c channel \<Rightarrow> epoller \<Rightarrow> 'c channel \<times> epoller" where
  "removeChannel p ch ep =
     (let ep1 = ep\<lparr>ep_channels := (ep_channels ep)(ch_fd ch := None)\<rparr>;
          ep2 = (if ch_state ch = ADDED then controlEpoll EPOLL_CTL_DEL p ch ep1 else ep1)
      in (setState NEW ch, ep2))"

subsection \<open>The switches of a channel\<close>

definition enableReading :: "nat \<Rightarrow> 'c channel \<Rightarrow> epoller \<Rightarrow> 'c channel \<times> epoller" where
  "enableReading p ch ep = updateChannel p (set_reading ch) ep"

definition disableReading :: "nat \<Rightarrow> 'c channel \<Rightarrow> epoller \<Rightarrow> 'c channel \<times> epoller" where
  "disableReading p ch ep = updateChannel p (clear_reading ch) ep"

definition enableWriting :: "nat \<Rightarrow> 'c channel \<Rightarrow> epoller \<Rightarrow> 'c channel \<times> epoller" where
  "enableWriting p ch ep = updateChannel p (set_writing ch) ep"

definition disableWriting :: "nat \<Rightarrow> 'c channel \<Rightarrow> epoller \<Rightarrow> 'c channel \<times> epoller" where
  "disableWriting p ch ep = updateChannel p (clear_writing ch) ep"

text \<open>The kernel forgets a descriptor when it is closed.\<close>

definition kernel_close :: "int \<Rightarrow> epoller \<Rightarrow> epoller" where
  "kernel_close fd ep = ep\<lparr>ep_interest := (ep_interest ep)(fd := None)\<rparr>"

subsection \<open>Polling\<close>

text \<open>
  What \<open>epoll_wait\<close> returns: an error number, or what is ready, at most \<open>ep_capacity\<close>
  entries. \<open>mark p e\<close> is \<open>setREvents\<close> through the pointer \<open>p\<close>, on whatever state holds the
  channels; it faults for a pointer to a channel that is gone.
\<close>

datatype wait_result = Wait_Error int | Wait_Ready "(nat \<times> events) list"

fun mark_ready ::
  "(nat \<Rightarrow> events \<Rightarrow> 's \<Rightarrow> 's outcome) \<Rightarrow> (nat \<times> events) list \<Rightarrow> 's \<Rightarrow> (nat list \<times> 's) outcome" where
  "mark_ready mark [] s = Inr ([], s)"
| "mark_ready mark ((p, e) # es) s =
     bind_ok (mark p e s) (\<lambda>s1.
     bind_ok (mark_ready mark es s1) (\<lambda>(ps, s2). Inr (p # ps, s2)))"

definition poll ::
  "(nat \<Rightarrow> events \<Rightarrow> 's \<Rightarrow> 's outcome) \<Rightarrow> wait_result \<Rightarrow> 's \<Rightarrow> epoller
    \<Rightarrow> (nat list \<times> 's \<times> epoller) outcome" where
  "poll mark w s ep =
     (case w of
        Wait_Error _ \<Rightarrow> Inr ([], s, ep)
      | Wait_Ready es \<Rightarrow>
          if es = [] then Inr ([], s, ep)
          else bind_ok (mark_ready mark es s) (\<lambda>(ps, s1).
            Inr (ps, s1, if length es = ep_capacity ep
                         then ep\<lparr>ep_capacity := ep_capacity ep * 2\<rparr> else ep)))"

text \<open>The channels of one kind, in a store.\<close>

definition store_mark ::
  "nat \<Rightarrow> events \<Rightarrow> (nat \<Rightarrow> 'c channel option) \<Rightarrow> (nat \<Rightarrow> 'c channel option) outcome" where
  "store_mark p e store =
     (case store p of
        None \<Rightarrow> Inl Use_After_Free
      | Some ch \<Rightarrow> Inr (store(p := Some (setREvents e ch))))"

subsection \<open>Reference\<close>

text \<open>
  What a channel's state says about the kernel, and what the kernel should watch for it:
  nothing for a channel that is not registered, its events otherwise.
\<close>

definition synced :: "nat \<Rightarrow> 'c channel \<Rightarrow> epoller \<Rightarrow> bool" where
  "synced p ch ep \<longleftrightarrow>
     (if ch_state ch = ADDED
      then ep_channels ep (ch_fd ch) = Some p \<and> (\<exists>e. ep_interest ep (ch_fd ch) = Some (e, p))
      else ep_interest ep (ch_fd ch) = None)"

definition exact :: "nat \<Rightarrow> 'c channel \<Rightarrow> epoller \<Rightarrow> bool" where
  "exact p ch ep \<longleftrightarrow> synced p ch ep \<and>
     (ch_state ch = ADDED \<longrightarrow> ep_interest ep (ch_fd ch) = Some (ch_events ch, p))"

datatype switch = Read_On | Read_Off | Write_On | Write_Off | Remove

fun flip :: "nat \<Rightarrow> switch \<Rightarrow> 'c channel \<times> epoller \<Rightarrow> 'c channel \<times> epoller" where
  "flip p Read_On (ch, ep) = enableReading p ch ep"
| "flip p Read_Off (ch, ep) = disableReading p ch ep"
| "flip p Write_On (ch, ep) = enableWriting p ch ep"
| "flip p Write_Off (ch, ep) = disableWriting p ch ep"
| "flip p Remove (ch, ep) = removeChannel p ch ep"

text \<open>What reading and writing should be after a switch, and whether the channel is in.\<close>

fun flip_spec :: "switch \<Rightarrow> bool \<times> bool \<Rightarrow> bool \<times> bool" where
  "flip_spec Read_On (r, w) = (True, w)"
| "flip_spec Read_Off (r, w) = (False, w)"
| "flip_spec Write_On (r, w) = (r, True)"
| "flip_spec Write_Off (r, w) = (r, False)"
| "flip_spec Remove (r, w) = (r, w)"

section \<open>Lemmas\<close>

lemma updateChannel_exact:
  assumes "synced p ch ep" and "\<not> ep_deny ep" and "updateChannel p ch ep = (ch', ep')"
  shows "exact p ch' ep' \<and> ch_events ch' = ch_events ch \<and> ch_fd ch' = ch_fd ch
    \<and> \<not> ep_deny ep' \<and> (\<forall>fd. fd \<noteq> ch_fd ch \<longrightarrow> ep_interest ep' fd = ep_interest ep fd)
    \<and> ep_interest ep' (ch_fd ch) =
        (if ch_state ch = ADDED \<and> isNoneEvent ch then None else Some (ch_events ch, p))"
  using assms
  by (cases "ch_state ch")
    (auto simp: updateChannel_def synced_def exact_def controlEpoll_def epoll_ctl_def Let_def
      split: if_splits)

lemma removeChannel_exact:
  assumes "synced p ch ep" and "\<not> ep_deny ep" and "removeChannel p ch ep = (ch', ep')"
  shows "exact p ch' ep' \<and> ch_events ch' = ch_events ch \<and> ch_fd ch' = ch_fd ch
    \<and> \<not> ep_deny ep' \<and> (\<forall>fd. fd \<noteq> ch_fd ch \<longrightarrow> ep_interest ep' fd = ep_interest ep fd)
    \<and> ep_interest ep' (ch_fd ch) = None \<and> ep_channels ep' (ch_fd ch) = None"
  using assms
  by (cases "ch_state ch")
    (auto simp: removeChannel_def synced_def exact_def controlEpoll_def epoll_ctl_def Let_def
      split: if_splits)

lemma synced_switch [simp]:
  "synced p (set_reading ch) ep = synced p ch ep" "synced p (clear_reading ch) ep = synced p ch ep"
  "synced p (set_writing ch) ep = synced p ch ep" "synced p (clear_writing ch) ep = synced p ch ep"
  "synced p (disableAll ch) ep = synced p ch ep"
  by (simp_all add: synced_def channel_switch_defs)

lemma switch_fd [simp]:
  "ch_fd (set_reading ch) = ch_fd ch" "ch_fd (clear_reading ch) = ch_fd ch"
  "ch_fd (set_writing ch) = ch_fd ch" "ch_fd (clear_writing ch) = ch_fd ch"
  "ch_fd (disableAll ch) = ch_fd ch" "ch_fd (setREvents e ch) = ch_fd ch"
  by (simp_all add: channel_switch_defs setREvents_def)

lemma switch_state [simp]:
  "ch_state (set_reading ch) = ch_state ch" "ch_state (clear_reading ch) = ch_state ch"
  "ch_state (set_writing ch) = ch_state ch" "ch_state (clear_writing ch) = ch_state ch"
  "ch_state (disableAll ch) = ch_state ch"
  by (simp_all add: channel_switch_defs)

lemma exact_synced: "exact p ch ep \<Longrightarrow> synced p ch ep"
  by (simp add: exact_def)

lemma updateChannel_keeps_hd:
  "updateChannel p ch ep = (ch', ep') \<Longrightarrow> hasRead ch' = hasRead ch \<and> hasWrite ch' = hasWrite ch"
  by (auto simp: updateChannel_def hasRead_def hasWrite_def Let_def split: if_splits)

lemma removeChannel_keeps_hd:
  "removeChannel p ch ep = (ch', ep') \<Longrightarrow> hasRead ch' = hasRead ch \<and> hasWrite ch' = hasWrite ch"
  by (auto simp: removeChannel_def hasRead_def hasWrite_def Let_def)

lemma flip_exact:
  assumes "synced p ch ep" and "\<not> ep_deny ep" and "flip p sw (ch, ep) = (ch', ep')"
  shows "exact p ch' ep' \<and> \<not> ep_deny ep' \<and> ch_fd ch' = ch_fd ch
    \<and> (hasRead ch', hasWrite ch') = flip_spec sw (hasRead ch, hasWrite ch)
    \<and> (\<forall>fd. fd \<noteq> ch_fd ch \<longrightarrow> ep_interest ep' fd = ep_interest ep fd)"
proof (cases sw)
  case Read_On
  with assms have u: "updateChannel p (set_reading ch) ep = (ch', ep')" by (simp add: enableReading_def)
  show ?thesis using updateChannel_exact [OF _ assms(2) u] updateChannel_keeps_hd [OF u] assms(1) Read_On
    by simp
next
  case Read_Off
  with assms have u: "updateChannel p (clear_reading ch) ep = (ch', ep')" by (simp add: disableReading_def)
  show ?thesis using updateChannel_exact [OF _ assms(2) u] updateChannel_keeps_hd [OF u] assms(1) Read_Off
    by simp
next
  case Write_On
  with assms have u: "updateChannel p (set_writing ch) ep = (ch', ep')" by (simp add: enableWriting_def)
  show ?thesis using updateChannel_exact [OF _ assms(2) u] updateChannel_keeps_hd [OF u] assms(1) Write_On
    by simp
next
  case Write_Off
  with assms have u: "updateChannel p (clear_writing ch) ep = (ch', ep')" by (simp add: disableWriting_def)
  show ?thesis using updateChannel_exact [OF _ assms(2) u] updateChannel_keeps_hd [OF u] assms(1) Write_Off
    by simp
next
  case Remove
  with assms have u: "removeChannel p ch ep = (ch', ep')" by simp
  show ?thesis using removeChannel_exact [OF assms(1,2) u] removeChannel_keeps_hd [OF u] Remove
    by simp
qed

lemma mark_ready_ok:
  "distinct (map fst es) \<Longrightarrow> \<forall>(p, e) \<in> set es. store p \<noteq> None \<Longrightarrow>
    mark_ready store_mark es store = Inr (map fst es, \<lambda>q. case map_of es q of
        None \<Rightarrow> store q | Some e \<Rightarrow> map_option (setREvents e) (store q))"
proof (induction es arbitrary: store)
  case Nil
  then show ?case by simp
next
  case (Cons x es)
  obtain p e where x: "x = (p, e)" by fastforce
  with Cons.prems obtain ch where ch: "store p = Some ch" by auto
  let ?st = "store(p := Some (setREvents e ch))"
  have p: "p \<notin> fst ` set es" using Cons.prems(1) x by simp
  then have "\<forall>(q, f) \<in> set es. ?st q \<noteq> None"
    using Cons.prems(2) by (auto split: prod.splits)
  with Cons have "mark_ready store_mark es ?st = Inr (map fst es, \<lambda>q. case map_of es q of
        None \<Rightarrow> ?st q | Some f \<Rightarrow> map_option (setREvents f) (?st q))"
    by simp
  moreover have "map_of es p = None" using p by (simp add: map_of_eq_None_iff)
  moreover have "store_mark p e store = Inr ?st" using ch by (simp add: store_mark_def)
  ultimately show ?case
    using x ch by (auto simp: fun_eq_iff split: option.splits)
qed

lemma fold_flip_exact:
  "synced p ch ep \<Longrightarrow> \<not> ep_deny ep \<Longrightarrow> fold (flip p) sws (ch, ep) = (ch', ep') \<Longrightarrow>
    synced p ch' ep' \<and> \<not> ep_deny ep' \<and> ch_fd ch' = ch_fd ch
    \<and> (hasRead ch', hasWrite ch') = fold flip_spec sws (hasRead ch, hasWrite ch)
    \<and> (sws \<noteq> [] \<longrightarrow> exact p ch' ep')
    \<and> (\<forall>fd. fd \<noteq> ch_fd ch \<longrightarrow> ep_interest ep' fd = ep_interest ep fd)"
proof (induction sws arbitrary: ch ep)
  case Nil
  then show ?case by simp
next
  case (Cons sw sws)
  obtain ch1 ep1 where f: "flip p sw (ch, ep) = (ch1, ep1)" by fastforce
  note s = flip_exact [OF Cons.prems(1,2) f]
  with Cons.prems(3) f have r: "fold (flip p) sws (ch1, ep1) = (ch', ep')" by simp
  from s have "synced p ch1 ep1" and "\<not> ep_deny ep1" by (auto intro: exact_synced)
  from Cons.IH [OF this r] s r show ?case by (cases "sws = []") auto
qed

lemma synced_new: "ep_interest ep fd = None \<Longrightarrow> synced p (new_channel fd) ep"
  by (simp add: synced_def new_channel_def)

section \<open>Properties\<close>

text \<open>
  C21. The kernel watches what the channel says: after any sequence of switches of a new
  channel, the channel wants reading and writing as last switched, the kernel's entry of
  its descriptor is exactly its events and its address while it is registered and absent
  otherwise, and no other descriptor is affected.
\<close>

theorem switches_track_kernel:
  assumes "ep_interest ep fd = None" and "\<not> ep_deny ep" and "sws \<noteq> []"
    and "fold (flip p) sws (new_channel fd, ep) = (ch, ep')"
  shows "(hasRead ch, hasWrite ch) = fold flip_spec sws (False, False)
    \<and> ep_interest ep' fd = (if ch_state ch = ADDED then Some (ch_events ch, p) else None)
    \<and> (\<forall>fd'. fd' \<noteq> fd \<longrightarrow> ep_interest ep' fd' = ep_interest ep fd')"
  using fold_flip_exact [OF synced_new [where p = p and fd = fd] assms(2,4)] assms(1,3)
  by (auto simp: exact_def synced_def)

definition example_epoller :: epoller where
  "example_epoller = \<lparr>ep_channels = \<lambda>_. None, ep_capacity = 2, ep_interest = \<lambda>_. None, ep_deny = False\<rparr>"

lemmas epoll_eval = enableReading_def disableReading_def enableWriting_def disableWriting_def
  updateChannel_def removeChannel_def controlEpoll_def epoll_ctl_def new_channel_def
  channel_switch_defs poll_bits example_epoller_def

theorem switches_track_kernel_witness:
  "ep_interest (snd (fold (flip 3) [Read_On, Write_On, Write_Off] (new_channel 7 :: nat channel, example_epoller))) 7
     = Some (READ, 3)"
proof -
  let ?r = "fold (flip 3) [Read_On, Write_On, Write_Off] (new_channel 7 :: nat channel, example_epoller)"
  have r: "ch_state (fst ?r) = ADDED \<and> ch_events (fst ?r) = READ"
    by (simp add: epoll_eval Let_def)
  have "ep_interest (snd ?r) 7 = (if ch_state (fst ?r) = ADDED then Some (ch_events (fst ?r), 3) else None)"
    using switches_track_kernel [of example_epoller 7 "[Read_On, Write_On, Write_Off]" 3 "fst ?r" "snd ?r"]
    by (simp add: example_epoller_def)
  with r show ?thesis by simp
qed

text \<open>
  One poll: every channel the kernel reports is alive, the result lists exactly them, in
  the kernel's order, with the reported events stored in each and no other channel changed;
  the event array doubles exactly when it was filled; and a failed or empty wait changes
  nothing.
\<close>

theorem poll_reports:
  assumes "distinct (map fst es)" and "\<forall>(p, e) \<in> set es. store p \<noteq> None"
  shows "poll store_mark (Wait_Ready es) store ep = Inr (map fst es,
        (\<lambda>q. case map_of es q of None \<Rightarrow> store q | Some e \<Rightarrow> map_option (setREvents e) (store q)),
        ep\<lparr>ep_capacity := (if es \<noteq> [] \<and> length es = ep_capacity ep then 2 else 1) * ep_capacity ep\<rparr>)
    \<and> poll store_mark (Wait_Error err) store ep = Inr ([], store, ep)"
  using mark_ready_ok [OF assms] by (auto simp: poll_def)

theorem poll_reports_witness:
  "\<exists>st. poll store_mark (Wait_Ready [(4, POLLIN), (9, POLLOUT)]) (\<lambda>_. Some (new_channel 7 :: nat channel)) example_epoller =
    Inr ([4, 9], st, example_epoller\<lparr>ep_capacity := 4\<rparr>)"
  using poll_reports [of "[(4, POLLIN), (9, POLLOUT)]" "\<lambda>_. Some (new_channel 7 :: nat channel)" example_epoller 0]
  by (simp add: example_epoller_def)

text \<open>A channel that was freed while the kernel still reports it.\<close>

lemma poll_freed: "store p = None \<Longrightarrow> poll store_mark (Wait_Ready ((p, e) # es)) store ep = Inl Use_After_Free"
  by (simp add: poll_def store_mark_def)

text \<open>A poll succeeds when every reported channel can be marked, and marking keeps the rest so.\<close>

lemma mark_ready_total:
  assumes "\<And>p e s. P s \<Longrightarrow> p \<in> set (map fst es) \<Longrightarrow> \<exists>s'. mark p e s = Inr s' \<and> P s'" and "P s"
  shows "\<exists>s'. mark_ready mark es s = Inr (map fst es, s') \<and> P s'"
  using assms
proof (induction es arbitrary: s)
  case (Cons x es)
  obtain p e where x: "x = (p, e)" by fastforce
  with Cons.prems obtain s1 where s1: "mark p e s = Inr s1" "P s1" by fastforce
  from Cons.IH [OF Cons.prems(1) s1(2)] obtain s2 where "mark_ready mark es s1 = Inr (map fst es, s2)" "P s2"
    by auto
  with x s1 show ?case by simp
qed simp

lemma mark_ready_inv:
  assumes "\<And>p e s s'. mark p e s = Inr s' \<Longrightarrow> P s \<Longrightarrow> P s'"
  shows "mark_ready mark es s = Inr (ps, s') \<Longrightarrow> P s \<Longrightarrow> P s'"
proof (induction es arbitrary: s ps)
  case (Cons x es)
  obtain p e where x: "x = (p, e)" by fastforce
  with Cons.prems(1) obtain s1 qs where "mark p e s = Inr s1" "mark_ready mark es s1 = Inr (qs, s')"
    by (auto simp: bind_ok_Inr_iff)
  with Cons.IH assms Cons.prems(2) show ?case by blast
qed simp

end
