(* ===== verification/Text_Sink.thy ===== *)
theory Text_Sink
  imports Cpp_Prelude "HOL-Library.Sublist"
begin

text \<open>
  The contract of a bounded text buffer that separates the items put into it with a blank:
  an item is stored whole, followed by the blank, when it and the blank fit, and is dropped
  whole otherwise. \<open>FixedBuffer\<close> of \<open>base/LogStream.h\<close> provides it; the log stream
  and the asynchronous logger are its clients.
\<close>

definition spaced :: "string \<Rightarrow> string" where
  "spaced s = s @ '' ''"

fun put_all :: "('b \<Rightarrow> 's \<Rightarrow> 'b outcome) \<Rightarrow> 'b \<Rightarrow> 's list \<Rightarrow> 'b outcome" where
  "put_all put b [] = Inr b"
| "put_all put b (s # ss) = bind_ok (put b s) (\<lambda>b'. put_all put b' ss)"

lemma length_spaced [simp]: "length (spaced s) = Suc (length s)"
  by (simp add: spaced_def)

lemma put_all_append:
  "put_all put b (xs @ ys) = bind_ok (put_all put b xs) (\<lambda>b'. put_all put b' ys)"
  by (induction xs arbitrary: b) (simp_all add: bind_ok_assoc)

text \<open>
  The items that are stored when \<open>room\<close> characters are free: one after the other, each that
  asks for no more than what is left, and takes the room of its text and the blank.
\<close>

fun fitting :: "('i \<Rightarrow> nat) \<Rightarrow> ('i \<Rightarrow> string) \<Rightarrow> nat \<Rightarrow> 'i list \<Rightarrow> 'i list" where
  "fitting need render room [] = []"
| "fitting need render room (i # is) =
     (if need i \<le> room then i # fitting need render (room - Suc (length (render i))) is
      else fitting need render room is)"

lemma subseq_fitting: "subseq (fitting need render room is) is"
  by (induction need render room "is" rule: fitting.induct) auto

text \<open>
  The general form: items of any type, each with its text (\<open>render\<close>), the free space it
  asks for (\<open>need\<close>, at least its text and the blank) and a condition on its values
  (\<open>good\<close>).
\<close>

locale item_sink =
  fixes inv :: "'b \<Rightarrow> bool"
    and body :: "'b \<Rightarrow> string"
    and cap :: "'b \<Rightarrow> nat"
    and put :: "'b \<Rightarrow> 'i \<Rightarrow> 'b outcome"
    and render :: "'i \<Rightarrow> string"
    and need :: "'i \<Rightarrow> nat"
    and good :: "'i \<Rightarrow> bool"
  assumes item_fits: "inv b \<Longrightarrow> good i \<Longrightarrow> length (body b) + need i \<le> cap b \<Longrightarrow>
      \<exists>b'. put b i = Inr b' \<and> inv b' \<and> body b' = body b @ spaced (render i) \<and> cap b' = cap b"
    and item_full: "inv b \<Longrightarrow> good i \<Longrightarrow> cap b < length (body b) + need i \<Longrightarrow> put b i = Inr b"
    and need_enough: "good i \<Longrightarrow> Suc (length (render i)) \<le> need i"
begin

lemma put_all_fits:
  "inv b \<Longrightarrow> \<forall>i \<in> set is. good i \<Longrightarrow> length (body b) + sum_list (map need is) \<le> cap b \<Longrightarrow>
    \<exists>b'. put_all put b is = Inr b' \<and> inv b' \<and> cap b' = cap b
      \<and> body b' = body b @ concat (map (\<lambda>i. spaced (render i)) is)"
proof (induction "is" arbitrary: b)
  case Nil
  then show ?case by simp
next
  case (Cons i "is")
  then obtain b1 where b1: "put b i = Inr b1" "inv b1"
      "body b1 = body b @ spaced (render i)" "cap b1 = cap b"
    using item_fits [of b i] by auto
  with Cons.prems need_enough [of i]
  have "length (body b1) + sum_list (map need is) \<le> cap b1" by simp
  with Cons.IH [OF b1(2)] Cons.prems b1 show ?case by auto
qed

text \<open>Whatever is put, exactly the items that fit are stored, whole and in order.\<close>

lemma put_all_fitting:
  "inv b \<Longrightarrow> \<forall>i \<in> set is. good i \<Longrightarrow> \<exists>b'. put_all put b is = Inr b' \<and> inv b' \<and> cap b' = cap b
    \<and> body b' = body b
        @ concat (map (\<lambda>i. spaced (render i)) (fitting need render (cap b - length (body b)) is))"
proof (induction "is" arbitrary: b)
  case Nil
  then show ?case by simp
next
  case (Cons i "is")
  have "0 < need i" using need_enough [of i] Cons.prems(2) by simp
  show ?case
  proof (cases "need i \<le> cap b - length (body b)")
    case True
    with \<open>0 < need i\<close> have "length (body b) + need i \<le> cap b" by simp
    then obtain b1 where b1: "put b i = Inr b1" "inv b1" "cap b1 = cap b"
        "body b1 = body b @ spaced (render i)"
      using item_fits [of b i] Cons.prems by auto
    moreover have "cap b1 - length (body b1) = cap b - length (body b) - Suc (length (render i))"
      using b1 by simp
    ultimately show ?thesis using Cons.IH [OF b1(2)] Cons.prems(2) True by auto
  next
    case False
    then have "put b i = Inr b" using item_full [of b i] Cons.prems by simp
    then show ?thesis using Cons.IH [OF Cons.prems(1)] Cons.prems(2) False by auto
  qed
qed

end

text \<open>Plain strings ask for their own length and the blank.\<close>

locale text_sink =
  fixes inv :: "'b \<Rightarrow> bool"
    and body :: "'b \<Rightarrow> string"
    and cap :: "'b \<Rightarrow> nat"
    and put :: "'b \<Rightarrow> string \<Rightarrow> 'b outcome"
  assumes put_fits: "inv b \<Longrightarrow> length (body b) + length s < cap b \<Longrightarrow>
      \<exists>b'. put b s = Inr b' \<and> inv b' \<and> body b' = body b @ spaced s \<and> cap b' = cap b"
    and put_full: "inv b \<Longrightarrow> cap b \<le> length (body b) + length s \<Longrightarrow> put b s = Inr b"
    and body_bound: "inv b \<Longrightarrow> length (body b) \<le> cap b"

sublocale text_sink \<subseteq> items: item_sink inv body cap put "\<lambda>s. s" "\<lambda>s. Suc (length s)" "\<lambda>_. True"
  by unfold_locales (auto intro: put_fits put_full)

end
