(* ===== verification/Log_Stream.thy ===== *)
theory Log_Stream
  imports Text_Sink "HOL-Library.Signed_Division"
begin

text \<open>
  \<open>base/LogStream.h\<close> and \<open>base/LogStream.cpp\<close>: the fixed-size text buffer
  \<open>FixedBuffer\<close>, the conversions of integers and pointers to text, and the stream
  operators. \<open>SIZE\<close>, the template parameter, is the length of the character array.
\<close>

section \<open>Definitions\<close>

subsection \<open>FixedBuffer\<close>

record fixed_buffer =
  fb_buf :: string
  fb_cur :: nat

abbreviation NUL :: char where
  "NUL \<equiv> CHR 0x00"

text \<open>
  A fresh buffer: the constructor sets the cursor and leaves the array uninitialised, so
  its contents are an argument.
\<close>

definition new_fixed_buffer :: "string \<Rightarrow> fixed_buffer" where
  "new_fixed_buffer uninit = \<lparr>fb_buf = uninit, fb_cur = 0\<rparr>"

definition fb_length :: "fixed_buffer \<Rightarrow> int" where
  "fb_length b = int (fb_cur b)"

definition rest :: "fixed_buffer \<Rightarrow> int" where
  "rest b = int (length (fb_buf b)) - int (fb_cur b)"

definition bZero :: "fixed_buffer \<Rightarrow> fixed_buffer" where
  "bZero b = b\<lparr>fb_buf := replicate (length (fb_buf b)) NUL\<rparr>"

definition clear :: "fixed_buffer \<Rightarrow> fixed_buffer" where
  "clear b = b\<lparr>fb_cur := 0\<rparr>"

text \<open>A store of characters at the cursor, inside the array or a fault.\<close>

definition store_at :: "fixed_buffer \<Rightarrow> nat \<Rightarrow> string \<Rightarrow> fixed_buffer outcome" where
  "store_at b pos s =
     (if pos + length s \<le> length (fb_buf b)
      then Inr (b\<lparr>fb_buf := overwrite (fb_buf b) pos s\<rparr>) else Inl Out_Of_Bounds)"

definition addLength :: "fixed_buffer \<Rightarrow> nat \<Rightarrow> fixed_buffer outcome" where
  "addLength b len =
     (let b1 = b\<lparr>fb_cur := fb_cur b + (len + 1)\<rparr>
      in store_at b1 (fb_cur b1 - 1) '' '')"

definition fb_append :: "fixed_buffer \<Rightarrow> string \<Rightarrow> int \<Rightarrow> fixed_buffer outcome" where
  "fb_append b msg len =
     (if rest b > len then
        (if len < 0 \<or> int (length msg) < len then Inl Out_Of_Bounds
         else bind_ok (store_at b (fb_cur b) (take (nat len) msg)) (\<lambda>b1. addLength b1 (nat len)))
      else Inr b)"

subsection \<open>Numbers to text\<close>

definition digits :: string where
  "digits = ''9876543210123456789''"

definition zero_at :: "int \<Rightarrow> char" where
  "zero_at lsd = digits ! nat (9 + lsd)"

definition digitsHex :: string where
  "digitsHex = ''0123456789ABCDEF''"

text \<open>The do-while loops, least significant digit first; C division truncates.\<close>

function convert_loop :: "int \<Rightarrow> string" where
  "convert_loop i =
     zero_at (i smod 10) # (if i sdiv 10 \<noteq> 0 then convert_loop (i sdiv 10) else [])"
  by pat_completeness auto
termination
  by (relation "measure (\<lambda>i. nat \<bar>i\<bar>)") (auto simp: signed_divide_int_def abs_mult abs_sgn_eq)

definition convert :: "int \<Rightarrow> string" where
  "convert value = rev (convert_loop value @ (if value < 0 then ''-'' else ''''))"

function convertHex_loop :: "nat \<Rightarrow> string" where
  "convertHex_loop i =
     (digitsHex ! (i mod 16)) # (if i div 16 \<noteq> 0 then convertHex_loop (i div 16) else [])"
  by pat_completeness auto
termination
  by (relation "measure id") auto

definition convertHex :: "nat \<Rightarrow> string" where
  "convertHex value = rev (convertHex_loop value)"

subsection \<open>Stream operators\<close>

definition kSmallSize :: nat where
  "kSmallSize = 4000"

definition formatInteger :: "fixed_buffer \<Rightarrow> int \<Rightarrow> fixed_buffer outcome" where
  "formatInteger b v =
     (if rest b \<ge> 32
      then bind_ok (store_at b (fb_cur b) (convert v @ [NUL])) (\<lambda>b1.
             addLength b1 (length (convert v)))
      else Inr b)"

definition put_int :: "fixed_buffer \<Rightarrow> int \<Rightarrow> fixed_buffer outcome" where
  "put_int b v = formatInteger b v"

definition put_uint :: "fixed_buffer \<Rightarrow> int \<Rightarrow> fixed_buffer outcome" where
  "put_uint b v = formatInteger b v"

definition put_long :: "fixed_buffer \<Rightarrow> int \<Rightarrow> fixed_buffer outcome" where
  "put_long b v = formatInteger b v"

definition put_ulong :: "fixed_buffer \<Rightarrow> int \<Rightarrow> fixed_buffer outcome" where
  "put_ulong b v = formatInteger b v"

definition put_longlong :: "fixed_buffer \<Rightarrow> int \<Rightarrow> fixed_buffer outcome" where
  "put_longlong b v = formatInteger b v"

definition put_ulonglong :: "fixed_buffer \<Rightarrow> int \<Rightarrow> fixed_buffer outcome" where
  "put_ulonglong b v = formatInteger b v"

definition put_short :: "fixed_buffer \<Rightarrow> int \<Rightarrow> fixed_buffer outcome" where
  "put_short b v = put_int b v"

definition put_ushort :: "fixed_buffer \<Rightarrow> int \<Rightarrow> fixed_buffer outcome" where
  "put_ushort b v = put_uint b v"

definition put_bool :: "fixed_buffer \<Rightarrow> bool \<Rightarrow> fixed_buffer outcome" where
  "put_bool b v = put_int b (if v then 1 else 0)"

definition put_char :: "fixed_buffer \<Rightarrow> char \<Rightarrow> fixed_buffer outcome" where
  "put_char b v = fb_append b [v] 1"

text \<open>
  \<open>fmt\<close> is the text \<open>snprintf\<close> produces for \<open>%.12g\<close>; at most 31 characters and the
  terminator are stored, and the full length is returned. A \<open>float\<close> is converted to
  \<open>double\<close> by \<open>widen\<close>.
\<close>

definition put_double :: "('d \<Rightarrow> string) \<Rightarrow> fixed_buffer \<Rightarrow> 'd \<Rightarrow> fixed_buffer outcome" where
  "put_double fmt b v =
     (if rest b \<ge> 32
      then bind_ok (store_at b (fb_cur b) (take 31 (fmt v) @ [NUL])) (\<lambda>b1.
             addLength b1 (length (fmt v)))
      else Inr b)"

definition put_float :: "('f \<Rightarrow> 'd) \<Rightarrow> ('d \<Rightarrow> string) \<Rightarrow> fixed_buffer \<Rightarrow> 'f \<Rightarrow> fixed_buffer outcome" where
  "put_float widen fmt b v = put_double fmt b (widen v)"

text \<open>A pointer value is a \<open>uintptr_t\<close>; the length handed to \<open>addLength\<close> is the one
  \<open>convertHex\<close> returns, without the two characters of the prefix.\<close>

definition put_pointer :: "fixed_buffer \<Rightarrow> nat \<Rightarrow> fixed_buffer outcome" where
  "put_pointer b p =
     (if rest b \<ge> 32
      then bind_ok (store_at b (fb_cur b) ''0x'') (\<lambda>b1.
           bind_ok (store_at b1 (fb_cur b1 + 2) (convertHex p @ [NUL])) (\<lambda>b2.
             addLength b2 (length (convertHex p))))
      else Inr b)"

text \<open>A C string is its characters before the terminator, or a null pointer.\<close>

definition put_cstr :: "fixed_buffer \<Rightarrow> string option \<Rightarrow> fixed_buffer outcome" where
  "put_cstr b v =
     (case v of
        None \<Rightarrow> fb_append b ''(null)'' 6
      | Some s \<Rightarrow> fb_append b s (to_int32 (int (length s))))"

definition put_string :: "fixed_buffer \<Rightarrow> string \<Rightarrow> fixed_buffer outcome" where
  "put_string b v = fb_append b v (to_int32 (int (length v)))"

text \<open>The overloads of \<open>operator<<\<close> as one function over the type of the operand.\<close>

datatype 'd item =
    Item_Bool bool
  | Item_Char char
  | Item_Short int
  | Item_UShort int
  | Item_Int int
  | Item_UInt int
  | Item_Long int
  | Item_ULong int
  | Item_LongLong int
  | Item_ULongLong int
  | Item_Double 'd
  | Item_Pointer nat
  | Item_Cstr "string option"
  | Item_String string

fun put_item :: "('d \<Rightarrow> string) \<Rightarrow> fixed_buffer \<Rightarrow> 'd item \<Rightarrow> fixed_buffer outcome" where
  "put_item fmt b (Item_Bool v) = put_bool b v"
| "put_item fmt b (Item_Char v) = put_char b v"
| "put_item fmt b (Item_Short v) = put_short b v"
| "put_item fmt b (Item_UShort v) = put_ushort b v"
| "put_item fmt b (Item_Int v) = put_int b v"
| "put_item fmt b (Item_UInt v) = put_uint b v"
| "put_item fmt b (Item_Long v) = put_long b v"
| "put_item fmt b (Item_ULong v) = put_ulong b v"
| "put_item fmt b (Item_LongLong v) = put_longlong b v"
| "put_item fmt b (Item_ULongLong v) = put_ulonglong b v"
| "put_item fmt b (Item_Double v) = put_double fmt b v"
| "put_item fmt b (Item_Pointer v) = put_pointer b v"
| "put_item fmt b (Item_Cstr v) = put_cstr b v"
| "put_item fmt b (Item_String v) = put_string b v"

subsection \<open>Reference conversions and abstract view\<close>

text \<open>Positional notation of a natural number in base 10 and base 16, and reading it.\<close>

fun positional :: "string \<Rightarrow> nat \<Rightarrow> string" where
  "positional ds n =
     (if length ds \<le> 1 \<or> n < length ds then [ds ! n]
      else positional ds (n div length ds) @ [ds ! (n mod length ds)])"

definition decDigits :: string where
  "decDigits = ''0123456789''"

definition decimal :: "int \<Rightarrow> string" where
  "decimal v = (if v < 0 then ''-'' else '''') @ positional decDigits (nat \<bar>v\<bar>)"

definition digit_value :: "char \<Rightarrow> nat" where
  "digit_value c = (if of_char c \<ge> (65::nat) then of_char c - 55 else of_char c - 48)"

definition read_base :: "nat \<Rightarrow> string \<Rightarrow> nat" where
  "read_base base s = foldl (\<lambda>n c. base * n + digit_value c) 0 s"

definition read_decimal :: "string \<Rightarrow> int" where
  "read_decimal s =
     (case s of [] \<Rightarrow> 0
      | c # cs \<Rightarrow> if c = CHR ''-'' then - int (read_base 10 cs) else int (read_base 10 (c # cs)))"

text \<open>
  The text of an item, the free space the operators ask for, and the
  values the operand types have: 64-bit integers, strings shorter than 2 GiB, and a
  \<open>%.12g\<close> text of at most 31 characters.
\<close>


fun item_text :: "('d \<Rightarrow> string) \<Rightarrow> 'd item \<Rightarrow> string" where
  "item_text fmt (Item_Bool v) = decimal (if v then 1 else 0)"
| "item_text fmt (Item_Char v) = [v]"
| "item_text fmt (Item_Short v) = decimal v"
| "item_text fmt (Item_UShort v) = decimal v"
| "item_text fmt (Item_Int v) = decimal v"
| "item_text fmt (Item_UInt v) = decimal v"
| "item_text fmt (Item_Long v) = decimal v"
| "item_text fmt (Item_ULong v) = decimal v"
| "item_text fmt (Item_LongLong v) = decimal v"
| "item_text fmt (Item_ULongLong v) = decimal v"
| "item_text fmt (Item_Double v) = fmt v"
| "item_text fmt (Item_Pointer p) = ''0x'' @ positional digitsHex p"
| "item_text fmt (Item_Cstr v) = (case v of None \<Rightarrow> ''(null)'' | Some s \<Rightarrow> s)"
| "item_text fmt (Item_String v) = v"

fun item_need :: "'d item \<Rightarrow> nat" where
  "item_need (Item_Char v) = 2"
| "item_need (Item_Cstr v) = Suc (case v of None \<Rightarrow> 6 | Some s \<Rightarrow> length s)"
| "item_need (Item_String v) = Suc (length v)"
| "item_need _ = 32"

definition int64_range :: "int \<Rightarrow> bool" where
  "int64_range v \<longleftrightarrow> - 9223372036854775808 \<le> v \<and> v < 18446744073709551616"

fun item_good :: "('d \<Rightarrow> string) \<Rightarrow> 'd item \<Rightarrow> bool" where
  "item_good fmt (Item_Bool v) = True"
| "item_good fmt (Item_Char v) = True"
| "item_good fmt (Item_Double v) = (length (fmt v) \<le> 31)"
| "item_good fmt (Item_Pointer p) = (p < 18446744073709551616)"
| "item_good fmt (Item_Cstr v) = (case v of None \<Rightarrow> True | Some s \<Rightarrow> length s < 2147483648)"
| "item_good fmt (Item_String v) = (length v < 2147483648)"
| "item_good fmt (Item_Short v) = int64_range v"
| "item_good fmt (Item_UShort v) = int64_range v"
| "item_good fmt (Item_Int v) = int64_range v"
| "item_good fmt (Item_UInt v) = int64_range v"
| "item_good fmt (Item_Long v) = int64_range v"
| "item_good fmt (Item_ULong v) = int64_range v"
| "item_good fmt (Item_LongLong v) = int64_range v"
| "item_good fmt (Item_ULongLong v) = int64_range v"

definition fb_inv :: "fixed_buffer \<Rightarrow> bool" where
  "fb_inv b \<longleftrightarrow> fb_cur b \<le> length (fb_buf b)"

definition fb_text :: "fixed_buffer \<Rightarrow> string" where
  "fb_text b = take (fb_cur b) (fb_buf b)"

definition fb_put :: "fixed_buffer \<Rightarrow> string \<Rightarrow> fixed_buffer outcome" where
  "fb_put b s = fb_append b s (int (length s))"

declare convert_loop.simps [simp del] convertHex_loop.simps [simp del] positional.simps [simp del]

text \<open>
  What the operators store of the text: all of it, except that a pointer loses its last two
  characters.
\<close>

fun item_stored :: "('d \<Rightarrow> string) \<Rightarrow> 'd item \<Rightarrow> string" where
  "item_stored fmt (Item_Pointer p) =
     (let t = item_text fmt (Item_Pointer p) in take (length t - 2) t)"
| "item_stored fmt i = item_text fmt i"


section \<open>Lemmas\<close>

subsection \<open>Numbers to text\<close>

lemma length_digits [simp]: "length decDigits = 10" "length digitsHex = 16"
  by (simp_all add: decDigits_def digitsHex_def)

lemma abs_sdiv_10: "nat \<bar>i sdiv 10\<bar> = nat \<bar>i\<bar> div 10"
  by (cases "i = 0") (simp_all add: signed_divide_int_def abs_mult abs_sgn_eq nat_div_distrib)

lemma abs_smod_10: "nat \<bar>i smod 10\<bar> = nat \<bar>i\<bar> mod 10"
proof -
  have "i smod 10 = sgn i * (\<bar>i\<bar> mod 10)"
    by (simp add: signed_modulo_int_def signed_divide_int_def minus_div_mult_eq_mod [symmetric]
        algebra_simps abs_sgn)
  then show ?thesis
    by (cases "i = 0") (simp_all add: abs_mult abs_sgn_eq nat_mod_distrib)
qed

lemma sdiv_10_0: "i sdiv 10 = 0 \<longleftrightarrow> nat \<bar>i\<bar> < 10"
proof -
  have "i sdiv 10 = 0 \<longleftrightarrow> nat \<bar>i sdiv 10\<bar> = 0" by auto
  also have "\<dots> \<longleftrightarrow> nat \<bar>i\<bar> < 10" by (simp only: abs_sdiv_10 div_eq_0_iff) simp
  finally show ?thesis .
qed

lemma zero_at_abs: "\<bar>d\<bar> \<le> 9 \<Longrightarrow> zero_at d = decDigits ! nat \<bar>d\<bar>"
proof -
  assume "\<bar>d\<bar> \<le> 9"
  then have "d \<in> set [-9, -8, -7, -6, -5, -4, -3, -2, -1, 0, 1, 2, 3, 4, 5, 6, 7, 8, 9]"
    by (simp only: list.set insert_iff empty_iff) arith
  then show ?thesis by (auto simp: zero_at_def digits_def decDigits_def)
qed

lemma convert_loop_positional: "convert_loop i = rev (positional decDigits (nat \<bar>i\<bar>))"
proof (induction i rule: convert_loop.induct)
  case (1 i)
  have "\<bar>i smod 10\<bar> \<le> 9" using abs_smod_10 [of i] by linarith
  then have z: "zero_at (i smod 10) = decDigits ! (nat \<bar>i\<bar> mod 10)"
    by (simp only: zero_at_abs abs_smod_10)
  show ?case
  proof (cases "i sdiv 10 = 0")
    case True
    then have "nat \<bar>i\<bar> < 10" by (simp only: sdiv_10_0)
    with True z show ?thesis by (simp add: convert_loop.simps [of i] positional.simps)
  next
    case False
    then have "\<not> nat \<bar>i\<bar> < 10" by (simp only: sdiv_10_0 not_False_eq_True)
    with 1 [OF False] z False show ?thesis
      by (simp add: convert_loop.simps [of i] positional.simps [of _ "nat \<bar>i\<bar>"] abs_sdiv_10)
  qed
qed

lemma convert_decimal: "convert v = decimal v"
  by (simp add: convert_def decimal_def convert_loop_positional)

lemma convertHex_loop_positional: "convertHex_loop n = rev (positional digitsHex n)"
proof (induction n rule: convertHex_loop.induct)
  case (1 n)
  then show ?case
    by (cases "n < 16")
      (simp_all add: convertHex_loop.simps [of n] positional.simps [of _ n])
qed

lemma convertHex_positional: "convertHex n = positional digitsHex n"
  by (simp add: convertHex_def convertHex_loop_positional)

lemma length_positional:
  "1 < length ds \<Longrightarrow> 0 < k \<Longrightarrow> n < length ds ^ k \<Longrightarrow> length (positional ds n) \<le> k"
proof (induction ds n arbitrary: k rule: positional.induct)
  case (1 ds n)
  show ?case
  proof (cases "n < length ds")
    case True
    with 1 show ?thesis by (simp add: positional.simps [of ds n])
  next
    case False
    with 1 have "k \<noteq> 1" by auto
    with 1 obtain j where j: "k = Suc j" "0 < j" by (cases k) auto
    with 1 have "n div length ds < length ds ^ j"
      by (simp add: less_mult_imp_div_less mult.commute)
    with 1 False j have "length (positional ds (n div length ds)) \<le> j" by simp
    with 1 False j show ?thesis by (simp add: positional.simps [of ds n])
  qed
qed

lemma positional_nonempty [simp]: "positional ds n \<noteq> []"
  by (simp add: positional.simps [of ds n])

lemma read_base_append: "read_base b (xs @ [c]) = b * read_base b xs + digit_value c"
  by (simp add: read_base_def)

lemma read_positional:
  assumes "\<And>d. d < length ds \<Longrightarrow> digit_value (ds ! d) = d" and "1 < length ds"
  shows "read_base (length ds) (positional ds n) = n"
  using assms
proof (induction ds n rule: positional.induct)
  case (1 ds n)
  show ?case
  proof (cases "n < length ds")
    case True
    with 1 show ?thesis by (simp add: positional.simps [of ds n] read_base_def)
  next
    case False
    have "n mod length ds < length ds" using 1(3) by (intro mod_less_divisor) arith
    then have "digit_value (ds ! (n mod length ds)) = n mod length ds" by (rule 1(2))
    moreover have "\<not> (length ds \<le> 1 \<or> n < length ds)"
      using 1 False by simp
    ultimately show ?thesis
      using 1 by (simp add: positional.simps [of ds n] read_base_append)
  qed
qed

lemma digit_value_dec: "d < 10 \<Longrightarrow> digit_value (decDigits ! d) = d"
  by (auto simp: less_Suc_eq numeral_eq_Suc digit_value_def decDigits_def)

lemma digit_value_hex: "d < 16 \<Longrightarrow> digit_value (digitsHex ! d) = d"
  by (auto simp: less_Suc_eq numeral_eq_Suc digit_value_def digitsHex_def)


lemma length_convert:
  assumes "- 9223372036854775808 \<le> v" and "v < 18446744073709551616"
  shows "length (convert v) \<le> 20"
proof (cases "v < 0")
  case True
  with assms(1) have "nat \<bar>v\<bar> < length decDigits ^ 19" by simp
  then have "length (positional decDigits (nat \<bar>v\<bar>)) \<le> 19"
    by (intro length_positional) simp_all
  with True show ?thesis by (simp add: convert_decimal decimal_def)
next
  case False
  with assms(2) have "nat \<bar>v\<bar> < length decDigits ^ 20" by simp
  then have "length (positional decDigits (nat \<bar>v\<bar>)) \<le> 20"
    by (intro length_positional) simp_all
  with False show ?thesis by (simp add: convert_decimal decimal_def)
qed

lemma length_convertHex: "p < 18446744073709551616 \<Longrightarrow> length (convertHex p) \<le> 16"
  unfolding convertHex_positional by (rule length_positional) simp_all

lemma convert_nonempty [simp]: "convert v \<noteq> []"
  by (simp add: convert_decimal decimal_def)

lemma convertHex_nonempty [simp]: "convertHex p \<noteq> []"
  by (simp add: convertHex_positional)

lemma read_decimal_digits:
  "read_decimal (positional decDigits n) = int (read_base 10 (positional decDigits n))"
proof -
  have "hd (positional decDigits n) \<in> set decDigits"
  proof (induction decDigits n rule: positional.induct)
    case (1 n)
    have "decDigits ! (n mod 10) \<in> set decDigits"
      by (intro nth_mem) simp
    with 1 show ?case
      by (cases "n < 10") (simp_all add: positional.simps [of _ n] hd_append)
  qed
  then show ?thesis
    by (cases "positional decDigits n") (auto simp: read_decimal_def decDigits_def)
qed

lemma read_decimal_decimal: "read_decimal (decimal v) = v"
proof -
  have r: "read_base 10 (positional decDigits n) = n" for n
    using read_positional [of decDigits n] digit_value_dec by simp
  show ?thesis
    by (cases "v < 0") (simp_all add: decimal_def read_decimal_digits r, simp add: read_decimal_def r)
qed

subsection \<open>The buffer\<close>

lemma length_fb_text [simp]: "fb_inv b \<Longrightarrow> length (fb_text b) = fb_cur b"
  by (simp add: fb_inv_def fb_text_def)

lemma rest_text: "fb_inv b \<Longrightarrow> rest b = int (length (fb_buf b) - length (fb_text b))"
  by (simp add: rest_def fb_inv_def)

lemma take_overwrite:
  "i + length ys \<le> length xs \<Longrightarrow> n = i + length ys \<Longrightarrow> take n (overwrite xs i ys) = take i xs @ ys"
  by (simp add: overwrite_def)

lemma take_overwrite_in:
  "k \<le> length ys \<Longrightarrow> i + length ys \<le> length xs \<Longrightarrow> take (i + k) (overwrite xs i ys) = take i xs @ take k ys"
  by (simp add: overwrite_def)

text \<open>
  Storing an item at the cursor and advancing by its length: the item, or the part of it
  before the advanced position, becomes text and is followed by a blank.
\<close>

lemma store_addLength:
  assumes "fb_inv b" and "k \<le> length s" and "fb_cur b + length s \<le> length (fb_buf b)"
    and "fb_cur b + k < length (fb_buf b)"
  obtains b1 b2 where "store_at b (fb_cur b) s = Inr b1" and "addLength b1 k = Inr b2"
    and "fb_inv b2" and "fb_text b2 = fb_text b @ spaced (take k s)"
    and "length (fb_buf b2) = length (fb_buf b)"
proof -
  let ?m = "overwrite (fb_buf b) (fb_cur b) s"
  let ?b1 = "b\<lparr>fb_buf := ?m\<rparr>"
  let ?b2 = "?b1\<lparr>fb_cur := fb_cur b + (k + 1), fb_buf := overwrite ?m (fb_cur b + k) '' ''\<rparr>"
  have lm: "length ?m = length (fb_buf b)" using assms by simp
  have "store_at b (fb_cur b) s = Inr ?b1" using assms by (simp add: store_at_def)
  moreover have "addLength ?b1 k = Inr ?b2"
    using assms lm by (simp add: addLength_def store_at_def Let_def)
  moreover have "fb_inv ?b2" using assms lm by (simp add: fb_inv_def)
  moreover have "fb_text ?b2 = fb_text b @ spaced (take k s)"
    using assms lm by (simp add: fb_text_def take_overwrite take_overwrite_in spaced_def)
  ultimately show ?thesis using assms lm by (intro that [of ?b1 ?b2]) simp_all
qed

lemma fb_append_fits:
  assumes "fb_inv b" and "int (length s) < rest b"
  shows "\<exists>b'. fb_append b s (int (length s)) = Inr b' \<and> fb_inv b'
    \<and> fb_text b' = fb_text b @ spaced s \<and> length (fb_buf b') = length (fb_buf b)"
proof -
  have "fb_cur b + length s \<le> length (fb_buf b)" "fb_cur b + length s < length (fb_buf b)"
    using assms by (simp_all add: rest_def)
  then obtain b1 b2 where "store_at b (fb_cur b) s = Inr b1" "addLength b1 (length s) = Inr b2"
      "fb_inv b2" "fb_text b2 = fb_text b @ spaced (take (length s) s)"
      "length (fb_buf b2) = length (fb_buf b)"
    by (rule store_addLength [OF assms(1) order.refl])
  with assms(2) show ?thesis by (simp add: fb_append_def)
qed

lemma fb_append_full: "rest b \<le> len \<Longrightarrow> fb_append b s len = Inr b"
  by (simp add: fb_append_def)

text \<open>The fixed buffer, of whatever size, is a text sink.\<close>

interpretation fb: text_sink fb_inv fb_text "\<lambda>b. length (fb_buf b)" fb_put
proof unfold_locales
  fix b :: fixed_buffer and s :: string
  assume inv: "fb_inv b"
  show "\<exists>b'. fb_put b s = Inr b' \<and> fb_inv b' \<and> fb_text b' = fb_text b @ spaced s
      \<and> length (fb_buf b') = length (fb_buf b)"
    if "length (fb_text b) + length s < length (fb_buf b)"
    using fb_append_fits [OF inv, of s] that inv by (simp add: fb_put_def rest_def)
  show "fb_put b s = Inr b" if "length (fb_buf b) \<le> length (fb_text b) + length s"
    using that inv by (simp add: fb_put_def fb_append_full rest_def)
  show "length (fb_text b) \<le> length (fb_buf b)"
    using inv by (simp add: fb_inv_def)
qed


subsection \<open>The stream operators\<close>

lemma formatInteger_fits:
  assumes "fb_inv b" and "int64_range v" and "32 \<le> rest b"
  shows "\<exists>b'. formatInteger b v = Inr b' \<and> fb_inv b' \<and> fb_text b' = fb_text b @ spaced (decimal v)
    \<and> length (fb_buf b') = length (fb_buf b)"
proof -
  have l: "length (convert v) \<le> 20" using assms(2) by (simp add: int64_range_def length_convert)
  obtain b1 b2 where "store_at b (fb_cur b) (convert v @ [NUL]) = Inr b1"
      "addLength b1 (length (convert v)) = Inr b2" "fb_inv b2"
      "fb_text b2 = fb_text b @ spaced (take (length (convert v)) (convert v @ [NUL]))"
      "length (fb_buf b2) = length (fb_buf b)"
    by (rule store_addLength [OF assms(1), of "length (convert v)" "convert v @ [NUL]"])
      (use l assms(3) in \<open>simp_all add: rest_def\<close>)
  with assms(3) show ?thesis by (simp add: formatInteger_def convert_decimal)
qed

lemma formatInteger_full: "rest b < 32 \<Longrightarrow> formatInteger b v = Inr b"
  by (simp add: formatInteger_def)

lemma put_double_fits:
  assumes "fb_inv b" and "length (fmt v) \<le> 31" and "32 \<le> rest b"
  shows "\<exists>b'. put_double fmt b v = Inr b' \<and> fb_inv b' \<and> fb_text b' = fb_text b @ spaced (fmt v)
    \<and> length (fb_buf b') = length (fb_buf b)"
proof -
  obtain b1 b2 where "store_at b (fb_cur b) (fmt v @ [NUL]) = Inr b1"
      "addLength b1 (length (fmt v)) = Inr b2" "fb_inv b2"
      "fb_text b2 = fb_text b @ spaced (take (length (fmt v)) (fmt v @ [NUL]))"
      "length (fb_buf b2) = length (fb_buf b)"
    by (rule store_addLength [OF assms(1), of "length (fmt v)" "fmt v @ [NUL]"])
      (use assms(2,3) in \<open>simp_all add: rest_def\<close>)
  with assms(2,3) show ?thesis by (simp add: put_double_def)
qed

lemma overwrite_overwrite:
  "i + length xs \<le> length m \<Longrightarrow> overwrite (overwrite m i xs) (i + length xs) ys = overwrite m i (xs @ ys)"
  by (simp add: overwrite_def ac_simps)

lemma store_two:
  assumes "store_at b pos s = Inr b1"
  shows "store_at b1 (pos + length s) t = store_at b pos (s @ t)"
  using assms by (auto simp: store_at_def overwrite_overwrite add.assoc split: if_splits)

lemma stored_pointer:
  "item_stored fmt (Item_Pointer p) = take (length (convertHex p)) (''0x'' @ convertHex p)"
  by (simp add: Let_def convertHex_positional)

lemma put_pointer_fits:
  assumes "fb_inv b" and "p < 18446744073709551616" and "32 \<le> rest b"
  shows "\<exists>b'. put_pointer b p = Inr b' \<and> fb_inv b'
    \<and> fb_text b' = fb_text b @ spaced (item_stored fmt (Item_Pointer p))
    \<and> length (fb_buf b') = length (fb_buf b)"
proof -
  let ?h = "convertHex p"
  let ?s = "''0x'' @ ?h @ [NUL]"
  have l: "length ?h \<le> 16" using assms(2) by (rule length_convertHex)
  obtain b1 b2 where b: "store_at b (fb_cur b) ?s = Inr b1"
      "addLength b1 (length ?h) = Inr b2" "fb_inv b2"
      "fb_text b2 = fb_text b @ spaced (take (length ?h) ?s)"
      "length (fb_buf b2) = length (fb_buf b)"
    by (rule store_addLength [OF assms(1), of "length ?h" ?s])
      (use l assms(3) in \<open>simp_all add: rest_def\<close>)
  obtain b0 where b0: "store_at b (fb_cur b) ''0x'' = Inr b0" "fb_cur b0 = fb_cur b"
    using assms(3) by (simp add: store_at_def rest_def)
  have "store_at b0 (fb_cur b0 + 2) (?h @ [NUL]) = Inr b1"
    using store_two [OF b0(1), of "?h @ [NUL]"] b(1) b0(2) by simp
  moreover have "take (length ?h) ?s = item_stored fmt (Item_Pointer p)"
    using take_append [of "length ?h" "''0x'' @ ?h" "[NUL]"] by (simp only: stored_pointer) simp
  ultimately show ?thesis
    using b b0 assms(3) by (simp only: put_pointer_def) simp
qed

text \<open>All operators together are an item sink.\<close>

lemmas put_integer_defs =
  put_bool_def put_short_def put_ushort_def put_int_def put_uint_def put_long_def
  put_ulong_def put_longlong_def put_ulonglong_def

lemma to_int32_length [simp]:
  "length s < 2147483648 \<Longrightarrow> to_int32 (int (length s)) = int (length s)"
  by (rule to_int32_id) simp_all

lemma put_item_fits:
  assumes "fb_inv b" and "item_good fmt i" and "length (fb_text b) + item_need i \<le> length (fb_buf b)"
  shows "\<exists>b'. put_item fmt b i = Inr b' \<and> fb_inv b'
    \<and> fb_text b' = fb_text b @ spaced (item_stored fmt i) \<and> length (fb_buf b') = length (fb_buf b)"
proof -
  have r: "int (item_need i) \<le> rest b" using assms(1,3) by (simp add: rest_def)
  have bool: "int64_range 0" "int64_range 1" by (simp_all add: int64_range_def)
  have str: "\<exists>b'. fb_append b s (int (length s)) = Inr b' \<and> fb_inv b'
      \<and> fb_text b' = fb_text b @ spaced s \<and> length (fb_buf b') = length (fb_buf b)"
    if "int (length s) < rest b" for s using assms(1) that by (rule fb_append_fits)
  show ?thesis
  proof (cases i)
    case (Item_Char c)
    with r str [of "[c]"] show ?thesis by (simp add: put_char_def)
  next
    case (Item_Cstr v)
    with r assms(2) str [of "''(null)''"] str show ?thesis
      by (cases v) (simp_all add: put_cstr_def)
  next
    case (Item_String v)
    with r assms(2) str [of v] show ?thesis by (simp add: put_string_def)
  next
    case (Item_Pointer p)
    with r assms put_pointer_fits [of b p fmt] show ?thesis
      by (simp del: item_stored.simps item_text.simps)
  qed (use r assms bool in \<open>simp_all add: put_integer_defs formatInteger_fits put_double_fits\<close>)
qed

lemma put_item_full:
  assumes "fb_inv b" and "item_good fmt i" and "length (fb_buf b) < length (fb_text b) + item_need i"
  shows "put_item fmt b i = Inr b"
proof -
  have r: "rest b < int (item_need i)" using assms(1,3) by (simp add: rest_def)
  then show ?thesis
    using assms(2)
    by (cases i) (auto simp: put_integer_defs formatInteger_full put_double_def put_pointer_def
        put_char_def put_cstr_def put_string_def fb_append_full split: option.splits)
qed


lemma length_decimal: "int64_range v \<Longrightarrow> length (decimal v) \<le> 20"
  using length_convert [of v] by (simp add: int64_range_def convert_decimal)

lemma need_item_stored: "item_good fmt i \<Longrightarrow> Suc (length (item_stored fmt i)) \<le> item_need i"
proof (cases i)
  case (Item_Pointer p)
  moreover assume "item_good fmt i"
  ultimately show ?thesis
    using length_convertHex [of p] by (simp add: convertHex_positional Let_def)
next
  case (Item_Bool v)
  then show ?thesis
    using length_decimal [of 0] length_decimal [of 1] by (simp add: int64_range_def)
qed (simp_all add: length_decimal [THEN order_trans] split: option.splits)

interpretation stream: item_sink fb_inv fb_text "\<lambda>b. length (fb_buf b)" "put_item fmt"
  "item_stored fmt" item_need "item_good fmt"
proof unfold_locales
  fix b :: fixed_buffer and i :: "'a item"
  assume good: "item_good fmt i"
  then show "Suc (length (item_stored fmt i)) \<le> item_need i"
    by (rule need_item_stored)
  assume inv: "fb_inv b"
  show "\<exists>b'. put_item fmt b i = Inr b' \<and> fb_inv b'
      \<and> fb_text b' = fb_text b @ spaced (item_stored fmt i) \<and> length (fb_buf b') = length (fb_buf b)"
    if "length (fb_text b) + item_need i \<le> length (fb_buf b)"
    using inv good that by (rule put_item_fits)
  show "put_item fmt b i = Inr b"
    if "length (fb_buf b) < length (fb_text b) + item_need i"
    using inv good that by (rule put_item_full)
qed


text \<open>The last two digits of a pointer of at least three digits.\<close>

lemma positional_16: "16 \<le> p \<Longrightarrow> convertHex p = convertHex (p div 16) @ [digitsHex ! (p mod 16)]"
  by (simp add: convertHex_positional positional.simps [of _ p])

lemma stored_pointer_256:
  assumes "256 \<le> p"
  shows "item_stored fmt (Item_Pointer p) = ''0x'' @ convertHex (p div 256)"
proof -
  have "convertHex p = convertHex (p div 16) @ [digitsHex ! (p mod 16)]"
    using assms by (intro positional_16) simp
  also have "convertHex (p div 16) = convertHex (p div 16 div 16) @ [digitsHex ! (p div 16 mod 16)]"
    using assms by (intro positional_16) simp
  also have "p div 16 div 16 = p div 256" by (simp add: div_mult2_eq [symmetric])
  finally show ?thesis by (simp only: stored_pointer) simp
qed

text \<open>Any sequence of operators, for the statements of the log.\<close>

lemma put_all_items:
  assumes "fb_inv b" and "\<forall>i \<in> set is. item_good fmt i"
  obtains b' where "put_all (put_item fmt) b is = Inr b'" and "fb_inv b'"
    and "length (fb_buf b') = length (fb_buf b)"
  using stream.put_all_fitting [OF assms] by blast

section \<open>Properties\<close>

text \<open>
  C31. \<open>convert\<close>, which indexes a mirrored digit table with the possibly negative remainder,
  computes the ordinary decimal notation (a minus sign and the digits without leading
  zeros), for every integer including the most negative one, and reading the text gives the
  integer back.
\<close>

theorem convert_correct: "convert v = decimal v \<and> read_decimal (convert v) = v"
  by (simp add: convert_decimal read_decimal_decimal)

text \<open>
  \<open>convertHex\<close> produces at most 16 upper-case hexadecimal digits for a 64-bit value, and
  reading them in base 16 gives the value back.
\<close>

theorem convertHex_correct:
  assumes "p < 18446744073709551616"
  shows "length (convertHex p) \<le> 16 \<and> read_base 16 (convertHex p) = p"
  using length_convertHex [OF assms] read_positional [of digitsHex p] digit_value_hex
  by (simp add: convertHex_positional)

theorem convertHex_correct_witness: "read_base 16 (convertHex 48879) = 48879"
  using convertHex_correct [of 48879] by simp

text \<open>
  C32. The log stream never writes outside its buffer and, but for pointers, never cuts an item:
  after any sequence of \<open>operator<<\<close> calls with operands in the ranges of their types the text is, in order, that of exactly the items
  whose free space was there when their turn came, each followed by a blank; the others are
  dropped whole. Of an item that is not a pointer the whole text is stored; of a pointer,
  whose text is \<open>0x\<close> and its hexadecimal digits, all but the last two characters.
\<close>

theorem stream_items_whole:
  assumes "fb_inv b" and "\<forall>i \<in> set is. item_good fmt i"
  shows "\<exists>b' kept. put_all (put_item fmt) b is = Inr b' \<and> fb_inv b'
    \<and> length (fb_buf b') = length (fb_buf b) \<and> subseq kept is
    \<and> kept = fitting item_need (item_stored fmt) (length (fb_buf b) - length (fb_text b)) is
    \<and> fb_text b' = fb_text b @ concat (map (\<lambda>i. spaced
        (case i of Item_Pointer p \<Rightarrow> take (length (item_text fmt i) - 2) (item_text fmt i)
         | _ \<Rightarrow> item_text fmt i)) kept)"
proof -
  have "(case i of Item_Pointer p \<Rightarrow> take (length (item_text fmt i) - 2) (item_text fmt i)
      | _ \<Rightarrow> item_text fmt i) = item_stored fmt i" for i
    by (cases i) (simp_all add: Let_def)
  then show ?thesis
    using stream.put_all_fitting [OF assms] subseq_fitting by (simp del: item_stored.simps) blast
qed

definition sample_fmt :: "int \<Rightarrow> string" where
  "sample_fmt v = ''1.3''"

text \<open>
  In a buffer of 38 characters the number and the pointer (without its low byte) are
  stored, the floating-point number finds fewer than 32 free and is dropped, and the string
  is stored.
\<close>

theorem stream_items_whole_witness:
  "\<exists>b'. put_all (put_item sample_fmt) (new_fixed_buffer (replicate 38 NUL))
       [Item_Int 1, Item_Pointer 4660, Item_Double 0, Item_String ''abc''] = Inr b' \<and> fb_inv b'
    \<and> length (fb_buf b') = 38 \<and> fb_text b' = ''1 0x12 abc ''"
proof -
  let ?b = "new_fixed_buffer (replicate 38 NUL)"
  have b: "fb_inv ?b" "fb_text ?b = []" "length (fb_buf ?b) = 38"
    by (simp_all add: fb_inv_def new_fixed_buffer_def fb_text_def)
  have one: "decimal 1 = ''1''" and hex: "positional digitsHex 4660 = ''1234''"
    by (simp_all add: decimal_def positional.simps decDigits_def digitsHex_def)
  show ?thesis
    using stream_items_whole [of ?b "[Item_Int 1, Item_Pointer 4660, Item_Double 0, Item_String ''abc'']"
        sample_fmt] b
    by (simp add: int64_range_def sample_fmt_def one hex spaced_def Let_def)
qed

text \<open>
  When the free space covers what the items ask for, nothing is dropped: the text is
  exactly what is stored of the items, each followed by a blank.
\<close>

theorem stream_items_complete:
  assumes "fb_inv b" and "\<forall>i \<in> set is. item_good fmt i"
    and "length (fb_text b) + sum_list (map item_need is) \<le> length (fb_buf b)"
  shows "\<exists>b'. put_all (put_item fmt) b is = Inr b' \<and> fb_inv b'
    \<and> fb_text b' = fb_text b @ concat (map (\<lambda>i. spaced (item_stored fmt i)) is)"
  using stream.put_all_fits [OF assms] by blast

theorem stream_items_complete_witness:
  "\<exists>b'. put_all (put_item sample_fmt) (new_fixed_buffer (replicate 80 NUL))
       [Item_Int (- 5), Item_Double 0, Item_String ''abc''] = Inr b'
    \<and> fb_text b' = ''-5 1.3 abc ''"
proof -
  let ?b = "new_fixed_buffer (replicate 80 NUL)"
  have b: "fb_inv ?b" "fb_text ?b = []" "length (fb_buf ?b) = 80"
    by (simp_all add: fb_inv_def new_fixed_buffer_def fb_text_def)
  have five: "decimal (- 5) = ''-5''"
    by (simp add: decimal_def positional.simps decDigits_def)
  show ?thesis
    using stream_items_complete [OF b(1), of "[Item_Int (- 5), Item_Double 0, Item_String ''abc'']" sample_fmt] b
    by (auto simp: int64_range_def sample_fmt_def spaced_def five)
qed

text \<open>
  The pointer operator loses the last two hexadecimal digits: it advances the cursor by
  the number of digits only, not counting the prefix, so the text of a pointer of at least
  three digits is that of the pointer without its low byte (and the blank overwrites the
  last but one digit).
\<close>

theorem pointer_loses_low_byte:
  assumes "fb_inv b" and "256 \<le> p" and "p < 18446744073709551616" and "32 \<le> rest b"
  shows "\<exists>b'. put_pointer b p = Inr b'
    \<and> fb_text b' = fb_text b @ ''0x'' @ convertHex (p div 256) @ '' ''"
  using put_pointer_fits [OF assms(1,3,4), of undefined]
  unfolding stored_pointer_256 [OF assms(2)] by (auto simp: spaced_def)

theorem pointer_loses_low_byte_witness:
  "\<exists>b1 b2. put_pointer (new_fixed_buffer (replicate 40 NUL)) 4660 = Inr b1
    \<and> put_pointer (new_fixed_buffer (replicate 40 NUL)) 4779 = Inr b2
    \<and> fb_text b1 = ''0x12 '' \<and> fb_text b2 = ''0x12 ''"
proof -
  let ?b = "new_fixed_buffer (replicate 40 NUL)"
  have b: "fb_inv ?b" "fb_text ?b = []" "32 \<le> rest ?b"
    by (simp_all add: fb_inv_def new_fixed_buffer_def fb_text_def rest_def)
  have "convertHex 18 = ''12''"
    by (simp add: convertHex_positional positional.simps digitsHex_def)
  then show ?thesis
    using pointer_loses_low_byte [OF b(1) _ _ b(3), of 4660]
      pointer_loses_low_byte [OF b(1) _ _ b(3), of 4779] b(2) by auto
qed

end
