(* ===== verification/Inet_Address.thy ===== *)
theory Inet_Address
  imports Byte_Order Log_Stream
begin

text \<open>
  \<open>net/INetAddress.h\<close> and \<open>net/INetAddress.cpp\<close>: an IPv4 address and port as the socket
  calls take them, in network byte order, on a host of either order (the argument \<open>e\<close>).
  \<open>inet_pton\<close> and \<open>inet_ntop\<close> are parameters between texts and stored addresses.
\<close>

section \<open>Definitions\<close>

record sockaddr_in =
  sin_family :: int
  sin_port :: "16 word"
  s_addr :: "32 word"

definition AF_INET :: int where
  "AF_INET = 2"

definition INADDR_ANY :: "32 word" where
  "INADDR_ANY = 0"

definition htons :: "endian \<Rightarrow> 16 word \<Rightarrow> 16 word" where
  "htons e p = htobe e p"

definition ntohs :: "endian \<Rightarrow> 16 word \<Rightarrow> 16 word" where
  "ntohs e p = betoh e p"

text \<open>
  The constructor from text leaves the members it does not set uninitialised; a text that
  is no address fails the assertion, or leaves the address so as well when assertions are
  compiled out.
\<close>

definition addr_of_ip ::
  "(string \<Rightarrow> (32 word) option) \<Rightarrow> endian \<Rightarrow> bool \<Rightarrow> sockaddr_in \<Rightarrow> string \<Rightarrow> 16 word \<Rightarrow> sockaddr_in outcome" where
  "addr_of_ip inet_pton e ndebug uninit ip p =
     (let a = uninit\<lparr>sin_family := AF_INET, sin_port := htons e p\<rparr>
      in case inet_pton ip of
           Some v \<Rightarrow> Inr (a\<lparr>s_addr := v\<rparr>)
         | None \<Rightarrow> if ndebug then Inr a else Inl Aborted)"

definition addr_of_port :: "endian \<Rightarrow> 16 word \<Rightarrow> sockaddr_in" where
  "addr_of_port e p = \<lparr>sin_family = AF_INET, sin_port = htons e p, s_addr = INADDR_ANY\<rparr>"

definition addr_of_sockaddr :: "sockaddr_in \<Rightarrow> sockaddr_in" where
  [simp]: "addr_of_sockaddr a = a"

definition setSockAddr :: "sockaddr_in \<Rightarrow> sockaddr_in \<Rightarrow> sockaddr_in" where
  [simp]: "setSockAddr a this_addr = a"

definition addr_family :: "sockaddr_in \<Rightarrow> int" where
  [simp]: "addr_family a = sin_family a"

definition ipNetEndian :: "sockaddr_in \<Rightarrow> 32 word" where
  [simp]: "ipNetEndian a = s_addr a"

definition portNetEndian :: "sockaddr_in \<Rightarrow> 16 word" where
  [simp]: "portNetEndian a = sin_port a"

definition addr_eq :: "sockaddr_in \<Rightarrow> sockaddr_in \<Rightarrow> bool" where
  "addr_eq a b \<longleftrightarrow>
     (if addr_family a = addr_family b \<and> addr_family a = AF_INET
      then sin_port a = sin_port b \<and> s_addr a = s_addr b else False)"

definition addr_port :: "endian \<Rightarrow> sockaddr_in \<Rightarrow> 16 word" where
  "addr_port e a = ntohs e (sin_port a)"

definition addr_ip :: "(32 word \<Rightarrow> string) \<Rightarrow> sockaddr_in \<Rightarrow> string" where
  "addr_ip inet_ntop a = take 63 (inet_ntop (s_addr a))"

definition addr_ipPort :: "(32 word \<Rightarrow> string) \<Rightarrow> endian \<Rightarrow> sockaddr_in \<Rightarrow> string" where
  "addr_ipPort inet_ntop e a = addr_ip inet_ntop a @ take 15 ('':'' @ decimal (uint (addr_port e a)))"

section \<open>Lemmas\<close>

lemma port_roundtrip [simp]: "ntohs e (htons e p) = p"
  by (simp add: ntohs_def htons_def betoh_htobe)

lemma htons_inject [simp]: "htons e p = htons e q \<longleftrightarrow> p = q"
  by (metis port_roundtrip)

lemma htons_memory [simp]: "mem_of e (htons e p) = bytes_be p"
  by (simp add: htons_def)

lemma positional_length:
  "n < 10 ^ k \<Longrightarrow> 0 < k \<Longrightarrow> length (positional decDigits n) \<le> k"
proof (induction k arbitrary: n)
  case 0
  then show ?case by simp
next
  case (Suc k)
  have l: "length decDigits = 10" by (simp add: decDigits_def)
  show ?case
  proof (cases "n < 10")
    case True
    then show ?thesis using l by (subst positional.simps) simp
  next
    case False
    then have "0 < k" using Suc.prems(1) by (cases k) auto
    moreover have "n div 10 < 10 ^ k" using Suc.prems(1) by (simp add: less_mult_imp_div_less mult.commute)
    ultimately have "length (positional decDigits (n div 10)) \<le> k" using Suc.IH by blast
    then show ?thesis using False l by (subst positional.simps) simp
  qed
qed

lemma decimal_port_length: "length (decimal (uint (p :: 16 word))) \<le> 5"
proof -
  have "unat p < 65536" using unsigned_less [of p, where ?'a = nat] by simp
  then have "nat (uint p) < 10 ^ 5" by simp
  from positional_length [OF this] show ?thesis by (simp add: decimal_def)
qed

section \<open>Properties\<close>

text \<open>
  Addresses: whatever the host's byte order, the port lies in memory most significant
  byte first and \<open>port()\<close> returns it; the text of an address is its IP, a colon and the
  port in decimal, never cut; and two addresses made from texts are equal exactly when
  their ports and the parsed addresses are, whatever the uninitialised members hold.
\<close>

theorem address_port:
  assumes "addr_of_ip pton e ndebug u1 ip1 p1 = Inr a1" and "addr_of_ip pton e ndebug u2 ip2 p2 = Inr a2"
    and "pton ip1 = Some v1" and "pton ip2 = Some v2" and "length (ntop v1) < 64"
  shows "addr_port e a1 = p1 \<and> mem_of e (sin_port a1) = bytes_be p1
    \<and> addr_ipPort ntop e a1 = ntop v1 @ '':'' @ decimal (uint p1)
    \<and> (addr_eq a1 a2 \<longleftrightarrow> p1 = p2 \<and> v1 = v2)"
  using assms decimal_port_length [of p1]
  by (auto simp: addr_of_ip_def addr_port_def addr_ipPort_def addr_ip_def addr_eq_def Let_def)

definition example_pton :: "string \<Rightarrow> (32 word) option" where
  "example_pton s = (if s = ''1.2.3.4'' then Some 0x04030201 else None)"

definition example_ntop :: "32 word \<Rightarrow> string" where
  "example_ntop v = (if v = 0x04030201 then ''1.2.3.4'' else [])"

definition example_addr :: sockaddr_in where
  "example_addr = \<lparr>sin_family = AF_INET, sin_port = htons Little 9527, s_addr = 0x04030201\<rparr>"

theorem address_port_witness:
  "addr_ipPort example_ntop Little example_addr = ''1.2.3.4:9527''"
proof -
  have "addr_of_ip example_pton Little False (addr_of_port Little 0) ''1.2.3.4'' 9527 = Inr example_addr"
    by (simp add: addr_of_ip_def example_pton_def example_addr_def addr_of_port_def Let_def)
  from address_port [OF this this, of "0x04030201" "0x04030201" example_ntop]
  have "addr_ipPort example_ntop Little example_addr = ''1.2.3.4'' @ '':'' @ decimal 9527"
    by (simp add: example_pton_def example_ntop_def)
  then show ?thesis by (simp add: decimal_def decDigits_def positional.simps)
qed

end
