(* ===== verification/Tcp_Connection.thy ===== *)
theory Tcp_Connection
  imports Buffer Epoller Inet_Address
begin

text \<open>
  \<open>net/TcpConnection.h\<close> and \<open>net/TcpConnection.cpp\<close>: one connection, its two buffers, its
  channel in the poller and the callbacks of its user. The kernel's answers to \<open>write\<close> and
  \<open>readv\<close> are arguments; the bytes it took are recorded on the wire. A call of a user's
  function is an entry of the trace, and what that function does is a later operation; the
  call of one that was never set is a \<open>bad_function_call\<close>.
\<close>

section \<open>Definitions\<close>

subsection \<open>The object and its surroundings\<close>

datatype conn_state = CONNECTED | DISCONNECTED

text \<open>What the channel's callbacks are bound to.\<close>

datatype conn_callback = Conn_handleRead | Conn_handleWrite | Conn_handleClose

record tcp_conn =
  c_addr :: nat
  c_localAddr :: sockaddr_in
  c_peerAddr :: sockaddr_in
  c_channel :: "conn_callback channel"
  c_inputBuffer :: buffer
  c_outputBuffer :: buffer
  c_highWaterMark :: int
  c_state :: conn_state
  c_has_connection :: bool
  c_has_message :: bool
  c_has_writeComplete :: bool
  c_has_highWaterMark :: bool
  c_has_close :: bool

datatype tcp_event =
    Ev_Connection conn_state
  | Ev_Message "byte list"
  | Ev_WriteComplete
  | Ev_HighWaterMark int
  | Ev_Close

record tcp_world =
  tw_conn :: tcp_conn
  tw_epoller :: epoller
  tw_wire :: "byte list"
  tw_trace :: "tcp_event list"

text \<open>
  The constructor. \<open>addr\<close> is where the channel is allocated; the constructor leaves
  \<open>_highWaterMark\<close> uninitialised, so its value is an argument.
\<close>

definition tcp_ctor :: "nat \<Rightarrow> int \<Rightarrow> sockaddr_in \<Rightarrow> sockaddr_in \<Rightarrow> int \<Rightarrow> tcp_conn" where
  "tcp_ctor addr fd localAddr peerAddr uninit =
     \<lparr>c_addr = addr, c_localAddr = localAddr, c_peerAddr = peerAddr,
      c_channel = channel_setCloseCallback Conn_handleClose (channel_setWriteCallback Conn_handleWrite
         (channel_setReadCallback Conn_handleRead (new_channel fd))),
      c_inputBuffer = new_buffer 1024, c_outputBuffer = new_buffer 1024,
      c_highWaterMark = uninit, c_state = DISCONNECTED,
      c_has_connection = False, c_has_message = False, c_has_writeComplete = False,
      c_has_highWaterMark = False, c_has_close = False\<rparr>"

text \<open>The setters: \<open>given\<close> tells whether the \<open>std::function\<close> holds a function.\<close>

definition conn_setConnectionCallback :: "bool \<Rightarrow> tcp_conn \<Rightarrow> tcp_conn" where
  [simp]: "conn_setConnectionCallback given c = c\<lparr>c_has_connection := given\<rparr>"

definition conn_setMessageCallback :: "bool \<Rightarrow> tcp_conn \<Rightarrow> tcp_conn" where
  [simp]: "conn_setMessageCallback given c = c\<lparr>c_has_message := given\<rparr>"

definition conn_setWriteCompleteCallback :: "bool \<Rightarrow> tcp_conn \<Rightarrow> tcp_conn" where
  [simp]: "conn_setWriteCompleteCallback given c = c\<lparr>c_has_writeComplete := given\<rparr>"

definition conn_setHighWaterMarkCallback :: "bool \<Rightarrow> tcp_conn \<Rightarrow> tcp_conn" where
  [simp]: "conn_setHighWaterMarkCallback given c = c\<lparr>c_has_highWaterMark := given\<rparr>"

definition conn_setCloseCallback :: "bool \<Rightarrow> tcp_conn \<Rightarrow> tcp_conn" where
  [simp]: "conn_setCloseCallback given c = c\<lparr>c_has_close := given\<rparr>"

definition conn_fd :: "tcp_conn \<Rightarrow> int" where
  "conn_fd c = ch_fd (c_channel c)"

definition isConnected :: "tcp_conn \<Rightarrow> bool" where
  "isConnected c \<longleftrightarrow> c_state c = CONNECTED"

definition fire :: "bool \<Rightarrow> tcp_event \<Rightarrow> tcp_world \<Rightarrow> tcp_world outcome" where
  "fire is_set ev w =
     (if is_set then Inr (w\<lparr>tw_trace := tw_trace w @ [ev]\<rparr>) else Inl Bad_Function_Call)"

definition on_conn :: "(tcp_conn \<Rightarrow> tcp_conn) \<Rightarrow> tcp_world \<Rightarrow> tcp_world" where
  "on_conn f w = w\<lparr>tw_conn := f (tw_conn w)\<rparr>"

text \<open>An operation of the poller on the connection's channel.\<close>

definition on_channel ::
  "(nat \<Rightarrow> conn_callback channel \<Rightarrow> epoller \<Rightarrow> conn_callback channel \<times> epoller)
    \<Rightarrow> tcp_world \<Rightarrow> tcp_world" where
  "on_channel f w =
     (let (ch, ep) = f (c_addr (tw_conn w)) (c_channel (tw_conn w)) (tw_epoller w)
      in w\<lparr>tw_conn := (tw_conn w)\<lparr>c_channel := ch\<rparr>, tw_epoller := ep\<rparr>)"

text \<open>The bytes from \<open>peek()\<close> on, as many as are readable, as a call of the kernel sees them.\<close>

definition readable_bytes :: "buffer \<Rightarrow> byte list outcome" where
  "readable_bytes b = read_mem b (peek b) (to_size_t (readableBytes b))"

subsection \<open>Sending\<close>

datatype write_result = Wrote nat | Write_Errno int

definition EPIPE :: int where "EPIPE = 32"
definition ECONNRESET :: int where "ECONNRESET = 104"

text \<open>\<open>write(fd, data, size)\<close>: its value, and the world with what the kernel took.\<close>

definition kernel_write :: "write_result \<Rightarrow> byte list \<Rightarrow> tcp_world \<Rightarrow> int \<times> tcp_world" where
  "kernel_write wr data w =
     (case wr of
        Wrote n \<Rightarrow> (int n, w\<lparr>tw_wire := tw_wire w @ take n data\<rparr>)
      | Write_Errno _ \<Rightarrow> (- 1, w))"

definition broken :: "write_result \<Rightarrow> bool" where
  "broken wr \<longleftrightarrow> wr = Write_Errno EPIPE \<or> wr = Write_Errno ECONNRESET"

text \<open>
  The first half of \<open>send\<close>: write at once if nothing is queued. The result is the locals
  \<open>written\<close>, \<open>remain\<close> and \<open>hasError\<close>.
\<close>

definition send_direct ::
  "write_result \<Rightarrow> byte list \<Rightarrow> int \<Rightarrow> tcp_world \<Rightarrow> (int \<times> int \<times> bool \<times> tcp_world) outcome" where
  "send_direct wr message len w =
     (let c = tw_conn w in
      if \<not> hasWrite (c_channel c) \<and> readableBytes (c_outputBuffer c) = 0 then
        if len < 0 \<or> int (length message) < len then Inl Out_Of_Bounds
        else
          (let (written, w1) = kernel_write wr (take (nat len) message) w in
           if written \<ge> 0 then
             (let remain = len - written in
              bind_ok (if remain = 0 \<and> c_has_writeComplete c
                       then fire (c_has_writeComplete c) Ev_WriteComplete w1 else Inr w1) (\<lambda>w2.
                Inr (written, remain, False, w2)))
           else Inr (written, 0, broken wr, w1))
      else Inr (0, 0, False, w))"

text \<open>The second half: queue what remains and watch for writability.\<close>

definition send_queue :: "byte list \<Rightarrow> int \<Rightarrow> int \<Rightarrow> bool \<Rightarrow> tcp_world \<Rightarrow> tcp_world outcome" where
  "send_queue message written remain hasError w =
     (let c = tw_conn w in
      if \<not> hasError \<and> remain > 0 then
        (let oldLen = to_size_t (readableBytes (c_outputBuffer c)) in
         bind_ok (if oldLen + remain > c_highWaterMark c \<and> c_highWaterMark c \<noteq> 0
                  then fire (c_has_highWaterMark c) (Ev_HighWaterMark (oldLen + remain)) w
                  else Inr w) (\<lambda>w1.
         bind_ok (append_bytes (c_outputBuffer (tw_conn w1))
                    (take (nat remain) (drop (nat written) message))) (\<lambda>out.
           let w2 = on_conn (\<lambda>c. c\<lparr>c_outputBuffer := out\<rparr>) w1
           in Inr (if \<not> hasWrite (c_channel (tw_conn w2)) then on_channel enableWriting w2 else w2))))
      else Inr w)"

definition send_bytes :: "write_result \<Rightarrow> byte list \<Rightarrow> int \<Rightarrow> tcp_world \<Rightarrow> tcp_world outcome" where
  "send_bytes wr message len w =
     bind_ok (send_direct wr message len w) (\<lambda>(written, remain, hasError, w1).
       send_queue message written remain hasError w1)"

definition send_string :: "write_result \<Rightarrow> byte list \<Rightarrow> tcp_world \<Rightarrow> tcp_world outcome" where
  "send_string wr message w = send_bytes wr message (to_int32 (int (length message))) w"

subsection \<open>Life cycle\<close>

definition established :: "tcp_world \<Rightarrow> tcp_world outcome" where
  "established w =
     (let w1 = on_conn (\<lambda>c. c\<lparr>c_state := CONNECTED\<rparr>) (on_channel enableReading w)
      in fire (c_has_connection (tw_conn w1)) (Ev_Connection CONNECTED) w1)"

definition disconnect :: "tcp_world \<Rightarrow> tcp_world outcome" where
  "disconnect w =
     (let w1 = on_conn (\<lambda>c. c\<lparr>c_channel := disableAll (c_channel c), c_state := DISCONNECTED\<rparr>) w
      in fire (c_has_connection (tw_conn w1)) (Ev_Connection DISCONNECTED) w1)"

definition destory :: "tcp_world \<Rightarrow> tcp_world outcome" where
  "destory w = bind_ok (disconnect w) (\<lambda>w1. Inr (on_channel removeChannel w1))"

definition conn_handleClose :: "tcp_world \<Rightarrow> tcp_world outcome" where
  "conn_handleClose w =
     bind_ok (disconnect w) (\<lambda>w1. fire (c_has_close (tw_conn w1)) Ev_Close w1)"

subsection \<open>Events\<close>

definition conn_handleRead :: "(int \<Rightarrow> read_result) \<Rightarrow> tcp_world \<Rightarrow> tcp_world outcome" where
  "conn_handleRead kernel_readv w =
     bind_ok (readFromFd kernel_readv (c_inputBuffer (tw_conn w))) (\<lambda>(n, err, b).
       let w1 = on_conn (\<lambda>c. c\<lparr>c_inputBuffer := b\<rparr>) w
       in if n > 0 then
            bind_ok (readable_bytes b) (\<lambda>bs.
              fire (c_has_message (tw_conn w1)) (Ev_Message bs) w1)
          else if n = 0 then conn_handleClose w1
          else Inr w1)"

definition conn_handleWrite :: "write_result \<Rightarrow> tcp_world \<Rightarrow> tcp_world outcome" where
  "conn_handleWrite wr w =
     (let c = tw_conn w in
      if \<not> hasWrite (c_channel c) then Inr w
      else
        bind_ok (readable_bytes (c_outputBuffer c)) (\<lambda>data.
          let (n, w1) = kernel_write wr data w in
          if n \<le> 0 then Inr w1
          else
            (let out = retrieve (c_outputBuffer c) n;
                 w2 = on_conn (\<lambda>c. c\<lparr>c_outputBuffer := out\<rparr>) w1
             in if readableBytes out = 0 then
                  (let w3 = on_channel disableWriting w2
                   in if c_has_writeComplete c
                      then fire (c_has_writeComplete c) Ev_WriteComplete w3 else Inr w3)
                else Inr w2)))"

section \<open>Lemmas\<close>

text \<open>
  A connection at work: well-formed buffers, the kernel's entry exact, nothing watched while
  unregistered, and writability watched exactly while output is queued.
\<close>

definition tcp_inv :: "tcp_world \<Rightarrow> bool" where
  "tcp_inv w \<longleftrightarrow>
     (let c = tw_conn w; ch = c_channel c in
      buf_inv (c_inputBuffer c) \<and> buf_inv (c_outputBuffer c)
      \<and> exact (c_addr c) ch (tw_epoller w) \<and> \<not> ep_deny (tw_epoller w)
      \<and> (ch_state ch \<noteq> ADDED \<longrightarrow> isNoneEvent ch)
      \<and> (hasWrite ch \<longleftrightarrow> content (c_outputBuffer c) \<noteq> []))"

abbreviation outq :: "tcp_world \<Rightarrow> byte list" where
  "outq w \<equiv> content (c_outputBuffer (tw_conn w))"

abbreviation inq :: "tcp_world \<Rightarrow> byte list" where
  "inq w \<equiv> content (c_inputBuffer (tw_conn w))"

text \<open>What the kernel may answer to a \<open>write\<close> of \<open>n\<close> bytes.\<close>

definition write_within :: "write_result \<Rightarrow> nat \<Rightarrow> bool" where
  "write_within wr n \<longleftrightarrow> (\<forall>k. wr = Wrote k \<longrightarrow> k \<le> n)"

definition high_water_safe :: "tcp_conn \<Rightarrow> bool" where
  "high_water_safe c \<longleftrightarrow> c_highWaterMark c = 0 \<or> c_has_highWaterMark c"

text \<open>What the operations on data leave alone.\<close>

definition same_setup :: "tcp_conn \<Rightarrow> tcp_conn \<Rightarrow> bool" where
  "same_setup c' c \<longleftrightarrow> c_addr c' = c_addr c \<and> c_localAddr c' = c_localAddr c
     \<and> c_peerAddr c' = c_peerAddr c \<and> c_highWaterMark c' = c_highWaterMark c
     \<and> c_has_connection c' = c_has_connection c \<and> c_has_message c' = c_has_message c
     \<and> c_has_writeComplete c' = c_has_writeComplete c
     \<and> c_has_highWaterMark c' = c_has_highWaterMark c \<and> c_has_close c' = c_has_close c"

lemma same_setup_refl [simp]: "same_setup c c"
  by (simp add: same_setup_def)

lemma high_water_same: "same_setup c' c \<Longrightarrow> high_water_safe c \<Longrightarrow> high_water_safe c'"
  by (simp add: same_setup_def high_water_safe_def)

lemma readable_bytes_ok:
  assumes "buf_inv b"
  shows "readable_bytes b = Inr (content b)"
proof -
  have "0 \<le> readableBytes b" "readableBytes b < 2147483648"
    using assms buf_invD [of b] by (simp_all add: readableBytes_eq)
  then have "to_size_t (readableBytes b) = readableBytes b" by (simp add: cint)
  then show ?thesis
    using assms by (simp add: readable_bytes_def peek_def readableBytes_eq read_mem_content)
qed

lemma readable_0: "buf_inv b \<Longrightarrow> readableBytes b = 0 \<longleftrightarrow> content b = []"
  by (rule buf.avail_0)

text \<open>A switch of the channel followed by the update of the poller.\<close>

lemma on_channel_update:
  assumes "\<And>p ch ep. f p ch ep = updateChannel p (g ch) ep"
    and "exact (c_addr (tw_conn w)) (c_channel (tw_conn w)) (tw_epoller w)"
    and "synced (c_addr (tw_conn w)) (g (c_channel (tw_conn w))) (tw_epoller w)"
    and "\<not> ep_deny (tw_epoller w)"
  obtains ch ep where
    "on_channel f w = w\<lparr>tw_conn := (tw_conn w)\<lparr>c_channel := ch\<rparr>, tw_epoller := ep\<rparr>"
    and "exact (c_addr (tw_conn w)) ch ep" and "\<not> ep_deny ep"
    and "hasRead ch = hasRead (g (c_channel (tw_conn w)))"
    and "hasWrite ch = hasWrite (g (c_channel (tw_conn w)))"
    and "ch_state ch \<noteq> ADDED \<longrightarrow> isNoneEvent ch"
proof -
  let ?p = "c_addr (tw_conn w)" and ?g = "g (c_channel (tw_conn w))"
  obtain ch ep where u: "updateChannel ?p ?g (tw_epoller w) = (ch, ep)" by fastforce
  have "ch_state ch \<noteq> ADDED \<longrightarrow> isNoneEvent ch"
    using u by (auto simp: updateChannel_def isNoneEvent_def Let_def split: if_splits)
      (metis channel_state.exhaust)
  moreover have "on_channel f w = w\<lparr>tw_conn := (tw_conn w)\<lparr>c_channel := ch\<rparr>, tw_epoller := ep\<rparr>"
    using u assms(1) by (simp add: on_channel_def)
  ultimately show thesis
    using that updateChannel_exact [OF assms(3,4) u] updateChannel_keeps_hd [OF u] by blast
qed

lemmas enableWriting_update =
  on_channel_update [where f = enableWriting and g = set_writing, OF enableWriting_def]
lemmas disableWriting_update =
  on_channel_update [where f = disableWriting and g = clear_writing, OF disableWriting_def]
lemmas enableReading_update =
  on_channel_update [where f = enableReading and g = set_reading, OF enableReading_def]

lemma tcp_invD:
  assumes "tcp_inv w"
  shows "buf_inv (c_inputBuffer (tw_conn w))" "buf_inv (c_outputBuffer (tw_conn w))"
    "exact (c_addr (tw_conn w)) (c_channel (tw_conn w)) (tw_epoller w)"
    "\<not> ep_deny (tw_epoller w)" "hasWrite (c_channel (tw_conn w)) \<longleftrightarrow> outq w \<noteq> []"
  using assms by (simp_all add: tcp_inv_def Let_def)

lemma fire_guarded:
  assumes "b \<longrightarrow> is_set"
  obtains w1 where "(if b then fire is_set ev w else Inr w) = Inr w1" and "tw_conn w1 = tw_conn w"
    and "tw_epoller w1 = tw_epoller w" and "tw_wire w1 = tw_wire w"
    and "tw_trace w1 = tw_trace w @ (if b then [ev] else [])"
proof (rule that [of "if b then w\<lparr>tw_trace := tw_trace w @ [ev]\<rparr> else w"])
qed (use assms in \<open>auto simp: fire_def\<close>)

text \<open>
  When the high-water callback is called it is set; a connection whose setup is safe passes
  whatever is queued.
\<close>

definition mark_ok :: "tcp_conn \<Rightarrow> int \<Rightarrow> bool" where
  "mark_ok c n \<longleftrightarrow> (n > c_highWaterMark c \<and> c_highWaterMark c \<noteq> 0 \<longrightarrow> c_has_highWaterMark c)"

lemma mark_safe: "high_water_safe c \<Longrightarrow> mark_ok c n"
  by (auto simp: high_water_safe_def mark_ok_def)

text \<open>Queueing the tail of a message behind what is queued already.\<close>

lemma send_queue_mark:
  assumes "tcp_inv w" and "mark_ok (tw_conn w) (to_size_t (readableBytes (c_outputBuffer (tw_conn w))) + int r)"
    and "0 < r" and "k + r = length m" and "buf_room (c_outputBuffer (tw_conn w)) r"
  shows "\<exists>w'. send_queue m (int k) (int r) False w = Inr w' \<and> tcp_inv w'
    \<and> same_setup (tw_conn w') (tw_conn w)
    \<and> outq w' = outq w @ drop k m \<and> tw_wire w' = tw_wire w"
proof -
  let ?c = "tw_conn w"
  note inv = tcp_invD [OF assms(1)]
  let ?n = "to_size_t (readableBytes (c_outputBuffer ?c)) + int r"
  have "?n > c_highWaterMark ?c \<and> c_highWaterMark ?c \<noteq> 0 \<longrightarrow> c_has_highWaterMark ?c"
    using assms(2) by (simp add: mark_ok_def)
  then obtain w1 where w1: "(if ?n > c_highWaterMark ?c \<and> c_highWaterMark ?c \<noteq> 0
      then fire (c_has_highWaterMark ?c) (Ev_HighWaterMark ?n) w else Inr w) = Inr w1"
    and same: "tw_conn w1 = ?c" "tw_epoller w1 = tw_epoller w" "tw_wire w1 = tw_wire w"
    by (rule fire_guarded [where ev = "Ev_HighWaterMark ?n" and w = w]) blast
  have d: "take r (drop k m) = drop k m" and l: "length (drop k m) = r" using assms(4) by auto
  from buf.put_law [OF inv(2), of "drop k m"] assms(5) l
  obtain out where out: "append_bytes (c_outputBuffer ?c) (drop k m) = Inr out" "buf_inv out"
      "content out = outq w @ drop k m" by auto
  let ?w2 = "on_conn (\<lambda>c. c\<lparr>c_outputBuffer := out\<rparr>) w1"
  let ?on = "if \<not> hasWrite (c_channel ?c) then on_channel enableWriting ?w2 else ?w2"
  have "\<exists>ch ep. ?on = ?w2\<lparr>tw_conn := (tw_conn ?w2)\<lparr>c_channel := ch\<rparr>, tw_epoller := ep\<rparr>
      \<and> exact (c_addr ?c) ch ep \<and> \<not> ep_deny ep \<and> hasWrite ch \<and> (ch_state ch \<noteq> ADDED \<longrightarrow> isNoneEvent ch)"
  proof (cases "hasWrite (c_channel ?c)")
    case True
    have "ch_state (c_channel ?c) \<noteq> ADDED \<longrightarrow> isNoneEvent (c_channel ?c)"
      using assms(1) by (simp add: tcp_inv_def Let_def)
    then show ?thesis using True inv(3,4) same
      by (intro exI [of _ "c_channel ?c"] exI [of _ "tw_epoller w"]) (simp add: on_conn_def)
  next
    case False
    from inv(3,4) obtain ch ep where "on_channel enableWriting ?w2 =
        ?w2\<lparr>tw_conn := (tw_conn ?w2)\<lparr>c_channel := ch\<rparr>, tw_epoller := ep\<rparr>"
      and "exact (c_addr ?c) ch ep" "\<not> ep_deny ep" "hasWrite ch" "ch_state ch \<noteq> ADDED \<longrightarrow> isNoneEvent ch"
      using enableWriting_update [of ?w2 thesis] same by (auto simp: on_conn_def intro: exact_synced)
    with False show ?thesis by (intro exI [of _ ch] exI [of _ ep]) simp
  qed
  then obtain ch ep where u: "?on = ?w2\<lparr>tw_conn := (tw_conn ?w2)\<lparr>c_channel := ch\<rparr>, tw_epoller := ep\<rparr>"
    and x: "exact (c_addr ?c) ch ep" "\<not> ep_deny ep" "hasWrite ch" "ch_state ch \<noteq> ADDED \<longrightarrow> isNoneEvent ch"
    by blast
  let ?w3 = "w1\<lparr>tw_conn := ?c\<lparr>c_outputBuffer := out, c_channel := ch\<rparr>, tw_epoller := ep\<rparr>"
  have "send_queue m (int k) (int r) False w = Inr ?on"
    using w1 out(1) same assms(3) d
    by (cases "hasWrite (c_channel ?c)") (simp_all add: send_queue_def Let_def on_conn_def split del: if_split)
  also have "?on = ?w3" unfolding u using same by (simp add: on_conn_def)
  finally have "send_queue m (int k) (int r) False w = Inr ?w3" .
  moreover have "tcp_inv ?w3"
    using x inv(1) out assms(3) l by (auto simp: tcp_inv_def Let_def)
  moreover have "outq ?w3 = outq w @ drop k m" and "tw_wire ?w3 = tw_wire w"
    and "same_setup (tw_conn ?w3) (tw_conn w)"
    using out same by (simp_all add: same_setup_def)
  ultimately show ?thesis by blast
qed

lemma send_queue_ok:
  assumes "tcp_inv w" and "high_water_safe (tw_conn w)"
    and "0 < r" and "k + r = length m" and "buf_room (c_outputBuffer (tw_conn w)) r"
  shows "\<exists>w'. send_queue m (int k) (int r) False w = Inr w' \<and> tcp_inv w'
    \<and> same_setup (tw_conn w') (tw_conn w)
    \<and> outq w' = outq w @ drop k m \<and> tw_wire w' = tw_wire w"
  by (rule send_queue_mark [OF assms(1) mark_safe [OF assms(2)] assms(3-5)])

lemma kernel_write_conn [simp]:
  "kernel_write wr d w = (n, w1) \<Longrightarrow> tw_conn w1 = tw_conn w \<and> tw_epoller w1 = tw_epoller w"
  by (auto simp: kernel_write_def split: write_result.splits)

lemma tcp_inv_cong:
  "tw_conn w1 = tw_conn w \<Longrightarrow> tw_epoller w1 = tw_epoller w \<Longrightarrow> tcp_inv w1 = tcp_inv w"
  by (simp add: tcp_inv_def)

lemma send_direct_idle:
  assumes "tcp_inv w" and "outq w = []" and "0 \<le> len" and "len \<le> int (length m)"
  shows "send_direct wr m len w =
    (case wr of
       Wrote n \<Rightarrow>
         Inr (int n, len - int n, False,
           w\<lparr>tw_wire := tw_wire w @ take n (take (nat len) m),
             tw_trace := tw_trace w
               @ (if len = int n \<and> c_has_writeComplete (tw_conn w) then [Ev_WriteComplete] else [])\<rparr>)
     | Write_Errno e \<Rightarrow> Inr (- 1, 0, broken wr, w))"
proof -
  have "\<not> hasWrite (c_channel (tw_conn w))" "readableBytes (c_outputBuffer (tw_conn w)) = 0"
    using assms(1,2) tcp_invD [OF assms(1)] by (simp_all add: readable_0)
  then show ?thesis
    using assms(3,4)
    by (cases wr) (auto simp: send_direct_def kernel_write_def fire_def)
qed

lemma send_direct_busy:
  assumes "tcp_inv w" and "outq w \<noteq> []"
  shows "send_direct wr m len w = Inr (0, 0, False, w)"
  using assms tcp_invD [OF assms(1)] by (simp add: send_direct_def)

lemma send_queue_nothing: "r \<le> 0 \<Longrightarrow> send_queue m k r e w = Inr w"
  by (simp add: send_queue_def)

text \<open>What \<open>send\<close> accepts of a message: all of it or nothing.\<close>

definition accepts :: "write_result \<Rightarrow> byte list \<Rightarrow> tcp_world \<Rightarrow> byte list" where
  "accepts wr m w =
     (if outq w = [] then (case wr of Wrote _ \<Rightarrow> m | Write_Errno _ \<Rightarrow> []) else [])"

text \<open>What the kernel gets of it at once.\<close>

definition takes :: "write_result \<Rightarrow> byte list \<Rightarrow> tcp_world \<Rightarrow> byte list" where
  "takes wr m w =
     (if outq w = [] then (case wr of Wrote k \<Rightarrow> take k m | Write_Errno _ \<Rightarrow> []) else [])"

lemma send_mark:
  assumes "tcp_inv w" and "\<And>k. outq w = [] \<Longrightarrow> wr = Wrote k \<Longrightarrow> k < length m \<Longrightarrow> mark_ok (tw_conn w) (int (length m - k))"
    and "int (length m) < 2147483648"
    and "write_within wr (length m)" and "buf_room (c_outputBuffer (tw_conn w)) (length m)"
  shows "\<exists>w'. send_string wr m w = Inr w' \<and> tcp_inv w'
    \<and> same_setup (tw_conn w') (tw_conn w)
    \<and> tw_wire w' @ outq w' = tw_wire w @ outq w @ accepts wr m w
    \<and> tw_wire w' = tw_wire w @ takes wr m w"
proof (cases "outq w = []")
  case False
  then show ?thesis
    using assms(1) send_direct_busy [OF assms(1) False]
    by (simp add: send_string_def send_bytes_def send_queue_nothing accepts_def takes_def)
next
  case True
  have len: "to_int32 (int (length m)) = int (length m)" using assms(3) by (simp add: cint)
  note d = send_direct_idle [OF assms(1) True, of "int (length m)" m wr]
  show ?thesis
  proof (cases wr)
    case (Write_Errno e)
    then show ?thesis
      using d assms(1) len True by (simp add: send_string_def send_bytes_def send_queue_nothing accepts_def takes_def)
  next
    case (Wrote k)
    then have k: "k \<le> length m" using assms(4) by (simp add: write_within_def)
    let ?w = "w\<lparr>tw_wire := tw_wire w @ take k m,
      tw_trace := tw_trace w @ (if length m = k \<and> c_has_writeComplete (tw_conn w) then [Ev_WriteComplete] else [])\<rparr>"
    have s: "send_string wr m w = send_queue m (int k) (int (length m - k)) False ?w"
      using d Wrote k len by (simp add: send_string_def send_bytes_def)
    have inv: "tcp_inv ?w" using assms(1) by (simp add: tcp_inv_def)
    show ?thesis
    proof (cases "k = length m")
      case True
      then show ?thesis
        using s inv Wrote \<open>outq w = []\<close> by (simp add: send_queue_nothing accepts_def takes_def)
    next
      case False
      have "buf_room (c_outputBuffer (tw_conn ?w)) (length m - k)"
        using assms(5) by (simp add: buf_room_def)
      moreover have "readableBytes (c_outputBuffer (tw_conn w)) = 0"
        using True tcp_invD(2) [OF assms(1)] by (simp add: readable_0)
      then have "mark_ok (tw_conn ?w)
          (to_size_t (readableBytes (c_outputBuffer (tw_conn ?w))) + int (length m - k))"
        using assms(2) [OF True Wrote] k False by (simp add: to_size_t_def)
      ultimately obtain w' where "send_queue m (int k) (int (length m - k)) False ?w = Inr w'" "tcp_inv w'"
          "same_setup (tw_conn w') (tw_conn w)" "outq w' = drop k m" "tw_wire w' = tw_wire w @ take k m"
        using send_queue_mark [OF inv, of "length m - k" k m] True False k by auto
      then show ?thesis using s Wrote True by (simp add: accepts_def takes_def)
    qed
  qed
qed

lemma send_ok:
  assumes "tcp_inv w" and "high_water_safe (tw_conn w)" and "int (length m) < 2147483648"
    and "write_within wr (length m)" and "buf_room (c_outputBuffer (tw_conn w)) (length m)"
  shows "\<exists>w'. send_string wr m w = Inr w' \<and> tcp_inv w'
    \<and> same_setup (tw_conn w') (tw_conn w)
    \<and> tw_wire w' @ outq w' = tw_wire w @ outq w @ accepts wr m w
    \<and> tw_wire w' = tw_wire w @ takes wr m w"
  by (rule send_mark [OF assms(1) mark_safe [OF assms(2)] assms(3-5)])

text \<open>
  The call that is not guarded: \<open>_highWaterMark\<close> has a value that is not zero and below what
  a partial write left over, and there is no callback.
\<close>

lemma send_throws:
  assumes "tcp_inv w" and "outq w = []" and "int (length m) < 2147483648" and "k < length m"
    and "\<not> mark_ok (tw_conn w) (int (length m - k))"
  shows "send_string (Wrote k) m w = Inl Bad_Function_Call"
proof -
  have "to_int32 (int (length m)) = int (length m)" using assms(3) by (simp add: cint)
  moreover have "readableBytes (c_outputBuffer (tw_conn w)) = 0"
    using assms(2) tcp_invD(2) [OF assms(1)] by (simp add: readable_0)
  ultimately show ?thesis
    using send_direct_idle [OF assms(1,2), of "int (length m)" m "Wrote k"] assms(4,5)
    by (simp add: send_string_def send_bytes_def send_queue_def fire_def Let_def to_size_t_def mark_ok_def)
qed

subsection \<open>Writable and readable\<close>

text \<open>The state after a write event of which the kernel took \<open>k > 0\<close> bytes.\<close>

lemma handleWrite_ok:
  assumes "tcp_inv w" and "write_within wr (length (outq w))"
  shows "\<exists>w'. conn_handleWrite wr w = Inr w' \<and> tcp_inv w'
    \<and> same_setup (tw_conn w') (tw_conn w)
    \<and> outq w' = drop (case wr of Wrote k \<Rightarrow> k | Write_Errno _ \<Rightarrow> 0) (outq w)
    \<and> tw_wire w' @ outq w' = tw_wire w @ outq w
    \<and> tw_trace w' = tw_trace w @ (if outq w \<noteq> [] \<and> outq w' = [] \<and> c_has_writeComplete (tw_conn w)
        then [Ev_WriteComplete] else [])"
proof (cases "outq w = []")
  case True
  then show ?thesis
    using assms(1) tcp_invD(5) [OF assms(1)] by (simp add: conn_handleWrite_def)
next
  case False
  let ?c = "tw_conn w"
  note inv = tcp_invD [OF assms(1)]
  have hw: "hasWrite (c_channel ?c)" using inv(5) False by simp
  show ?thesis
  proof (cases "wr = Wrote 0 \<or> (\<exists>e. wr = Write_Errno e)")
    case True
    have "conn_handleWrite wr w = Inr w"
      using True
    proof
      assume "wr = Wrote 0"
      then show ?thesis using hw inv(2) by (simp add: conn_handleWrite_def readable_bytes_ok kernel_write_def)
    next
      assume "\<exists>e. wr = Write_Errno e"
      then show ?thesis
        using hw inv(2) by (auto simp: conn_handleWrite_def readable_bytes_ok kernel_write_def)
    qed
    moreover have "(case wr of Wrote k \<Rightarrow> k | Write_Errno _ \<Rightarrow> 0) = 0" using True by auto
    ultimately show ?thesis using assms(1) False by simp
  next
    case no_stall: False
    then obtain k where wr: "wr = Wrote k" and k: "0 < k" by (cases wr) auto
    let ?out = "retrieve (c_outputBuffer ?c) (int k)"
    let ?w1 = "w\<lparr>tw_wire := tw_wire w @ take k (outq w)\<rparr>"
    have out: "buf_inv ?out" "content ?out = drop k (outq w)"
      using buf.consume_inv [OF inv(2), of "int k"] buf.consume_law [OF inv(2), of "int k"] by simp_all
    let ?w2 = "?w1\<lparr>tw_conn := ?c\<lparr>c_outputBuffer := ?out\<rparr>\<rparr>"
    have step: "conn_handleWrite wr w =
        (if readableBytes ?out = 0 then
           if c_has_writeComplete ?c then fire True Ev_WriteComplete (on_channel disableWriting ?w2)
           else Inr (on_channel disableWriting ?w2)
         else Inr ?w2)"
      using hw k wr inv(2)
      by (simp add: conn_handleWrite_def readable_bytes_ok kernel_write_def on_conn_def Let_def)
    show ?thesis
    proof (cases "content ?out = []")
      case True
      from inv(3,4) obtain ch ep where u: "on_channel disableWriting ?w2 =
          ?w2\<lparr>tw_conn := (tw_conn ?w2)\<lparr>c_channel := ch\<rparr>, tw_epoller := ep\<rparr>"
        and x: "exact (c_addr ?c) ch ep" "\<not> ep_deny ep" "\<not> hasWrite ch"
          "ch_state ch \<noteq> ADDED \<longrightarrow> isNoneEvent ch"
        using disableWriting_update [of ?w2 thesis] by (auto intro: exact_synced)
      have r: "readableBytes ?out = 0" using True out(1) by (simp add: readable_0)
      let ?w3 = "?w1\<lparr>tw_conn := ?c\<lparr>c_outputBuffer := ?out, c_channel := ch\<rparr>, tw_epoller := ep,
        tw_trace := tw_trace w @ (if c_has_writeComplete ?c then [Ev_WriteComplete] else [])\<rparr>"
      have "conn_handleWrite wr w = Inr ?w3"
        using step r u by (simp add: fire_def)
      moreover have "tcp_inv ?w3"
        using x inv(1) out(1) True by (simp add: tcp_inv_def Let_def)
      ultimately show ?thesis
        using out(2) True wr False by (simp add: same_setup_def)
    next
      case False
      then have "readableBytes ?out \<noteq> 0" using out(1) by (simp add: readable_0)
      then have "conn_handleWrite wr w = Inr ?w2" using step by simp
      moreover have "tcp_inv ?w2"
        using assms(1) out(1) False hw by (auto simp: tcp_inv_def Let_def)
      ultimately show ?thesis using out(2) False wr by (simp add: same_setup_def)
    qed
  qed
qed

text \<open>Data arrived: the message callback sees everything not yet retrieved.\<close>

lemma handleRead_data:
  assumes "tcp_inv w" and "readv_within k"
    and "k (iov_capacity (c_inputBuffer (tw_conn w))) = Read_Bytes bs" and "bs \<noteq> []"
    and "buf_room (c_inputBuffer (tw_conn w)) (length bs)"
  obtains b where "conn_handleRead k w =
      fire (c_has_message (tw_conn w)) (Ev_Message (inq w @ bs))
        (on_conn (\<lambda>c. c\<lparr>c_inputBuffer := b\<rparr>) w)"
    and "buf_inv b" and "content b = inq w @ bs"
proof -
  note inv = tcp_invD [OF assms(1)]
  obtain b where "readFromFd k (c_inputBuffer (tw_conn w)) = Inr (int (length bs), None, b)"
      "buf_inv b" "content b = inq w @ bs"
    by (rule readFromFd_ok [OF inv(1) assms(5,3,2)])
  with assms(4) show thesis
    by (intro that [of b]) (auto simp: conn_handleRead_def readable_bytes_ok on_conn_def)
qed

lemma handleRead_eof:
  assumes "tcp_inv w" and "readv_within k"
    and "k (iov_capacity (c_inputBuffer (tw_conn w))) = Read_Bytes []"
  obtains b where "conn_handleRead k w = conn_handleClose (on_conn (\<lambda>c. c\<lparr>c_inputBuffer := b\<rparr>) w)"
    and "buf_inv b" and "content b = inq w"
proof -
  note inv = tcp_invD [OF assms(1)]
  have "buf_room (c_inputBuffer (tw_conn w)) (length ([] :: byte list))"
    using inv(1) buf_invD [OF inv(1)] by (simp add: buf_room_def)
  then obtain b where "readFromFd k (c_inputBuffer (tw_conn w)) = Inr (int (length ([] :: byte list)), None, b)"
      "buf_inv b" "content b = inq w @ []"
    by (rule readFromFd_ok [OF inv(1) _ assms(3,2)])
  then show thesis
    by (intro that [of b]) (simp_all add: conn_handleRead_def)
qed

lemma handleClose_ok:
  assumes "c_has_connection (tw_conn w)" and "c_has_close (tw_conn w)"
  shows "conn_handleClose w = Inr (w\<lparr>tw_conn := (tw_conn w)\<lparr>c_channel := disableAll (c_channel (tw_conn w)),
      c_state := DISCONNECTED\<rparr>, tw_trace := tw_trace w @ [Ev_Connection DISCONNECTED, Ev_Close]\<rparr>)"
  using assms by (simp add: conn_handleClose_def disconnect_def on_conn_def fire_def)

lemma established_ok:
  assumes "tcp_inv w" and "c_has_connection (tw_conn w)"
  shows "\<exists>w'. established w = Inr w' \<and> tcp_inv w' \<and> same_setup (tw_conn w') (tw_conn w) \<and> isConnected (tw_conn w')
    \<and> hasRead (c_channel (tw_conn w')) \<and> outq w' = outq w \<and> inq w' = inq w
    \<and> tw_trace w' = tw_trace w @ [Ev_Connection CONNECTED]"
proof -
  let ?c = "tw_conn w"
  note inv = tcp_invD [OF assms(1)]
  from inv(3,4) obtain ch ep where u: "on_channel enableReading w =
      w\<lparr>tw_conn := ?c\<lparr>c_channel := ch\<rparr>, tw_epoller := ep\<rparr>"
    and x: "exact (c_addr ?c) ch ep" "\<not> ep_deny ep" "hasRead ch" "hasWrite ch = hasWrite (c_channel ?c)"
      "ch_state ch \<noteq> ADDED \<longrightarrow> isNoneEvent ch"
    using enableReading_update [of w thesis] by (auto intro: exact_synced)
  let ?w = "w\<lparr>tw_conn := ?c\<lparr>c_channel := ch, c_state := CONNECTED\<rparr>, tw_epoller := ep,
    tw_trace := tw_trace w @ [Ev_Connection CONNECTED]\<rparr>"
  have "established w = Inr ?w"
    using u assms(2) by (simp add: established_def on_conn_def fire_def)
  moreover have "tcp_inv ?w"
    using x inv by (auto simp: tcp_inv_def Let_def)
  ultimately show ?thesis using x(3) by (simp add: isConnected_def same_setup_def)
qed

section \<open>The system\<close>

text \<open>
  A connection in use: messages sent by the user and write events, with whatever the kernel
  answers within its contract, as long as the queue's indices stay an \<open>int\<close>.
\<close>

record tcp_system =
  ts_world :: tcp_world
  ts_accepted :: "byte list"

datatype tcp_move = Send write_result "byte list" | Writable write_result

fun tcp_do :: "tcp_move \<Rightarrow> tcp_system \<Rightarrow> tcp_system option" where
  "tcp_do (Send wr m) s =
     (if write_within wr (length m) \<and> int (length m) < 2147483648
         \<and> buf_room (c_outputBuffer (tw_conn (ts_world s))) (length m)
      then case send_string wr m (ts_world s) of
             Inl _ \<Rightarrow> None
           | Inr w \<Rightarrow> Some \<lparr>ts_world = w, ts_accepted = ts_accepted s @ accepts wr m (ts_world s)\<rparr>
      else None)"
| "tcp_do (Writable wr) s =
     (if write_within wr (length (outq (ts_world s)))
      then case conn_handleWrite wr (ts_world s) of
             Inl _ \<Rightarrow> None
           | Inr w \<Rightarrow> Some (s\<lparr>ts_world := w\<rparr>)
      else None)"

inductive tcp_step :: "tcp_system \<Rightarrow> tcp_system \<Rightarrow> bool" where
  tcp_stepI: "tcp_do m s = Some s' \<Longrightarrow> tcp_step s s'"

inductive_cases tcp_stepE: "tcp_step s s'"

definition tcp_start :: "tcp_system \<Rightarrow> bool" where
  "tcp_start s \<longleftrightarrow> tcp_inv (ts_world s) \<and> high_water_safe (tw_conn (ts_world s))
     \<and> outq (ts_world s) = [] \<and> tw_wire (ts_world s) = [] \<and> ts_accepted s = []"

definition tcp_sys_inv :: "tcp_system \<Rightarrow> bool" where
  "tcp_sys_inv s \<longleftrightarrow> tcp_inv (ts_world s) \<and> high_water_safe (tw_conn (ts_world s))
     \<and> tw_wire (ts_world s) @ outq (ts_world s) = ts_accepted s"

lemma tcp_do_inv: "tcp_do m s = Some s' \<Longrightarrow> tcp_sys_inv s \<Longrightarrow> tcp_sys_inv s'"
proof (induction m s rule: tcp_do.induct)
  case (1 wr m s)
  then have c: "write_within wr (length m)" "int (length m) < 2147483648"
      "buf_room (c_outputBuffer (tw_conn (ts_world s))) (length m)"
    by (auto split: if_splits)
  from 1(2) have i: "tcp_inv (ts_world s)" "high_water_safe (tw_conn (ts_world s))"
    and h: "tw_wire (ts_world s) @ outq (ts_world s) = ts_accepted s" by (simp_all add: tcp_sys_inv_def)
  from send_ok [OF i c(2,1,3)] obtain w where w: "send_string wr m (ts_world s) = Inr w" "tcp_inv w"
      "same_setup (tw_conn w) (tw_conn (ts_world s))"
      "tw_wire w @ outq w = tw_wire (ts_world s) @ outq (ts_world s) @ accepts wr m (ts_world s)"
    by blast
  moreover have "s' = \<lparr>ts_world = w, ts_accepted = ts_accepted s @ accepts wr m (ts_world s)\<rparr>"
    using 1(1) c w(1) by simp
  ultimately show ?case
    using i h high_water_same by (auto simp: tcp_sys_inv_def)
next
  case (2 wr s)
  then have c: "write_within wr (length (outq (ts_world s)))" by (auto split: if_splits)
  from 2(2) have i: "tcp_inv (ts_world s)" "high_water_safe (tw_conn (ts_world s))"
    and h: "tw_wire (ts_world s) @ outq (ts_world s) = ts_accepted s" by (simp_all add: tcp_sys_inv_def)
  from handleWrite_ok [OF i(1) c] obtain w where w: "conn_handleWrite wr (ts_world s) = Inr w" "tcp_inv w"
      "same_setup (tw_conn w) (tw_conn (ts_world s))"
      "tw_wire w @ outq w = tw_wire (ts_world s) @ outq (ts_world s)"
    by blast
  moreover have "s' = s\<lparr>ts_world := w\<rparr>" using 2(1) c w(1) by simp
  ultimately show ?case
    using i h high_water_same by (auto simp: tcp_sys_inv_def)
qed

interpretation tcp: state_invariant tcp_start tcp_step tcp_sys_inv
proof unfold_locales
  show "tcp_sys_inv s" if "tcp_start s" for s
    using that by (simp add: tcp_start_def tcp_sys_inv_def)
  show "tcp_sys_inv t" if "tcp_step s t" and "tcp_sys_inv s" for s t
    using that by (auto elim!: tcp_stepE intro: tcp_do_inv)
qed

text \<open>Write events until everything is out.\<close>

fun write_events :: "nat list \<Rightarrow> tcp_world \<Rightarrow> tcp_world outcome" where
  "write_events [] w = Inr w"
| "write_events (k # ks) w = bind_ok (conn_handleWrite (Wrote k) w) (write_events ks)"

lemma write_events_ok:
  "tcp_inv w \<Longrightarrow> sum_list ks = length (outq w) \<Longrightarrow>
    \<exists>w'. write_events ks w = Inr w' \<and> tcp_inv w' \<and> outq w' = []
      \<and> tw_wire w' = tw_wire w @ outq w"
proof (induction ks arbitrary: w)
  case Nil
  then show ?case by simp
next
  case (Cons k ks)
  then have "write_within (Wrote k) (length (outq w))" by (simp add: write_within_def)
  from handleWrite_ok [OF Cons.prems(1) this] obtain w1 where w1: "conn_handleWrite (Wrote k) w = Inr w1"
      "tcp_inv w1" "outq w1 = drop k (outq w)" "tw_wire w1 @ outq w1 = tw_wire w @ outq w"
    by auto
  have "sum_list ks = length (outq w1)" using Cons.prems(2) w1(3) by simp
  from Cons.IH [OF w1(2) this] w1 show ?case by auto
qed

section \<open>Examples\<close>

text \<open>A connection on descriptor 7, with all callbacks but the high-water mark's, established.\<close>

definition example_conn :: tcp_conn where
  "example_conn = (tcp_ctor 3 7 (addr_of_port Little 80) (addr_of_port Little 1024) 0)\<lparr>c_has_connection := True, c_has_message := True,
     c_has_writeComplete := True, c_has_close := True\<rparr>"

definition example_world :: tcp_world where
  "example_world = \<lparr>tw_conn = example_conn, tw_epoller = example_epoller, tw_wire = [], tw_trace = []\<rparr>"

lemma example_world_inv: "tcp_inv example_world"
  by (simp add: tcp_inv_def example_world_def example_conn_def tcp_ctor_def new_buffer_inv
      exact_def synced_def new_channel_def example_epoller_def isNoneEvent_def hasWrite_def NONE_def Let_def)

lemma example_world_outq: "outq example_world = []"
  by (simp add: example_world_def example_conn_def tcp_ctor_def)

lemma example_world_safe: "high_water_safe (tw_conn example_world)"
  by (simp add: high_water_safe_def example_world_def example_conn_def tcp_ctor_def)

lemma example_world_wire: "tw_wire example_world = []"
  by (simp add: example_world_def)

lemma example_world_room [simp]: "n \<le> 1000 \<Longrightarrow> buf_room (c_outputBuffer (tw_conn example_world)) n"
  by (simp add: buf_room_def example_world_def example_conn_def tcp_ctor_def new_buffer_def kPrependSize_def)

text \<open>The same after a message of five bytes of which the kernel took two.\<close>

definition busy_world :: tcp_world where
  "busy_world = projr (send_string (Wrote 2) [1, 2, 3, 4, 5] example_world)"

lemma busy_world_facts:
  "send_string (Wrote 2) [1, 2, 3, 4, 5] example_world = Inr busy_world"
  "tcp_inv busy_world" "tw_wire busy_world = [1, 2]" "outq busy_world = [3, 4, 5]"
proof -
  have "write_within (Wrote 2) (length [1, 2, 3, 4, 5 :: byte])" by (simp add: write_within_def)
  from send_ok [OF example_world_inv example_world_safe _ this example_world_room]
  obtain w where "send_string (Wrote 2) [1, 2, 3, 4, 5] example_world = Inr w" "tcp_inv w"
      "tw_wire w @ outq w = tw_wire example_world @ outq example_world
        @ accepts (Wrote 2) [1, 2, 3, 4, 5] example_world"
      "tw_wire w = tw_wire example_world @ takes (Wrote 2) [1, 2, 3, 4, 5] example_world"
    by auto
  then show "send_string (Wrote 2) [1, 2, 3, 4, 5] example_world = Inr busy_world" "tcp_inv busy_world"
    "tw_wire busy_world = [1, 2]" "outq busy_world = [3, 4, 5]"
    using example_world_outq
    by (simp_all add: busy_world_def accepts_def takes_def example_world_def)
qed

section \<open>Properties\<close>

text \<open>
  C9. \<open>send\<close> on every branch, for a well-formed connection, a message for which the output
  buffer has room, and a kernel that takes no more than it is given. It throws exactly when nothing was queued, the kernel took only a part of
  the message, and the rest is more than a \<open>_highWaterMark\<close> that is not zero while no
  high-water callback is set (the member is never initialised). Otherwise it returns, keeps the
  connection well formed, and the bytes on the wire followed by the queue grow by the whole
  message when nothing was queued and the kernel did not fail, and not at all otherwise; the
  part the kernel took at once is on the wire.
\<close>

theorem send_spec:
  assumes "tcp_inv w" and "int (length m) < 2147483648" and "write_within wr (length m)"
    and "buf_room (c_outputBuffer (tw_conn w)) (length m)"
  shows "if outq w = [] \<and> (\<exists>k < length m. wr = Wrote k \<and> c_highWaterMark (tw_conn w) < int (length m - k))
      \<and> c_highWaterMark (tw_conn w) \<noteq> 0 \<and> \<not> c_has_highWaterMark (tw_conn w)
    then send_string wr m w = Inl Bad_Function_Call
    else \<exists>w'. send_string wr m w = Inr w' \<and> tcp_inv w'
      \<and> tw_wire w' @ outq w' = tw_wire w @ outq w
          @ (if outq w = [] \<and> (\<exists>k. wr = Wrote k) then m else [])
      \<and> tw_wire w' = tw_wire w @ (if outq w = [] then (case wr of Wrote k \<Rightarrow> take k m | _ \<Rightarrow> []) else [])"
    (is "if ?throws then _ else ?returns")
proof (cases ?throws)
  case True
  then show ?thesis
    using send_throws [OF assms(1) _ assms(2)] by (auto simp: mark_ok_def)
next
  case False
  have m: "mark_ok (tw_conn w) (int (length m - k))" if "outq w = []" "wr = Wrote k" "k < length m" for k
    using that False by (auto simp: mark_ok_def)
  obtain w' where "send_string wr m w = Inr w'" "tcp_inv w'"
      "tw_wire w' @ outq w' = tw_wire w @ outq w @ accepts wr m w"
      "tw_wire w' = tw_wire w @ takes wr m w"
    using send_mark [OF assms(1) m assms(2-4)] by blast
  then have ?returns by (cases wr) (auto simp: accepts_def takes_def)
  with False show ?thesis by (simp only: if_False)
qed

theorem send_spec_witness:
  "\<exists>w'. send_string (Wrote 2) [1, 2, 3, 4, 5] example_world = Inr w' \<and> tw_wire w' @ outq w' = [1, 2, 3, 4, 5]"
  using send_spec [OF example_world_inv, of "[1, 2, 3, 4, 5]" "Wrote 2"]
    example_world_outq example_world_wire example_world_safe
  by (auto simp: write_within_def high_water_safe_def)

text \<open>
  A message is dropped, without an error, a callback or any other effect, when earlier
  output is still queued, and when the kernel answers the direct write with any error,
  \<open>EAGAIN\<close> included: only a first message that was partly written is ever queued.
\<close>

theorem send_silently_drops:
  assumes "tcp_inv w" and "int (length m) < 2147483648"
    and "outq w \<noteq> [] \<or> wr = Write_Errno e"
  shows "send_string wr m w = Inr w"
proof (cases "outq w = []")
  case True
  have "to_int32 (int (length m)) = int (length m)" using assms(2) by (simp add: cint)
  then show ?thesis
    using send_direct_idle [OF assms(1) True, of "int (length m)" m wr] assms(3) True
    by (auto simp: send_string_def send_bytes_def send_queue_nothing)
next
  case False
  then show ?thesis
    by (simp add: send_string_def send_bytes_def send_direct_busy [OF assms(1)] send_queue_nothing)
qed

theorem send_silently_drops_witness:
  "send_string (Wrote 3) [7, 8, 9] busy_world = Inr busy_world
    \<and> send_string (Write_Errno 11) [7, 8, 9] example_world = Inr example_world"
  using send_silently_drops [OF busy_world_facts(2), of "[7, 8, 9]" "Wrote 3"]
    send_silently_drops [OF example_world_inv, of "[7, 8, 9]" "Write_Errno 11" 11]
  by (simp add: busy_world_facts)

text \<open>
  C12. A write event moves bytes from the queue to the wire and loses none; writability stays
  watched exactly while something is queued (part of the invariant), and the write-complete
  callback runs exactly when the queue has become empty.
\<close>

theorem handleWrite_spec:
  assumes "tcp_inv w" and "write_within wr (length (outq w))"
  shows "\<exists>w'. conn_handleWrite wr w = Inr w' \<and> tcp_inv w'
    \<and> tw_wire w' @ outq w' = tw_wire w @ outq w
    \<and> outq w' = drop (case wr of Wrote k \<Rightarrow> k | Write_Errno _ \<Rightarrow> 0) (outq w)
    \<and> (hasWrite (c_channel (tw_conn w')) \<longleftrightarrow> outq w' \<noteq> [])
    \<and> tw_trace w' = tw_trace w @ (if outq w \<noteq> [] \<and> outq w' = [] \<and> c_has_writeComplete (tw_conn w)
        then [Ev_WriteComplete] else [])"
proof -
  from handleWrite_ok [OF assms] obtain w' where "conn_handleWrite wr w = Inr w'" "tcp_inv w'"
    "tw_wire w' @ outq w' = tw_wire w @ outq w"
    "outq w' = drop (case wr of Wrote k \<Rightarrow> k | Write_Errno _ \<Rightarrow> 0) (outq w)"
    "tw_trace w' = tw_trace w @ (if outq w \<noteq> [] \<and> outq w' = [] \<and> c_has_writeComplete (tw_conn w)
        then [Ev_WriteComplete] else [])"
    by blast
  with tcp_invD(5) show ?thesis by blast
qed

theorem handleWrite_spec_witness:
  "\<exists>w'. conn_handleWrite (Wrote 1) busy_world = Inr w' \<and> outq w' = [4, 5]"
  using handleWrite_spec [OF busy_world_facts(2), of "Wrote 1"]
  by (auto simp: busy_world_facts write_within_def)

text \<open>
  The output drains: write events in which the kernel takes all that is queued, in
  whatever portions, put exactly the queue on the wire, and the channel then no longer asks
  for writability, in the kernel neither.
\<close>

theorem output_drains:
  assumes "tcp_inv w" and "sum_list ks = length (outq w)"
  shows "\<exists>w'. write_events ks w = Inr w' \<and> tw_wire w' = tw_wire w @ outq w \<and> outq w' = []
    \<and> (\<forall>e p. ep_interest (tw_epoller w') (conn_fd (tw_conn w')) = Some (e, p) \<longrightarrow> \<not> has_event e WRITE)"
proof -
  from write_events_ok [OF assms] obtain w' where w': "write_events ks w = Inr w'" "tcp_inv w'"
      "outq w' = []" "tw_wire w' = tw_wire w @ outq w"
    by blast
  moreover have "\<not> has_event e WRITE"
    if "ep_interest (tw_epoller w') (conn_fd (tw_conn w')) = Some (e, p)" for e p
    using that tcp_invD(3,5) [OF w'(2)] w'(3)
    by (auto simp: exact_def synced_def conn_fd_def hasWrite_def split: if_splits)
  ultimately show ?thesis by blast
qed

theorem output_drains_witness:
  "\<exists>w'. write_events [1, 0, 2] busy_world = Inr w' \<and> tw_wire w' = [1, 2, 3, 4, 5]"
  using output_drains [OF busy_world_facts(2), of "[1, 0, 2]"] by (auto simp: busy_world_facts)

text \<open>
  The stream: under every sequence of messages and write events, with any partial writes
  and errors, the bytes on the wire followed by the queue are the accepted messages, in
  order and complete, and output is queued exactly while the kernel watches writability.
\<close>

theorem tcp_stream:
  assumes "reach tcp_start tcp_step s"
  shows "tw_wire (ts_world s) @ outq (ts_world s) = ts_accepted s
    \<and> (outq (ts_world s) \<noteq> [] \<longleftrightarrow> (\<exists>e p. ep_interest (tw_epoller (ts_world s))
          (conn_fd (tw_conn (ts_world s))) = Some (e, p) \<and> has_event e WRITE))"
proof -
  from tcp.reach_inv [OF assms] have i: "tcp_inv (ts_world s)"
    and h: "tw_wire (ts_world s) @ outq (ts_world s) = ts_accepted s"
    by (simp_all add: tcp_sys_inv_def)
  from i h show ?thesis
    by (auto simp: tcp_inv_def Let_def exact_def synced_def conn_fd_def hasWrite_def
        isNoneEvent_def NONE_def split: if_splits)
qed

theorem tcp_stream_witness:
  "tw_wire busy_world @ outq busy_world = [1, 2, 3, 4, 5]"
proof -
  let ?s = "\<lparr>ts_world = example_world, ts_accepted = []\<rparr>"
  have "reach tcp_start tcp_step ?s"
    by (rule reach_start) (simp add: tcp_start_def example_world_inv example_world_safe example_world_outq,
        simp add: example_world_def)
  moreover have "tcp_step ?s \<lparr>ts_world = busy_world, ts_accepted = [1, 2, 3, 4, 5]\<rparr>"
    by (rule tcp_stepI [of "Send (Wrote 2) [1, 2, 3, 4, 5]"])
      (use example_world_outq in \<open>simp add: write_within_def busy_world_facts accepts_def\<close>)
  ultimately have "reach tcp_start tcp_step \<lparr>ts_world = busy_world, ts_accepted = [1, 2, 3, 4, 5]\<rparr>"
    by (rule reach_step)
  from tcp_stream [OF this] show ?thesis by simp
qed

text \<open>
  The high-water mark: \<open>_highWaterMark\<close> is never initialised, and when the value found
  there is not zero and less than what a partial write left over, \<open>send\<close> calls the callback
  without testing it: unset, it throws \<open>bad_function_call\<close>.
\<close>

theorem highWaterMark_throws:
  assumes "tcp_inv w" and "outq w = []" and "int (length m) < 2147483648" and "k < length m"
    and "c_highWaterMark (tw_conn w) \<noteq> 0" and "c_highWaterMark (tw_conn w) < int (length m - k)"
    and "\<not> c_has_highWaterMark (tw_conn w)"
  shows "send_string (Wrote k) m w = Inl Bad_Function_Call"
  by (rule send_throws [OF assms(1-4)]) (use assms(5-7) in \<open>simp add: mark_ok_def\<close>)

theorem highWaterMark_throws_witness:
  "send_string (Wrote 2) [1, 2, 3, 4, 5]
     (on_conn (\<lambda>c. c\<lparr>c_highWaterMark := 2\<rparr>) example_world) = Inl Bad_Function_Call"
proof -
  have "tcp_inv (on_conn (\<lambda>c. c\<lparr>c_highWaterMark := 2\<rparr>) example_world)"
    using example_world_inv by (simp add: tcp_inv_def on_conn_def Let_def)
  from highWaterMark_throws [OF this, of "[1, 2, 3, 4, 5]" 2] show ?thesis
    using example_world_outq
    by (simp add: on_conn_def) (simp add: example_world_def example_conn_def tcp_ctor_def)
qed

text \<open>
  C13. Reading: data is appended to what the user has not retrieved and the message callback
  sees both; without a message callback the first data received throws; at the end of the
  stream the connection is closed; an error changes nothing.
\<close>

theorem handleRead_spec:
  assumes "tcp_inv w" and "readv_within k"
    and "\<And>bs. k (iov_capacity (c_inputBuffer (tw_conn w))) = Read_Bytes bs \<Longrightarrow>
           buf_room (c_inputBuffer (tw_conn w)) (length bs)"
  shows "case k (iov_capacity (c_inputBuffer (tw_conn w))) of
      Read_Fail err \<Rightarrow> conn_handleRead k w = Inr w
    | Read_Bytes bs \<Rightarrow> \<exists>b. buf_inv b \<and> content b = inq w @ bs \<and>
        conn_handleRead k w =
          (let w1 = on_conn (\<lambda>c. c\<lparr>c_inputBuffer := b\<rparr>) w in
           if bs = [] then conn_handleClose w1
           else if c_has_message (tw_conn w)
             then Inr (w1\<lparr>tw_trace := tw_trace w @ [Ev_Message (inq w @ bs)]\<rparr>)
           else Inl Bad_Function_Call)"
proof (cases "k (iov_capacity (c_inputBuffer (tw_conn w)))")
  case (Read_Fail err)
  have "to_size_t (writableBytes (c_inputBuffer (tw_conn w))) = writableBytes (c_inputBuffer (tw_conn w))"
    using buf_invD [OF tcp_invD(1) [OF assms(1)]] tcp_invD(1) [OF assms(1)]
    by (simp add: writableBytes_eq cint)
  with Read_Fail have "readFromFd k (c_inputBuffer (tw_conn w)) = Inr (- 1, Some err, c_inputBuffer (tw_conn w))"
    by (simp add: readFromFd_def iov_capacity_def Let_def split: if_splits)
  with Read_Fail show ?thesis by (simp add: conn_handleRead_def on_conn_def)
next
  case (Read_Bytes bs)
  show ?thesis
  proof (cases "bs = []")
    case True
    with Read_Bytes have e: "k (iov_capacity (c_inputBuffer (tw_conn w))) = Read_Bytes []" by simp
    obtain b where "conn_handleRead k w = conn_handleClose (on_conn (\<lambda>c. c\<lparr>c_inputBuffer := b\<rparr>) w)"
        "buf_inv b" "content b = inq w"
      by (rule handleRead_eof [OF assms(1,2) e])
    with True Read_Bytes show ?thesis by (auto simp: Let_def)
  next
    case False
    obtain b where b: "conn_handleRead k w = fire (c_has_message (tw_conn w)) (Ev_Message (inq w @ bs))
          (on_conn (\<lambda>c. c\<lparr>c_inputBuffer := b\<rparr>) w)" "buf_inv b" "content b = inq w @ bs"
      by (rule handleRead_data [OF assms(1,2) Read_Bytes False assms(3) [OF Read_Bytes]])
    show ?thesis
      using b False Read_Bytes by (auto simp: Let_def fire_def on_conn_def intro!: exI [of _ b])
  qed
qed

theorem handleRead_spec_witness:
  "\<exists>b. content b = [1, 2] \<and> conn_handleRead (\<lambda>cap. Read_Bytes (take (nat cap) [1, 2])) example_world =
     Inr ((on_conn (\<lambda>c. c\<lparr>c_inputBuffer := b\<rparr>) example_world)\<lparr>tw_trace := [Ev_Message [1, 2]]\<rparr>)"
proof -
  let ?k = "\<lambda>cap. Read_Bytes (take (nat cap) [1, 2 :: byte])"
  have "readv_within ?k" by (auto simp: readv_within_def)
  moreover have in1: "c_inputBuffer (tw_conn example_world) = new_buffer 1024"
    by (simp add: example_world_def example_conn_def tcp_ctor_def)
  moreover have k: "?k (iov_capacity (new_buffer 1024)) = Read_Bytes [1, 2]"
    by (simp add: iov_capacity_def new_buffer_def writableBytes_def buf_size_def buf_consts
        sizeof_extrabuf_def cint)
  moreover have "buf_room (new_buffer 1024) (Suc (Suc 0))" by (simp add: buf_room_def new_buffer_def buf_consts)
  ultimately show ?thesis
    using handleRead_spec [OF example_world_inv, of ?k]
    by (auto simp: Let_def) (auto simp: example_world_def example_conn_def tcp_ctor_def on_conn_def)
qed

text \<open>
  Closing: \<open>handleClose\<close> reports the disconnection and the close, in this order, and
  clears the channel's events, but does not tell the poller: the kernel's entry is the one
  it was before. \<open>destory\<close> withdraws it.
\<close>

theorem close_leaves_interest:
  assumes "tcp_inv w" and "c_has_connection (tw_conn w)" and "c_has_close (tw_conn w)"
  shows "\<exists>w1 w2. conn_handleClose w = Inr w1 \<and> isNoneEvent (c_channel (tw_conn w1))
    \<and> \<not> isConnected (tw_conn w1)
    \<and> tw_trace w1 = tw_trace w @ [Ev_Connection DISCONNECTED, Ev_Close]
    \<and> ep_interest (tw_epoller w1) = ep_interest (tw_epoller w)
    \<and> destory w1 = Inr w2 \<and> ep_interest (tw_epoller w2) (conn_fd (tw_conn w)) = None"
proof -
  let ?c = "tw_conn w"
  let ?w1 = "w\<lparr>tw_conn := ?c\<lparr>c_channel := disableAll (c_channel ?c), c_state := DISCONNECTED\<rparr>,
    tw_trace := tw_trace w @ [Ev_Connection DISCONNECTED, Ev_Close]\<rparr>"
  obtain ch ep where r: "removeChannel (c_addr ?c) (disableAll (disableAll (c_channel ?c))) (tw_epoller w) = (ch, ep)"
    by fastforce
  have "ep_interest ep (conn_fd ?c) = None"
    using removeChannel_exact [OF _ _ r] tcp_invD(3,4) [OF assms(1)]
    by (simp add: conn_fd_def exact_synced)
  moreover have "destory ?w1 = Inr (?w1\<lparr>tw_conn := (tw_conn ?w1)\<lparr>c_channel := ch\<rparr>, tw_epoller := ep,
      tw_trace := tw_trace ?w1 @ [Ev_Connection DISCONNECTED]\<rparr>)"
    using assms(2) r by (simp add: destory_def disconnect_def on_conn_def on_channel_def fire_def)
  ultimately show ?thesis
    using handleClose_ok [OF assms(2,3)] by (simp add: isConnected_def)
qed

theorem close_leaves_interest_witness:
  "\<exists>w1. conn_handleClose busy_world = Inr w1 \<and> \<not> isConnected (tw_conn w1)
    \<and> ep_interest (tw_epoller w1) = ep_interest (tw_epoller busy_world)"
proof -
  have "write_within (Wrote 2) (length [1, 2, 3, 4, 5 :: byte])" by (simp add: write_within_def)
  from send_ok [OF example_world_inv example_world_safe _ this example_world_room]
  have "same_setup (tw_conn busy_world) (tw_conn example_world)"
    by (auto simp: busy_world_facts)
  then have "c_has_connection (tw_conn busy_world)" "c_has_close (tw_conn busy_world)"
    by (simp_all add: same_setup_def example_world_def example_conn_def)
  from close_leaves_interest [OF busy_world_facts(2) this] show ?thesis by blast
qed

end
