(* ===== verification/Connection_Frame.thy ===== *)
theory Connection_Frame
  imports Tcp_Connection
begin

text \<open>
  What an operation of a connection can change: the frame the owner of several connections on
  one poller relies on. Every operation leaves the descriptor, the address, the setup and the
  callbacks, touches only its own entry of the kernel's interest list, and keeps the buffers
  well formed.
\<close>

section \<open>The frame\<close>

text \<open>
  The frame of the operations: the descriptor, the address and the callbacks stay, and in the
  kernel only the connection's own entry changes, to its own address.
\<close>

definition same_callbacks :: "tcp_conn \<Rightarrow> tcp_conn \<Rightarrow> bool" where
  "same_callbacks c' c \<longleftrightarrow> same_dispatch (c_channel c') (c_channel c)"

lemmas same_callbacks_iff = same_callbacks_def same_dispatch_def

lemma same_callbacks_refl [simp]: "same_callbacks c c"
  by (simp add: same_callbacks_iff)

definition bufs_ok :: "tcp_conn \<Rightarrow> bool" where
  "bufs_ok c \<longleftrightarrow> buf_inv (c_inputBuffer c) \<and> buf_inv (c_outputBuffer c)"

definition framed :: "tcp_world \<Rightarrow> tcp_world \<Rightarrow> bool" where
  "framed t t' \<longleftrightarrow> conn_fd (tw_conn t') = conn_fd (tw_conn t) \<and> same_setup (tw_conn t') (tw_conn t)
     \<and> same_callbacks (tw_conn t') (tw_conn t)
     \<and> (bufs_ok (tw_conn t) \<longrightarrow> bufs_ok (tw_conn t'))
     \<and> ep_deny (tw_epoller t') = ep_deny (tw_epoller t)
     \<and> (\<forall>fd. fd \<noteq> conn_fd (tw_conn t) \<longrightarrow> ep_interest (tw_epoller t') fd = ep_interest (tw_epoller t) fd)
     \<and> (\<forall>e p. ep_interest (tw_epoller t') (conn_fd (tw_conn t)) = Some (e, p) \<longrightarrow>
          p = c_addr (tw_conn t) \<or> (\<exists>e'. ep_interest (tw_epoller t) (conn_fd (tw_conn t)) = Some (e', p)))"

lemma framed_refl [simp]: "framed t t"
  by (simp add: framed_def)

lemma framed_trans:
  assumes "framed t u" and "framed u v"
  shows "framed t v"
proof -
  have fd: "conn_fd (tw_conn u) = conn_fd (tw_conn t)" "c_addr (tw_conn u) = c_addr (tw_conn t)"
    using assms(1) by (simp_all add: framed_def same_setup_def)
  have "p = c_addr (tw_conn t) \<or> (\<exists>e'. ep_interest (tw_epoller t) (conn_fd (tw_conn t)) = Some (e', p))"
    if "ep_interest (tw_epoller v) (conn_fd (tw_conn t)) = Some (e, p)" for e p
  proof -
    from that assms(2) fd have "p = c_addr (tw_conn t)
        \<or> (\<exists>e'. ep_interest (tw_epoller u) (conn_fd (tw_conn t)) = Some (e', p))"
      by (simp add: framed_def)
    with assms(1) show ?thesis unfolding framed_def by blast
  qed
  with assms fd show ?thesis
    by (simp add: framed_def same_setup_def same_callbacks_iff)
qed

lemma framed_fire: "fire b ev t = Inr t' \<Longrightarrow> framed t t'"
  by (auto simp: fire_def framed_def split: if_splits)

lemma framed_conn:
  "conn_fd (f (tw_conn t)) = conn_fd (tw_conn t) \<Longrightarrow> same_setup (f (tw_conn t)) (tw_conn t) \<Longrightarrow>
    same_callbacks (f (tw_conn t)) (tw_conn t) \<Longrightarrow> (bufs_ok (tw_conn t) \<Longrightarrow> bufs_ok (f (tw_conn t))) \<Longrightarrow>
    framed t (on_conn f t)"
  by (simp add: framed_def on_conn_def)

lemma framed_poller:
  assumes "\<And>p ch ep. \<exists>e st. fst (f p ch ep) = ch\<lparr>ch_events := e, ch_state := st\<rparr>"
    and "\<And>p ch ep fd. fd \<noteq> ch_fd ch \<Longrightarrow> ep_interest (snd (f p ch ep)) fd = ep_interest ep fd"
    and "\<And>p ch ep e q. ep_interest (snd (f p ch ep)) (ch_fd ch) = Some (e, q) \<Longrightarrow>
       q = p \<or> (\<exists>e'. ep_interest ep (ch_fd ch) = Some (e', q))"
    and "\<And>p ch ep. ep_deny (snd (f p ch ep)) = ep_deny ep"
  shows "framed t (on_channel f t)"
proof -
  let ?c = "tw_conn t"
  obtain ch ep where f: "f (c_addr ?c) (c_channel ?c) (tw_epoller t) = (ch, ep)" by fastforce
  have "on_channel f t = t\<lparr>tw_conn := ?c\<lparr>c_channel := ch\<rparr>, tw_epoller := ep\<rparr>"
    using f by (simp add: on_channel_def)
  then show ?thesis
    using f assms(1) [of "c_addr ?c" "c_channel ?c" "tw_epoller t"]
      assms(2) [of _ "c_channel ?c" "c_addr ?c" "tw_epoller t"]
      assms(3) [of "c_addr ?c" "c_channel ?c" "tw_epoller t"]
      assms(4) [of "c_addr ?c" "c_channel ?c" "tw_epoller t"]
    by (auto simp: framed_def conn_fd_def same_setup_def same_callbacks_iff bufs_ok_def)
qed

lemma framed_update:
  assumes "\<And>p ch ep. f p ch ep = updateChannel p (g ch) ep" and "\<And>ch. \<exists>e. g ch = ch\<lparr>ch_events := e\<rparr>"
  shows "framed t (on_channel f t)"
proof (rule framed_poller)
  fix p and ch :: "conn_callback channel" and ep
  obtain e where g: "g ch = ch\<lparr>ch_events := e\<rparr>" using assms(2) by blast
  show "\<exists>e st. fst (f p ch ep) = ch\<lparr>ch_events := e, ch_state := st\<rparr>"
    by (rule exI [of _ e], rule exI [of _ "ch_state (fst (f p ch ep))"])
      (simp add: assms(1) g updateChannel_def Let_def)
  show "ep_interest (snd (f p ch ep)) fd = ep_interest ep fd" if "fd \<noteq> ch_fd ch" for fd
    using that by (simp add: assms(1) g updateChannel_def controlEpoll_def epoll_ctl_def Let_def)
  show "ep_deny (snd (f p ch ep)) = ep_deny ep"
    by (simp add: assms(1) updateChannel_def controlEpoll_def epoll_ctl_def Let_def split: ctl_op.split)
  show "q = p \<or> (\<exists>e'. ep_interest ep (ch_fd ch) = Some (e', q))"
    if "ep_interest (snd (f p ch ep)) (ch_fd ch) = Some (e, q)" for e q
    using that
    by (auto simp: assms(1) g updateChannel_def controlEpoll_def epoll_ctl_def Let_def split: if_splits)
qed

lemma switch_events:
  "\<exists>e. set_reading ch = ch\<lparr>ch_events := e\<rparr>" "\<exists>e. set_writing ch = ch\<lparr>ch_events := e\<rparr>"
  "\<exists>e. clear_writing ch = ch\<lparr>ch_events := e\<rparr>"
  by (auto simp: channel_switch_defs)

lemma framed_enableReading: "framed t (on_channel enableReading t)"
  by (rule framed_update [OF enableReading_def switch_events(1)])

lemma framed_enableWriting: "framed t (on_channel enableWriting t)"
  by (rule framed_update [OF enableWriting_def switch_events(2)])

lemma framed_disableWriting: "framed t (on_channel disableWriting t)"
  by (rule framed_update [OF disableWriting_def switch_events(3)])

lemma framed_remove: "framed t (on_channel removeChannel t)"
proof (rule framed_poller)
  fix p and ch :: "conn_callback channel" and ep
  show "\<exists>e st. fst (removeChannel p ch ep) = ch\<lparr>ch_events := e, ch_state := st\<rparr>"
    by (rule exI [of _ "ch_events ch"], rule exI [of _ NEW]) (simp add: removeChannel_def Let_def)
qed (auto simp: removeChannel_def controlEpoll_def epoll_ctl_def Let_def split: if_splits)

lemma framed_disconnect:
  assumes "disconnect t = Inr t'"
  shows "framed t t'"
proof -
  let ?t = "on_conn (\<lambda>c. c\<lparr>c_channel := disableAll (c_channel c), c_state := DISCONNECTED\<rparr>) t"
  have "framed t ?t"
    by (rule framed_conn) (simp_all add: conn_fd_def same_setup_def same_callbacks_iff disableAll_def bufs_ok_def)
  moreover have "fire (c_has_connection (tw_conn ?t)) (Ev_Connection DISCONNECTED) ?t = Inr t'"
    using assms unfolding disconnect_def Let_def .
  ultimately show ?thesis using framed_trans framed_fire by blast
qed

lemma framed_handleClose:
  assumes "conn_handleClose t = Inr t'"
  shows "framed t t'"
proof -
  from assms obtain u where "disconnect t = Inr u" and "fire (c_has_close (tw_conn u)) Ev_Close u = Inr t'"
    by (auto simp: conn_handleClose_def bind_ok_Inr_iff)
  then show ?thesis using framed_trans framed_disconnect framed_fire by blast
qed

lemma handleClose_input:
  "conn_handleClose t = Inr t' \<Longrightarrow> c_inputBuffer (tw_conn t') = c_inputBuffer (tw_conn t)"
  by (auto simp: conn_handleClose_def disconnect_def on_conn_def fire_def bind_ok_Inr_iff Let_def
      split: if_splits)

lemma framed_destory:
  assumes "destory t = Inr t'"
  shows "framed t t'"
proof -
  from assms obtain u where "disconnect t = Inr u" and "t' = on_channel removeChannel u"
    by (auto simp: destory_def bind_ok_Inr_iff)
  then show ?thesis using framed_trans framed_disconnect framed_remove by blast
qed

lemma framed_established:
  assumes "established t = Inr t'"
  shows "framed t t'"
proof -
  let ?t = "on_channel enableReading t"
  let ?u = "on_conn (\<lambda>c. c\<lparr>c_state := CONNECTED\<rparr>) ?t"
  have "framed ?t ?u"
    by (rule framed_conn) (simp_all add: conn_fd_def same_setup_def same_callbacks_iff bufs_ok_def)
  moreover have "fire (c_has_connection (tw_conn ?u)) (Ev_Connection CONNECTED) ?u = Inr t'"
    using assms unfolding established_def Let_def .
  ultimately show ?thesis using framed_enableReading framed_trans framed_fire by blast
qed

lemma framed_input:
  "(buf_inv (c_inputBuffer (tw_conn t)) \<Longrightarrow> buf_inv b) \<Longrightarrow>
    framed t (on_conn (\<lambda>c. c\<lparr>c_inputBuffer := b\<rparr>) t)"
  by (rule framed_conn) (simp_all add: conn_fd_def same_setup_def same_callbacks_iff bufs_ok_def)

lemma framed_output:
  "(buf_inv (c_outputBuffer (tw_conn t)) \<Longrightarrow> buf_inv b) \<Longrightarrow>
    framed t (on_conn (\<lambda>c. c\<lparr>c_outputBuffer := b\<rparr>) t)"
  by (rule framed_conn) (simp_all add: conn_fd_def same_setup_def same_callbacks_iff bufs_ok_def)

text \<open>What the kernel may deliver to a read into buffer \<open>b\<close>: no more than there is room for.\<close>

definition reads_ok :: "(int \<Rightarrow> read_result) \<Rightarrow> buffer \<Rightarrow> bool" where
  "reads_ok k b \<longleftrightarrow> readv_within k \<and> (\<forall>bs. k (iov_capacity b) = Read_Bytes bs \<longrightarrow> buf_room b (length bs))"

lemma readFromFd_inv:
  assumes "reads_ok k b" and "readFromFd k b = Inr (n, err, b')" and "buf_inv b"
  shows "buf_inv b'"
proof (cases "k (iov_capacity b)")
  case (Read_Fail e)
  from readFromFd_fail [where kernel_readv = k, OF assms(3) this] assms(2,3) show ?thesis by simp
next
  case (Read_Bytes bs)
  with assms(1) have "buf_room b (length bs)" "readv_within k" by (simp_all add: reads_ok_def)
  from readFromFd_ok [where kernel_readv = k, OF assms(3) this(1) Read_Bytes this(2)] assms(2) show ?thesis by force
qed

lemma handleRead_cases:
  assumes "conn_handleRead k t = Inr t'" and "reads_ok k (c_inputBuffer (tw_conn t))"
  obtains (message) b bs where "buf_inv (c_inputBuffer (tw_conn t)) \<Longrightarrow> buf_inv b" and
      "fire (c_has_message (tw_conn t)) (Ev_Message bs) (on_conn (\<lambda>c. c\<lparr>c_inputBuffer := b\<rparr>) t) = Inr t'"
  | (close) b where "buf_inv (c_inputBuffer (tw_conn t)) \<Longrightarrow> buf_inv b"
      and "conn_handleClose (on_conn (\<lambda>c. c\<lparr>c_inputBuffer := b\<rparr>) t) = Inr t'"
  | (error) b where "buf_inv (c_inputBuffer (tw_conn t)) \<Longrightarrow> buf_inv b"
      and "t' = on_conn (\<lambda>c. c\<lparr>c_inputBuffer := b\<rparr>) t"
proof (cases "readFromFd k (c_inputBuffer (tw_conn t))")
  case (Inl e)
  with assms show thesis by (simp add: conn_handleRead_def)
next
  case (Inr r)
  obtain n err b where r: "r = (n, err, b)" using prod_cases3 .
  have inv: "buf_inv b" if "buf_inv (c_inputBuffer (tw_conn t))"
    using readFromFd_inv [OF assms(2)] Inr r that by simp
  let ?t = "on_conn (\<lambda>c. c\<lparr>c_inputBuffer := b\<rparr>) t"
  have e: "conn_handleRead k t =
      (if n > 0 then bind_ok (readable_bytes b) (\<lambda>bs. fire (c_has_message (tw_conn t)) (Ev_Message bs) ?t)
       else if n = 0 then conn_handleClose ?t else Inr ?t)"
    using Inr r by (simp add: conn_handleRead_def on_conn_def)
  show thesis
  proof (cases "n > 0")
    case True
    with e assms(1) obtain bs where "fire (c_has_message (tw_conn t)) (Ev_Message bs) ?t = Inr t'"
      by (cases "readable_bytes b") simp_all
    with inv show thesis by (rule message)
  next
    case False
    show thesis
    proof (cases "n = 0")
      case True
      with e assms(1) have "conn_handleClose ?t = Inr t'" by simp
      with inv show thesis by (rule close)
    next
      case neq: False
      with False e assms(1) have "t' = ?t" by simp
      with inv show thesis by (rule error)
    qed
  qed
qed

lemma framed_handleRead:
  assumes "conn_handleRead k t = Inr t'" and "reads_ok k (c_inputBuffer (tw_conn t))"
  shows "framed t t'"
  using assms
proof (cases rule: handleRead_cases)
  case message
  from framed_trans [OF framed_input [OF message(1)] framed_fire [OF message(2)]] show ?thesis .
next
  case close
  from framed_trans [OF framed_input [OF close(1)] framed_handleClose [OF close(2)]] show ?thesis .
next
  case error
  from framed_input [OF error(1)] error(2) show ?thesis by simp
qed

lemma framed_same: "tw_conn t' = tw_conn t \<Longrightarrow> tw_epoller t' = tw_epoller t \<Longrightarrow> framed t t'"
  by (simp add: framed_def)

lemma framed_write: "kernel_write wr d t = (n, t') \<Longrightarrow> framed t t'"
  using kernel_write_conn framed_same by metis

lemma if3_cases:
  "(if a then Inr x else if b then (if c then f else Inr y) else Inr z) = Inr r \<Longrightarrow>
    r = x \<or> r = z \<or> r = y \<or> f = Inr r"
  by (auto split: if_splits)

lemma framed_handleWrite:
  assumes "conn_handleWrite wr t = Inr t'"
  shows "framed t t'"
proof (cases "hasWrite (c_channel (tw_conn t))")
  case False
  with assms show ?thesis by (simp add: conn_handleWrite_def)
next
  case True
  let ?c = "tw_conn t"
  obtain d where d: "readable_bytes (c_outputBuffer ?c) = Inr d"
    using assms True by (cases "readable_bytes (c_outputBuffer ?c)") (simp_all add: conn_handleWrite_def)
  obtain n t1 where w: "kernel_write wr d t = (n, t1)" by fastforce
  let ?t2 = "on_conn (\<lambda>c. c\<lparr>c_outputBuffer := retrieve (c_outputBuffer ?c) n\<rparr>) t1"
  let ?t3 = "on_channel disableWriting ?t2"
  have e: "conn_handleWrite wr t =
      (if n \<le> 0 then Inr t1
       else if readableBytes (retrieve (c_outputBuffer ?c) n) = 0
         then (if c_has_writeComplete ?c then fire True Ev_WriteComplete ?t3 else Inr ?t3)
       else Inr ?t2)"
    using True d w by (simp add: conn_handleWrite_def Let_def)
  have "tw_conn t1 = ?c" using w by simp
  show ?thesis
  proof (cases "n \<le> 0")
    case True
    with e assms framed_write [OF w] show ?thesis by simp
  next
    case False
    have f2: "framed t1 ?t2"
      using False retrieve_inv [of "c_outputBuffer ?c" n] \<open>tw_conn t1 = ?c\<close> by (intro framed_output) simp
    have f3: "framed t1 ?t3" by (rule framed_trans [OF f2 framed_disableWriting])
    consider "t' = t1" | "t' = ?t2" | "t' = ?t3" | "fire True Ev_WriteComplete ?t3 = Inr t'"
      using if3_cases [OF trans [OF e [symmetric] assms]] by blast
    then have "framed t1 t'"
    proof cases
      case 1
      then show ?thesis by simp
    next
      case 2
      show ?thesis unfolding 2 by (rule f2)
    next
      case 3
      show ?thesis unfolding 3 by (rule f3)
    next
      case 4
      show ?thesis by (rule framed_trans [OF f3 framed_fire [OF 4]])
    qed
    with framed_write [OF w] show ?thesis by (rule framed_trans)
  qed
qed

text \<open>Sending; the queue must have room for the message.\<close>

lemma framed_send_queue:
  assumes "send_queue m k r e t = Inr t'"
    and "buf_room (c_outputBuffer (tw_conn t)) (length (take (nat r) (drop (nat k) m)))"
  shows "framed t t'"
proof (cases "\<not> e \<and> r > 0")
  case False
  with assms(1) show ?thesis by (auto simp: send_queue_def Let_def)
next
  case True
  let ?c = "tw_conn t" and ?d = "take (nat r) (drop (nat k) m)"
  let ?n = "to_size_t (readableBytes (c_outputBuffer ?c)) + r"
  let ?high = "if ?n > c_highWaterMark ?c \<and> c_highWaterMark ?c \<noteq> 0
    then fire (c_has_highWaterMark ?c) (Ev_HighWaterMark ?n) t else Inr t"
  from assms(1) True obtain t1 out where t1: "?high = Inr t1"
    and out: "append_bytes (c_outputBuffer (tw_conn t1)) ?d = Inr out"
    and t': "t' = (let w2 = on_conn (\<lambda>c. c\<lparr>c_outputBuffer := out\<rparr>) t1
      in if \<not> hasWrite (c_channel (tw_conn w2)) then on_channel enableWriting w2 else w2)"
    by (auto simp: send_queue_def Let_def bind_ok_Inr_iff simp del: if_image_distrib)
  let ?t2 = "on_conn (\<lambda>c. c\<lparr>c_outputBuffer := out\<rparr>) t1"
  have f1: "framed t t1" using t1 framed_fire by (cases "?n > c_highWaterMark ?c \<and> c_highWaterMark ?c \<noteq> 0") auto
  have "tw_conn t1 = ?c" using t1 by (auto simp: fire_def split: if_splits)
  then have "buf_inv (c_outputBuffer (tw_conn t1)) \<Longrightarrow> buf_inv out"
    using append_bytes_ok [OF _ assms(2)] out by (metis sum.inject(2))
  then have f2: "framed t1 ?t2" by (rule framed_output)
  then have "framed t1 t'"
    using framed_trans [OF f2 framed_enableWriting] unfolding t' Let_def by simp
  with f1 show ?thesis by (rule framed_trans)
qed

lemma framed_send_direct:
  assumes "send_direct wr m len t = Inr (written, remain, e, t1)"
  shows "framed t t1 \<and> tw_conn t1 = tw_conn t"
proof -
  obtain n u where w: "kernel_write wr (take (nat len) m) t = (n, u)" by fastforce
  have u: "framed t u" "tw_conn u = tw_conn t" using framed_write [OF w] w by simp_all
  have "t1 = t \<or> t1 = u \<or> (\<exists>b ev. fire b ev u = Inr t1)"
    using assms w by (auto simp: send_direct_def Let_def bind_ok_Inr_iff split: if_splits)
  with u show ?thesis using framed_trans [OF u(1) framed_fire]
    by (auto simp: fire_def split: if_splits)
qed

lemma framed_send:
  assumes "send_string wr m t = Inr t'" and "buf_room (c_outputBuffer (tw_conn t)) (length m)"
  shows "framed t t'"
proof -
  from assms(1) obtain written remain e t1 where
      d: "send_direct wr m (to_int32 (int (length m))) t = Inr (written, remain, e, t1)"
    and q: "send_queue m written remain e t1 = Inr t'"
    by (auto simp: send_string_def send_bytes_def bind_ok_Inr_iff)
  from framed_send_direct [OF d] have f: "framed t t1" "tw_conn t1 = tw_conn t" by simp_all
  have "buf_room (c_outputBuffer (tw_conn t1)) (length (take (nat remain) (drop (nat written) m)))"
    using assms(2) f(2) by (simp add: buf_room_def)
  from framed_trans [OF f(1) framed_send_queue [OF q this]] show ?thesis .
qed

end
