(* ===== verification/Sync.thy ===== *)
theory Sync
  imports Cpp_Prelude "HOL-Library.Signed_Division"
begin

text \<open>
  \<open>base/Mutex.h\<close>, \<open>base/Condition.h\<close> and \<open>base/CountDown.h\<close>. The pthread objects
  behave as POSIX says: a mutex has at most one owner, \<open>pthread_cond_wait\<close> releases the
  mutex and sleeps in one step and takes the mutex again before it returns, a signal wakes
  one sleeper if there is one, a broadcast all, and a sleeper may wake without either.
  Threads are numbered by \<open>nat\<close>.
\<close>

section \<open>Definitions\<close>

subsection \<open>Mutex and lock guard\<close>

text \<open>Where a thread stands with respect to one mutex and one condition on it.\<close>

datatype guard_pc = Outside | Inside | Asleep | Reacquiring

record guarded =
  owner :: "nat option"
  pcs :: "nat \<Rightarrow> guard_pc"

definition mutex_lock :: "nat \<Rightarrow> guarded \<Rightarrow> guarded option" where
  "mutex_lock t s = (if owner s = None then Some (s\<lparr>owner := Some t\<rparr>) else None)"

definition mutex_unlock :: "guarded \<Rightarrow> guarded" where
  "mutex_unlock s = s\<lparr>owner := None\<rparr>"

inductive guard_step :: "guarded \<Rightarrow> guarded \<Rightarrow> bool" where
  guard_ctor: "pcs s t = Outside \<Longrightarrow> mutex_lock t s = Some s' \<Longrightarrow>
     guard_step s (s'\<lparr>pcs := (pcs s')(t := Inside)\<rparr>)"
| guard_dtor: "pcs s t = Inside \<Longrightarrow> s' = mutex_unlock s \<Longrightarrow>
     guard_step s (s'\<lparr>pcs := (pcs s')(t := Outside)\<rparr>)"
| cond_sleep: "pcs s t = Inside \<Longrightarrow> s' = mutex_unlock s \<Longrightarrow>
     guard_step s (s'\<lparr>pcs := (pcs s')(t := Asleep)\<rparr>)"
| cond_wake: "pcs s t = Asleep \<Longrightarrow> guard_step s (s\<lparr>pcs := (pcs s)(t := Reacquiring)\<rparr>)"
| cond_return: "pcs s t = Reacquiring \<Longrightarrow> mutex_lock t s = Some s' \<Longrightarrow>
     guard_step s (s'\<lparr>pcs := (pcs s')(t := Inside)\<rparr>)"

definition guard_init :: "guarded \<Rightarrow> bool" where
  "guard_init s \<longleftrightarrow> owner s = None \<and> (\<forall>t. pcs s t = Outside)"

subsection \<open>Condition variables\<close>

text \<open>
  The waiters of a condition: asleep, or woken and about to take the mutex again. The steps
  of the classes below are their critical sections between taking and releasing the mutex.
\<close>

record cond =
  sleeping :: "nat set"
  woken :: "nat set"

definition cond_init :: cond where
  "cond_init = \<lparr>sleeping = {}, woken = {}\<rparr>"

definition cond_wait :: "nat \<Rightarrow> cond \<Rightarrow> cond" where
  "cond_wait t c = c\<lparr>sleeping := insert t (sleeping c)\<rparr>"

definition cond_resume :: "nat \<Rightarrow> cond \<Rightarrow> cond" where
  "cond_resume t c = c\<lparr>woken := woken c - {t}\<rparr>"

inductive cond_notify :: "cond \<Rightarrow> cond \<Rightarrow> bool" where
  notify_none: "sleeping c = {} \<Longrightarrow> cond_notify c c"
| notify_one: "t \<in> sleeping c \<Longrightarrow>
     cond_notify c \<lparr>sleeping = sleeping c - {t}, woken = insert t (woken c)\<rparr>"

text \<open>The same with the thread to wake chosen by the caller, for executable schedules.\<close>

definition cond_signal :: "nat option \<Rightarrow> cond \<Rightarrow> cond option" where
  "cond_signal w c =
     (case w of
        None \<Rightarrow> if sleeping c = {} then Some c else None
      | Some t \<Rightarrow> if t \<in> sleeping c
          then Some \<lparr>sleeping = sleeping c - {t}, woken = insert t (woken c)\<rparr> else None)"

definition cond_notifyAll :: "cond \<Rightarrow> cond" where
  "cond_notifyAll c = \<lparr>sleeping = {}, woken = woken c \<union> sleeping c\<rparr>"

definition cond_spurious :: "nat \<Rightarrow> cond \<Rightarrow> cond" where
  "cond_spurious t c = \<lparr>sleeping = sleeping c - {t}, woken = insert t (woken c)\<rparr>"

definition waiting :: "nat \<Rightarrow> cond \<Rightarrow> bool" where
  "waiting t c \<longleftrightarrow> t \<in> sleeping c \<or> t \<in> woken c"

definition cond_wf :: "cond \<Rightarrow> bool" where
  "cond_wf c \<longleftrightarrow> finite (sleeping c) \<and> finite (woken c) \<and> sleeping c \<inter> woken c = {}"

subsection \<open>The deadline of a timed wait\<close>

record timespec =
  tv_sec :: int
  tv_nsec :: int

definition nanoSecondsPerSecond :: int where
  "nanoSecondsPerSecond = 1000 * 1000 * 1000"

text \<open>
  The argument is the number of nanoseconds the seconds were converted to; the second
  assignment reads the old \<open>tv_nsec\<close>, as only \<open>tv_sec\<close> was changed before.
\<close>

definition wait_deadline :: "timespec \<Rightarrow> int \<Rightarrow> timespec" where
  "wait_deadline now nanoSeconds =
     (let abstime = now\<lparr>tv_sec := tv_sec now
            + (tv_nsec now + nanoSeconds) sdiv nanoSecondsPerSecond\<rparr>
      in abstime\<lparr>tv_nsec := (tv_nsec abstime + nanoSeconds) smod nanoSecondsPerSecond\<rparr>)"

subsection \<open>CountDown\<close>

record countdown =
  count :: int
  cd_cond :: cond
  released :: "nat set"

definition countdown_ctor :: "int \<Rightarrow> countdown" where
  "countdown_ctor n = \<lparr>count = n, cd_cond = cond_init, released = {}\<rparr>"

definition down :: "countdown \<Rightarrow> countdown" where
  "down s =
     (let s1 = s\<lparr>count := count s - 1\<rparr>
      in if count s1 = 0 then s1\<lparr>cd_cond := cond_notifyAll (cd_cond s1)\<rparr> else s1)"

text \<open>The test of the loop in \<open>wait\<close>, with the mutex held.\<close>

definition wait_check :: "nat \<Rightarrow> countdown \<Rightarrow> countdown" where
  "wait_check t s =
     (if count s > 0 then s\<lparr>cd_cond := cond_wait t (cd_cond s)\<rparr>
      else s\<lparr>released := insert t (released s)\<rparr>)"

inductive countdown_step :: "countdown \<Rightarrow> countdown \<Rightarrow> bool" where
  cd_down: "countdown_step s (down s)"
| cd_wait: "\<not> waiting t (cd_cond s) \<Longrightarrow> countdown_step s (wait_check t s)"
| cd_resume: "t \<in> woken (cd_cond s) \<Longrightarrow>
     countdown_step s (wait_check t (s\<lparr>cd_cond := cond_resume t (cd_cond s)\<rparr>))"
| cd_spurious: "t \<in> sleeping (cd_cond s) \<Longrightarrow>
     countdown_step s (s\<lparr>cd_cond := cond_spurious t (cd_cond s)\<rparr>)"

inductive_cases countdown_step_cases: "countdown_step s s'"

section \<open>Lemmas\<close>

subsection \<open>Mutual exclusion\<close>

definition guard_inv :: "guarded \<Rightarrow> bool" where
  "guard_inv s \<longleftrightarrow> (\<forall>t. pcs s t = Inside \<longleftrightarrow> owner s = Some t)"

interpretation guard: state_invariant guard_init guard_step guard_inv
proof unfold_locales
  show "guard_inv s" if "guard_init s" for s
    using that by (simp add: guard_init_def guard_inv_def)
  show "guard_inv t" if "guard_step s t" and "guard_inv s" for s t
    using that
  proof cases
    case guard_dtor
    with that(2) show ?thesis by (auto simp: guard_inv_def mutex_unlock_def)
  next
    case cond_sleep
    with that(2) show ?thesis by (auto simp: guard_inv_def mutex_unlock_def)
  next
    case (cond_wake ta)
    with that(2) have "owner s \<noteq> Some ta" unfolding guard_inv_def by (metis guard_pc.distinct(7))
    with cond_wake that(2) show ?thesis by (auto simp: guard_inv_def)
  qed (auto simp: guard_inv_def mutex_lock_def split: if_splits)
qed

subsection \<open>Condition variables\<close>

inductive_simps cond_notify_simps: "cond_notify c c'"

lemma cond_signal_notify: "cond_signal w c = Some c' \<Longrightarrow> cond_notify c c'"
  by (auto simp: cond_signal_def cond_notify_simps split: option.splits if_splits)

lemma woken_resume [simp]: "woken (cond_resume t c) = woken c - {t}"
  by (simp add: cond_resume_def)

lemma cond_wf_init [simp]: "cond_wf cond_init"
  by (simp add: cond_wf_def cond_init_def)

lemma cond_wf_wait: "cond_wf c \<Longrightarrow> t \<notin> woken c \<Longrightarrow> cond_wf (cond_wait t c)"
  by (auto simp: cond_wf_def cond_wait_def)

lemma cond_wf_resume: "cond_wf c \<Longrightarrow> cond_wf (cond_resume t c)"
  by (auto simp: cond_wf_def cond_resume_def)

lemma cond_wf_notify: "cond_notify c c' \<Longrightarrow> cond_wf c \<Longrightarrow> cond_wf c'"
  by (auto simp: cond_wf_def cond_notify_simps)

lemma cond_wf_notifyAll: "cond_wf c \<Longrightarrow> cond_wf (cond_notifyAll c)"
  by (auto simp: cond_wf_def cond_notifyAll_def)

lemma cond_wf_spurious: "cond_wf c \<Longrightarrow> cond_wf (cond_spurious t c)"
  by (auto simp: cond_wf_def cond_spurious_def)

lemmas cond_wf_intros =
  cond_wf_wait cond_wf_resume cond_wf_notify cond_wf_notifyAll cond_wf_spurious

lemma waiting_wait [simp]: "waiting u (cond_wait t c) \<longleftrightarrow> u = t \<or> waiting u c"
  by (auto simp: waiting_def cond_wait_def)

lemma waiting_signal: "cond_signal w c = Some c' \<Longrightarrow> waiting u c' \<longleftrightarrow> waiting u c"
  by (auto simp: waiting_def cond_signal_def split: option.splits if_splits)

lemma waiting_notifyAll [simp]: "waiting u (cond_notifyAll c) \<longleftrightarrow> waiting u c"
  by (auto simp: waiting_def cond_notifyAll_def)

lemma waiting_spurious: "t \<in> sleeping c \<Longrightarrow> waiting u (cond_spurious t c) \<longleftrightarrow> waiting u c"
  by (auto simp: waiting_def cond_spurious_def)

lemma waiting_resume:
  "cond_wf c \<Longrightarrow> t \<in> woken c \<Longrightarrow> waiting u (cond_resume t c) \<longleftrightarrow> u \<noteq> t \<and> waiting u c"
  by (auto simp: waiting_def cond_resume_def cond_wf_def)

lemma sleeping_notifyAll [simp]: "sleeping (cond_notifyAll c) = {}"
  by (simp add: cond_notifyAll_def)

lemma sleeping_resume [simp]: "sleeping (cond_resume t c) = sleeping c"
  by (simp add: cond_resume_def)

lemma sleeping_signal: "cond_signal w c = Some c' \<Longrightarrow> sleeping c' \<subseteq> sleeping c"
  by (auto simp: cond_signal_def split: option.splits if_splits)

lemma sleeping_spurious: "sleeping (cond_spurious t c) \<subseteq> sleeping c"
  by (auto simp: cond_spurious_def)

lemma cond_notify_exists: "\<exists>c'. cond_notify c c'"
  by (cases "sleeping c = {}") (auto simp: cond_notify_simps)

text \<open>
  The account behind every "no lost wake-up": as long as somebody sleeps, the number of
  pending events (\<open>n\<close>) is at most the number of woken threads.
\<close>

definition wakeups_cover :: "nat \<Rightarrow> cond \<Rightarrow> bool" where
  "wakeups_cover n c \<longleftrightarrow> (sleeping c \<noteq> {} \<longrightarrow> n \<le> card (woken c))"

lemma cover_notify:
  "cond_notify c c' \<Longrightarrow> cond_wf c \<Longrightarrow> wakeups_cover n c \<Longrightarrow> wakeups_cover (Suc n) c'"
  by (auto simp: cond_notify_simps cond_wf_def wakeups_cover_def disjoint_iff)

lemmas cover_signal = cover_notify [OF cond_signal_notify]
lemmas cond_wf_signal = cond_wf_notify [OF cond_signal_notify]

text \<open>The account when one woken thread is on its way: the others cover one event less.\<close>

lemma cover_resume_diff:
  "wakeups_cover n c \<Longrightarrow> t \<in> woken c \<Longrightarrow> cond_wf c \<Longrightarrow> wakeups_cover (n - 1) (cond_resume t c)"
  by (auto simp: wakeups_cover_def cond_resume_def cond_wf_def)

lemma cover_sleep: "wakeups_cover 0 (cond_wait t c)"
  by (simp add: wakeups_cover_def)

lemma cover_resume:
  "wakeups_cover (Suc n) c \<Longrightarrow> t \<in> woken c \<Longrightarrow> cond_wf c \<Longrightarrow> wakeups_cover n (cond_resume t c)"
  by (auto simp: wakeups_cover_def cond_resume_def cond_wf_def)

lemma cover_mono: "wakeups_cover n c \<Longrightarrow> m \<le> n \<Longrightarrow> wakeups_cover m c"
  by (auto simp: wakeups_cover_def)

lemma cover_minus: "wakeups_cover n c \<Longrightarrow> wakeups_cover (n - m) c"
  by (auto simp: wakeups_cover_def)

lemma cover_minus_Suc: "wakeups_cover (n - m) c \<Longrightarrow> wakeups_cover (n - Suc m) c"
  by (auto simp: wakeups_cover_def)

lemma cover_spurious: "wakeups_cover n c \<Longrightarrow> t \<in> sleeping c \<Longrightarrow> cond_wf c \<Longrightarrow>
    wakeups_cover n (cond_spurious t c)"
  by (auto simp: wakeups_cover_def cond_spurious_def cond_wf_def card_insert_if)

lemma cover_notifyAll: "wakeups_cover n (cond_notifyAll c)"
  by (simp add: wakeups_cover_def cond_notifyAll_def)

lemma cover_awake: "wakeups_cover n c \<Longrightarrow> 0 < n \<Longrightarrow> sleeping c \<noteq> {} \<Longrightarrow> woken c \<noteq> {}"
  by (auto simp: wakeups_cover_def)

subsection \<open>CountDown\<close>

definition countdown_start :: "int \<Rightarrow> countdown \<Rightarrow> bool" where
  "countdown_start n s \<longleftrightarrow> s = countdown_ctor n"

definition countdown_inv :: "countdown \<Rightarrow> bool" where
  "countdown_inv s \<longleftrightarrow> (sleeping (cd_cond s) \<noteq> {} \<longrightarrow> 0 < count s)
     \<and> (released s \<noteq> {} \<longrightarrow> count s \<le> 0)"

interpretation countdown: state_invariant "countdown_start n" countdown_step countdown_inv
proof unfold_locales
  show "countdown_inv s" if "countdown_start n s" for s
    using that by (simp add: countdown_start_def countdown_ctor_def countdown_inv_def cond_init_def)
  show "countdown_inv t" if "countdown_step s t" and "countdown_inv s" for s t
    using that
  proof cases
    case cd_down
    with that(2) show ?thesis
      by (auto simp: countdown_inv_def down_def Let_def cond_notifyAll_def)
  qed (auto simp: countdown_inv_def wait_check_def cond_wait_def cond_resume_def cond_spurious_def)
qed

section \<open>Properties\<close>

text \<open>
  Mutual exclusion: two threads are never between the constructor and the destructor of a
  \<open>MutexLockGuard\<close> on one mutex at the same time, and a thread that is back from
  \<open>Condition::wait\<close> owns the mutex again.
\<close>

theorem mutual_exclusion:
  assumes "reach guard_init guard_step s" and "pcs s t = Inside"
  shows "owner s = Some t \<and> (\<forall>u. pcs s u = Inside \<longrightarrow> u = t)"
  using guard.reach_inv [OF assms(1)] assms(2) by (simp add: guard_inv_def)

theorem mutual_exclusion_witness:
  "owner \<lparr>owner = Some 3, pcs = (\<lambda>_. Outside)(3 := Inside)\<rparr> = Some (3::nat)"
proof -
  let ?s = "\<lparr>owner = None, pcs = \<lambda>_. Outside\<rparr>"
  have "guard_step ?s \<lparr>owner = Some 3, pcs = (\<lambda>_. Outside)(3 := Inside)\<rparr>"
    using guard_ctor [of ?s 3 "?s\<lparr>owner := Some 3\<rparr>"] by (simp add: mutex_lock_def)
  then have "reach guard_init guard_step \<lparr>owner = Some 3, pcs = (\<lambda>_. Outside)(3 := Inside)\<rparr>"
    by (rule reach_step [OF reach_start, rotated]) (simp add: guard_init_def)
  from mutual_exclusion [OF this, of 3] show ?thesis by simp
qed

text \<open>
  The deadline of a timed wait: for a wait of a non-negative length \<open>wait(double)\<close>
  passes \<open>pthread_cond_timedwait\<close> a normalised time, exactly that much after now.
\<close>

theorem wait_deadline_exact:
  assumes "0 \<le> tv_nsec now" and "0 \<le> ns"
  shows "0 \<le> tv_nsec (wait_deadline now ns) \<and> tv_nsec (wait_deadline now ns) < 1000000000
    \<and> tv_sec (wait_deadline now ns) * 1000000000 + tv_nsec (wait_deadline now ns)
      = tv_sec now * 1000000000 + tv_nsec now + ns"
proof -
  let ?n = "tv_nsec now + ns"
  have "?n sdiv 1000000000 = ?n div 1000000000" and "?n smod 1000000000 = ?n mod 1000000000"
    using assms by (simp_all add: signed_divide_int_def signed_modulo_int_def sgn_if)
  then show ?thesis
    by (simp add: wait_deadline_def Let_def nanoSecondsPerSecond_def algebra_simps)
qed

theorem wait_deadline_exact_witness:
  "tv_nsec (wait_deadline \<lparr>tv_sec = 5, tv_nsec = 900000000\<rparr> 1200000000) = 100000000"
  using wait_deadline_exact [of "\<lparr>tv_sec = 5, tv_nsec = 900000000\<rparr>" 1200000000]
  by (simp add: wait_deadline_def nanoSecondsPerSecond_def signed_divide_int_def)

text \<open>A negative length leaves a negative \<open>tv_nsec\<close>, which the call refuses.\<close>

lemma wait_deadline_negative:
  "tv_nsec (wait_deadline \<lparr>tv_sec = 5, tv_nsec = 0\<rparr> (- 1)) = - 1"
  by (simp add: wait_deadline_def nanoSecondsPerSecond_def signed_modulo_int_def
      signed_divide_int_def)

text \<open>
  The latch: no thread passes \<open>CountDown::wait\<close> before the count is down to zero, and
  from then on nobody sleeps and every woken thread passes when it gets the mutex.
\<close>

theorem countdown_latch:
  assumes "reach (countdown_start n) countdown_step s"
  shows "(released s \<noteq> {} \<longrightarrow> count s \<le> 0)
    \<and> (count s \<le> 0 \<longrightarrow> sleeping (cd_cond s) = {}
        \<and> (\<forall>t. t \<in> released (wait_check t (s\<lparr>cd_cond := cond_resume t (cd_cond s)\<rparr>))))"
  using countdown.reach_inv [OF assms] by (auto simp: countdown_inv_def wait_check_def)

theorem countdown_latch_witness:
  "sleeping (cd_cond (down (wait_check 7 (countdown_ctor 1)))) = {}"
proof -
  have "reach (countdown_start 1) countdown_step (countdown_ctor 1)"
    by (rule reach_start) (simp add: countdown_start_def)
  moreover have "countdown_step (countdown_ctor 1) (wait_check 7 (countdown_ctor 1))"
    by (rule cd_wait) (simp add: waiting_def countdown_ctor_def cond_init_def)
  ultimately have "reach (countdown_start 1) countdown_step (down (wait_check 7 (countdown_ctor 1)))"
    by (blast intro: reach_step cd_down)
  from countdown_latch [OF this] show ?thesis
    by (simp add: down_def wait_check_def countdown_ctor_def)
qed

end
