(* ===== verification/Current_Thread.thy ===== *)
theory Current_Thread
  imports Cpp_Prelude
begin

text \<open>
  \<open>base/CurrentThread.h\<close>, \<open>base/CurrentThread.cpp\<close> and \<open>base/Exception.h\<close>: the cached
  thread id, the thread's name, the rendering of a stack trace and the exception that
  carries one. \<open>backtrace_symbols\<close> and \<open>__cxa_demangle\<close> are parameters: the symbols of the
  frames, and a partial function from mangled to demangled names.
\<close>

section \<open>Definitions\<close>

text \<open>The thread-local variables.\<close>

record thread_locals =
  t_catchedTid :: int
  t_threadName :: string

definition initial_locals :: thread_locals where
  "initial_locals = \<lparr>t_catchedTid = 0, t_threadName = ''unknow''\<rparr>"

text \<open>\<open>sys\<close> is what the system call returns in this thread.\<close>

definition gettid :: "int \<Rightarrow> thread_locals \<Rightarrow> int \<times> thread_locals" where
  "gettid sys l =
     (let l1 = (if t_catchedTid l = 0 then l\<lparr>t_catchedTid := sys\<rparr> else l)
      in (t_catchedTid l1, l1))"

definition threadName :: "thread_locals \<Rightarrow> string" where
  "threadName l = t_threadName l"

text \<open>The pointers \<open>leftPar\<close> and \<open>plus\<close> after the scan of one symbol, as offsets.\<close>

fun scan_symbol :: "nat \<Rightarrow> string \<Rightarrow> nat option \<Rightarrow> nat option \<Rightarrow> nat option \<times> nat option" where
  "scan_symbol p [] lp pl = (lp, pl)"
| "scan_symbol p (c # cs) lp pl =
     (if c = CHR ''('' then scan_symbol (Suc p) cs (Some p) pl
      else if c = CHR ''+'' then scan_symbol (Suc p) cs lp (Some p)
      else scan_symbol (Suc p) cs lp pl)"

text \<open>
  What is passed to the demangler: the C string after \<open>leftPar\<close>, with a terminator stored
  at \<open>plus\<close>.
\<close>

definition mangled_name :: "string \<Rightarrow> nat \<Rightarrow> nat \<Rightarrow> string" where
  "mangled_name s l p = drop (Suc l) (if l < p then take p s else s)"

definition frame_line :: "(string \<Rightarrow> string option) \<Rightarrow> string \<Rightarrow> string" where
  "frame_line demangle s =
     (case scan_symbol 0 s None None of
        (Some l, Some p) \<Rightarrow>
          (case demangle (mangled_name s l p) of
             Some name \<Rightarrow> take (Suc l) s @ name @ drop p s @ [CHR 0x0A]
           | None \<Rightarrow> [])
      | _ \<Rightarrow> [])"

definition maxFrameSize :: nat where
  "maxFrameSize = 200"

text \<open>
  \<open>frames\<close> are the symbols of the whole call stack, innermost first; \<open>backtrace\<close> stores
  at most \<open>maxFrameSize\<close>, and \<open>None\<close> is a \<open>backtrace_symbols\<close> out of memory.
\<close>

definition stackTrace :: "(string \<Rightarrow> string option) \<Rightarrow> string list option \<Rightarrow> string" where
  "stackTrace demangle frames =
     (case frames of
        None \<Rightarrow> []
      | Some symbols \<Rightarrow> concat (map (frame_line demangle) (drop 1 (take maxFrameSize symbols))))"

record exception =
  exc_msg :: string
  exc_stack :: string

definition exception_ctor ::
  "(string \<Rightarrow> string option) \<Rightarrow> string list option \<Rightarrow> string \<Rightarrow> exception" where
  "exception_ctor demangle frames m = \<lparr>exc_msg = m, exc_stack = stackTrace demangle frames\<rparr>"

section \<open>Lemmas\<close>

lemma gettid_cached: "t_catchedTid l \<noteq> 0 \<Longrightarrow> gettid sys l = (t_catchedTid l, l)"
  by (simp add: gettid_def)

lemma scan_symbol_none:
  "CHR ''('' \<notin> set s \<Longrightarrow> CHR ''+'' \<notin> set s \<Longrightarrow> scan_symbol p s l q = (l, q)"
  by (induction s arbitrary: p) auto

lemma scan_symbol_no_plus:
  "CHR ''+'' \<notin> set s \<Longrightarrow> \<exists>l'. scan_symbol p s l q = (l', q)"
  by (induction s arbitrary: p l) auto

lemma scan_symbol_append:
  "scan_symbol p (s @ s') l q =
    (case scan_symbol p s l q of (l', q') \<Rightarrow> scan_symbol (p + length s) s' l' q')"
  by (induction s arbitrary: p l q) (auto split: prod.splits)

text \<open>The scan of a symbol \<open>module(mangled+offset) [address]\<close>.\<close>

lemma scan_symbol_glibc:
  assumes "CHR ''('' \<notin> set name" and "CHR ''+'' \<notin> set name"
    and "CHR ''('' \<notin> set off" and "CHR ''+'' \<notin> set off"
  shows "scan_symbol 0 (m @ CHR ''('' # name @ CHR ''+'' # off) None None =
    (Some (length m), Some (Suc (length m + length name)))"
proof -
  obtain l q where "scan_symbol 0 m None None = (l, q)" by fastforce
  with assms show ?thesis
    by (simp add: scan_symbol_append scan_symbol_none)
qed

section \<open>Properties\<close>

text \<open>
  Stack trace: a frame that glibc prints as \<open>module(mangled+offset) [address]\<close> is
  rendered with the mangled name replaced by the demangled one, or left out when the name
  does not demangle; the innermost frame, \<open>stackTrace\<close> itself, is not printed.
\<close>

theorem stackTrace_demangles:
  assumes "CHR ''('' \<notin> set name" and "CHR ''+'' \<notin> set name"
    and "CHR ''('' \<notin> set off" and "CHR ''+'' \<notin> set off"
  shows "stackTrace demangle (Some (self # (m @ CHR ''('' # name @ CHR ''+'' # off) # frames)) =
    (case demangle name of
       Some d \<Rightarrow> m @ CHR ''('' # d @ CHR ''+'' # off @ [CHR 0x0A]
     | None \<Rightarrow> []) @ stackTrace demangle (Some (self # take (maxFrameSize - 2) frames))"
proof -
  have "mangled_name (m @ CHR ''('' # name @ CHR ''+'' # off) (length m)
      (Suc (length m + length name)) = name"
    by (simp add: mangled_name_def)
  then show ?thesis
    by (simp add: stackTrace_def frame_line_def scan_symbol_glibc [OF assms(1-4)] maxFrameSize_def
        numeral_eq_Suc split: option.split)
qed

definition example_demangle :: "string \<Rightarrow> string option" where
  "example_demangle s = (if s = ''_Z3foov'' then Some ''foo()'' else None)"

theorem stackTrace_demangles_witness:
  "stackTrace example_demangle (Some [''self'', ''a.out(_Z3foov+0x1f) [0x4]'']) =
    ''a.out(foo()+0x1f) [0x4]'' @ [CHR 0x0A]"
  using stackTrace_demangles [of "''_Z3foov''" "''0x1f) [0x4]''" example_demangle "''self''"
      "''a.out''" "[]"]
  by (simp add: example_demangle_def maxFrameSize_def stackTrace_def)

end
