(* ===== verification/Thread.thy ===== *)
theory Thread
  imports Current_Thread Log_Stream
begin

text \<open>
  \<open>base/Thread.h\<close> and \<open>base/Thread.cpp\<close>: the wrapper of a pthread. The pthreads of the
  process are a table from handles to what POSIX says may still be done with them; a handle
  outside the table names no thread, and using it is undefined. Handles may be reused.
\<close>

section \<open>Definitions\<close>

datatype pthread = Running | Running_Detached | Terminated

type_synonym pthreads = "nat \<Rightarrow> pthread option"

record thread_obj =
  th_isRunning :: bool
  th_pthreadId :: nat
  th_tid :: int
  th_name :: string

text \<open>The constructor, with \<open>_numOfThreads\<close> before and after; an \<open>atomic<int>\<close> wraps.\<close>

definition thread_ctor :: "string \<Rightarrow> int \<Rightarrow> thread_obj \<times> int" where
  "thread_ctor name numOfThreads =
     (let num = to_int32 (numOfThreads + 1)
      in (\<lparr>th_isRunning = False, th_pthreadId = 0, th_tid = 0,
           th_name = (if name = '''' then ''Thread-'' @ decimal num else name)\<rparr>, num))"

subsection \<open>pthread calls\<close>

definition pthread_detach :: "nat \<Rightarrow> pthreads \<Rightarrow> pthreads outcome" where
  "pthread_detach h tab =
     (case tab h of
        Some Running \<Rightarrow> Inr (tab(h := Some Running_Detached))
      | Some Terminated \<Rightarrow> Inr (tab(h := None))
      | _ \<Rightarrow> Inl Bad_Thread_Handle)"

text \<open>A join blocks (\<open>None\<close>) while the thread runs.\<close>

definition pthread_join :: "nat \<Rightarrow> pthreads \<Rightarrow> pthreads option outcome" where
  "pthread_join h tab =
     (case tab h of
        Some Running \<Rightarrow> Inr None
      | Some Terminated \<Rightarrow> Inr (Some (tab(h := None)))
      | _ \<Rightarrow> Inl Bad_Thread_Handle)"

text \<open>A thread returns from its start routine.\<close>

definition pthread_return :: "nat \<Rightarrow> pthreads \<Rightarrow> pthreads" where
  "pthread_return h tab =
     (case tab h of
        Some Running \<Rightarrow> tab(h := Some Terminated)
      | Some Running_Detached \<Rightarrow> tab(h := None)
      | _ \<Rightarrow> tab)"

subsection \<open>Operations\<close>

text \<open>
  \<open>start\<close>: \<open>h\<close> is the free handle \<open>pthread_create\<close> returns, or \<open>None\<close> when it fails,
  which is logged at \<open>FATAL\<close> and so aborts.
\<close>

definition thread_start :: "nat option \<Rightarrow> thread_obj \<Rightarrow> pthreads \<Rightarrow> (thread_obj \<times> pthreads) outcome" where
  "thread_start created th tab =
     (let th1 = th\<lparr>th_isRunning := True\<rparr>
      in case created of
           None \<Rightarrow> (let th2 = th1\<lparr>th_isRunning := False\<rparr> in Inl Aborted)
         | Some h \<Rightarrow> Inr (th1\<lparr>th_pthreadId := h\<rparr>, tab(h := Some Running)))"

definition thread_join :: "thread_obj \<Rightarrow> pthreads \<Rightarrow> pthreads option outcome" where
  "thread_join th tab = pthread_join (th_pthreadId th) tab"

definition thread_dtor :: "thread_obj \<Rightarrow> pthreads \<Rightarrow> pthreads outcome" where
  "thread_dtor th tab = (if th_isRunning th then pthread_detach (th_pthreadId th) tab else Inr tab)"

text \<open>How the function of a thread ends; \<open>what\<close> is what the exception's \<open>what()\<close> returns.\<close>

datatype func_end =
    Func_Returns
  | Throws_Exception exception string
  | Throws_Std string
  | Throws_Other

datatype thread_end = Thread_Returns | Thread_Aborts | Thread_Rethrows

record thread_run =
  run_obj :: thread_obj
  run_locals :: thread_locals
  run_process_name :: string
  run_stderr :: string
  run_end :: thread_end

definition newline :: string where
  "newline = [CHR 0x0A]"

text \<open>
  \<open>run\<close>, on the object the argument points to: \<open>sys\<close> is the kernel's id of the thread, the
  kernel keeps 15 characters of its name, and \<open>trace\<close> is the stack trace of the handler.
\<close>

definition thread_run_fn :: "int \<Rightarrow> string \<Rightarrow> func_end \<Rightarrow> thread_obj \<Rightarrow> thread_locals \<Rightarrow> thread_run" where
  "thread_run_fn sys trace fe th l =
     (let (tid, l1) = gettid sys l;
          th1 = th\<lparr>th_tid := tid\<rparr>;
          l2 = l1\<lparr>t_threadName := th_name th1\<rparr>;
          done = (\<lambda>n err e. \<lparr>run_obj = th1, run_locals = l2\<lparr>t_threadName := n\<rparr>,
                    run_process_name = take 15 (th_name th1), run_stderr = err, run_end = e\<rparr>)
      in case fe of
           Func_Returns \<Rightarrow> done ''finished'' [] Thread_Returns
         | Throws_Exception e what \<Rightarrow>
             done ''crashed''
               (''exception caught in Thread '' @ th_name th1 @ newline
                @ ''reason: '' @ what @ newline
                @ ''exception message:: '' @ exc_msg e @ newline
                @ ''stack trace: '' @ newline @ exc_stack e @ newline) Thread_Aborts
         | Throws_Std what \<Rightarrow>
             done ''crashed''
               (''exception caught in Thread '' @ th_name th1 @ newline
                @ ''reason: '' @ what @ newline
                @ ''stack trace: '' @ newline @ trace @ newline) Thread_Aborts
         | Throws_Other \<Rightarrow>
             done ''crashed'' (''unknown exception caught in Thread '' @ th_name th1 @ newline)
               Thread_Rethrows)"

section \<open>Lemmas\<close>

lemma thread_start_cases:
  "thread_start created th tab = Inr (th', tab') \<longleftrightarrow>
    (\<exists>h. created = Some h \<and> th' = th\<lparr>th_isRunning := True, th_pthreadId := h\<rparr>
       \<and> tab' = tab(h := Some Running))"
  by (auto simp: thread_start_def Let_def split: option.splits)

lemma thread_join_done:
  "thread_join th tab = Inr (Some tab') \<longleftrightarrow>
    tab (th_pthreadId th) = Some Terminated \<and> tab' = tab(th_pthreadId th := None)"
  by (auto simp: thread_join_def pthread_join_def split: option.splits pthread.splits)

lemmas pthread_defs = pthread_detach_def pthread_join_def pthread_return_def thread_dtor_def
  thread_join_def

section \<open>Properties\<close>

text \<open>
  No thread leaks: a started thread that is joined after it returned, or whose object is
  destroyed instead, before or after it returned, leaves the table of pthreads as it was
  before \<open>start\<close>; none of these calls faults.
\<close>

theorem thread_released:
  assumes "thread_start (Some h) th tab = Inr (th1, tab1)" and "tab h = None"
  shows "thread_join th1 (pthread_return h tab1) = Inr (Some tab)
    \<and> thread_dtor th1 (pthread_return h tab1) = Inr tab
    \<and> (\<exists>tab2. thread_dtor th1 tab1 = Inr tab2 \<and> pthread_return h tab2 = tab)"
  using assms by (auto simp: thread_start_cases pthread_defs fun_upd_idem)

theorem thread_released_witness:
  "thread_join \<lparr>th_isRunning = True, th_pthreadId = 4, th_tid = 0, th_name = ''t''\<rparr>
     (pthread_return 4 ((\<lambda>_. None)(4 := Some Running))) = Inr (Some (\<lambda>_. None))"
  using thread_released [of 4 "\<lparr>th_isRunning = False, th_pthreadId = 0, th_tid = 0, th_name = ''t''\<rparr>"
      "\<lambda>_. None"]
  by (simp add: thread_start_def)

text \<open>
  Destroying a joined thread: \<open>join\<close> leaves \<open>_isRunning\<close> set, so the destructor detaches
  a handle that names no thread any more; and when the handle was reused by another
  object's thread in between, it detaches that one, whose \<open>join\<close> then faults.
\<close>

theorem destroy_after_join:
  assumes "thread_join th tab = Inr (Some tab1)" and "th_isRunning th"
  shows "thread_dtor th tab1 = Inl Bad_Thread_Handle
    \<and> (\<forall>other other1 tab2. thread_start (Some (th_pthreadId th)) other tab1 = Inr (other1, tab2) \<longrightarrow>
        (\<exists>tab3. thread_dtor th tab2 = Inr tab3 \<and> thread_join other1 tab3 = Inl Bad_Thread_Handle))"
  using assms by (auto simp: thread_join_done thread_start_cases) (auto simp: pthread_defs)

theorem destroy_after_join_witness:
  "thread_dtor \<lparr>th_isRunning = True, th_pthreadId = 4, th_tid = 0, th_name = ''t''\<rparr>
     ((\<lambda>_. None)(4 := None)) = Inl Bad_Thread_Handle"
  using destroy_after_join [of "\<lparr>th_isRunning = True, th_pthreadId = 4, th_tid = 0, th_name = ''t''\<rparr>"
      "(\<lambda>_. None)(4 := Some Terminated)" "(\<lambda>_. None)(4 := None)"]
  by (simp add: pthread_defs)

end
