(* ===== verification/Event_Loop_Pool.thy ===== *)
theory Event_Loop_Pool
  imports Sync Thread
begin

text \<open>
  \<open>net/EventLoopThread.h\<close>, \<open>net/EventLoopThreadPool.h\<close> and their sources: the handshake by
  which a thread hands the address of the loop on its stack to the thread that started it,
  its destruction, and the choice of a loop for each connection. Loops are addresses.
\<close>

section \<open>Definitions\<close>

subsection \<open>EventLoopThread\<close>

text \<open>
  \<open>et_loop\<close> is the member \<open>_loop\<close>; the object it points to lives on the stack of \<open>run\<close>, from
  \<open>Constructed\<close> until the function is left. The owner is in \<open>start\<close>, or has its result.
\<close>

datatype runner_pc = Not_Running | Starting | Looping | Left

datatype owner_pc = Owner_Out | Owner_Waits | Owner_Has nat

record loop_thread =
  et_loop :: "nat option"
  et_cond :: cond
  et_runner :: runner_pc
  et_owner :: owner_pc
  et_quit :: bool

definition loop_thread_ctor :: loop_thread where
  "loop_thread_ctor = \<lparr>et_loop = None, et_cond = cond_init, et_runner = Not_Running,
     et_owner = Owner_Out, et_quit = False\<rparr>"

text \<open>The test of the loop in \<open>start\<close>, by the owner, thread 0.\<close>

definition start_check :: "loop_thread \<Rightarrow> loop_thread" where
  "start_check s =
     (case et_loop s of
        None \<Rightarrow> s\<lparr>et_cond := cond_wait 0 (et_cond s), et_owner := Owner_Waits\<rparr>
      | Some l \<Rightarrow> s\<lparr>et_owner := Owner_Has l\<rparr>)"

text \<open>The critical section of \<open>run\<close>, on a loop at address \<open>l\<close>.\<close>

definition publish_loop :: "nat \<Rightarrow> nat option \<Rightarrow> loop_thread \<Rightarrow> loop_thread option" where
  "publish_loop l w s =
     (let s1 = s\<lparr>et_loop := Some l\<rparr>
      in map_option (\<lambda>c. s1\<lparr>et_cond := c, et_runner := Looping\<rparr>) (cond_signal w (et_cond s1)))"

datatype loop_thread_move =
    Thread_Created
  | Start_Checks
  | Run_Publishes nat "nat option"
  | Owner_Wakes
  | Owner_Spurious
  | Owner_Quits
  | Run_Leaves

fun loop_thread_do :: "loop_thread_move \<Rightarrow> loop_thread \<Rightarrow> loop_thread option" where
  "loop_thread_do Thread_Created s =
     (if et_runner s = Not_Running then Some (s\<lparr>et_runner := Starting\<rparr>) else None)"
| "loop_thread_do Start_Checks s =
     (if et_owner s = Owner_Out \<and> et_runner s \<noteq> Not_Running then Some (start_check s) else None)"
| "loop_thread_do (Run_Publishes l w) s = (if et_runner s = Starting then publish_loop l w s else None)"
| "loop_thread_do Owner_Wakes s =
     (if 0 \<in> woken (et_cond s)
      then Some (start_check (s\<lparr>et_cond := cond_resume 0 (et_cond s)\<rparr>)) else None)"
| "loop_thread_do Owner_Spurious s =
     (if 0 \<in> sleeping (et_cond s)
      then Some (s\<lparr>et_cond := cond_spurious 0 (et_cond s)\<rparr>) else None)"
| "loop_thread_do Owner_Quits s =
     (case et_owner s of Owner_Has _ \<Rightarrow> Some (s\<lparr>et_quit := True\<rparr>) | _ \<Rightarrow> None)"
| "loop_thread_do Run_Leaves s =
     (if et_runner s = Looping \<and> et_quit s then Some (s\<lparr>et_runner := Left\<rparr>) else None)"

definition loop_thread_start :: "loop_thread \<Rightarrow> bool" where
  "loop_thread_start s \<longleftrightarrow> s = loop_thread_ctor"

inductive loop_thread_step :: "loop_thread \<Rightarrow> loop_thread \<Rightarrow> bool" where
  loop_thread_stepI: "loop_thread_do m s = Some s' \<Longrightarrow> loop_thread_step s s'"

inductive_cases loop_thread_stepE: "loop_thread_step s s'"

text \<open>
  The destructor: \<open>quit\<close> on the loop, which must still be there, a join that waits for
  \<open>run\<close> to return, and then the destructor of the member \<open>_thread\<close>.
\<close>

definition loop_thread_dtor :: "loop_thread \<Rightarrow> thread_obj \<Rightarrow> pthreads \<Rightarrow> pthreads outcome" where
  "loop_thread_dtor s th tab =
     (case et_loop s of
        None \<Rightarrow> thread_dtor th tab
      | Some _ \<Rightarrow>
          if et_runner s \<noteq> Looping then Inl Use_After_Free
          else bind_ok (thread_join th (pthread_return (th_pthreadId th) tab)) (\<lambda>r.
            case r of None \<Rightarrow> Inr tab | Some tab1 \<Rightarrow> thread_dtor th tab1))"

subsection \<open>EventLoopThreadPool\<close>

record loop_pool =
  el_baseLoop :: nat
  el_threadNum :: int
  el_currentIndex :: nat
  el_names :: "string list"
  el_loops :: "nat list"

definition loop_pool_ctor :: "nat \<Rightarrow> int \<Rightarrow> loop_pool" where
  "loop_pool_ctor baseLoop num = \<lparr>el_baseLoop = baseLoop, el_threadNum = num,
     el_currentIndex = 0, el_names = [], el_loops = []\<rparr>"

text \<open>
  \<open>start\<close>: \<open>made i\<close> is the loop the \<open>i\<close>-th thread hands over. The result is the loop the
  callback is called on, if there is a callback.
\<close>

definition loop_pool_start :: "(nat \<Rightarrow> nat) \<Rightarrow> bool \<Rightarrow> loop_pool \<Rightarrow> loop_pool \<times> nat option" where
  "loop_pool_start made has_cb p =
     (let is = [0..<nat (el_threadNum p)]
      in (p\<lparr>el_names := el_names p @ map (\<lambda>i. take 31 (''EventLoopThread_'' @ decimal (int i))) is,
            el_loops := el_loops p @ map made is\<rparr>,
          if has_cb then Some (el_baseLoop p) else None))"

definition getNextLoop :: "loop_pool \<Rightarrow> (nat \<times> loop_pool) outcome" where
  "getNextLoop p =
     (if el_loops p = [] then Inr (el_baseLoop p, p)
      else if el_currentIndex p \<ge> length (el_loops p) then Inl Out_Of_Bounds
      else (let loop = el_loops p ! el_currentIndex p;
                p1 = p\<lparr>el_currentIndex := el_currentIndex p + 1\<rparr>;
                p2 = (if el_currentIndex p1 \<ge> length (el_loops p1) then p1\<lparr>el_currentIndex := 0\<rparr> else p1)
            in Inr (loop, p2)))"

text \<open>The loops handed out by \<open>n\<close> calls.\<close>

fun next_loops :: "nat \<Rightarrow> loop_pool \<Rightarrow> (nat list \<times> loop_pool) outcome" where
  "next_loops 0 p = Inr ([], p)"
| "next_loops (Suc n) p =
     bind_ok (getNextLoop p) (\<lambda>(l, p1). bind_ok (next_loops n p1) (\<lambda>(ls, p2). Inr (l # ls, p2)))"

section \<open>Lemmas\<close>

subsection \<open>The handshake\<close>

definition loop_thread_inv :: "loop_thread \<Rightarrow> bool" where
  "loop_thread_inv s \<longleftrightarrow> cond_wf (et_cond s) \<and> (\<forall>t. waiting t (et_cond s) \<longrightarrow> t = 0)
     \<and> (waiting 0 (et_cond s) \<longleftrightarrow> et_owner s = Owner_Waits)
     \<and> (sleeping (et_cond s) \<noteq> {} \<longrightarrow> et_loop s = None)
     \<and> (et_loop s \<noteq> None \<longleftrightarrow> et_runner s \<in> {Looping, Left})
     \<and> (\<forall>l. et_owner s = Owner_Has l \<longrightarrow> et_loop s = Some l)
     \<and> (et_quit s \<longrightarrow> (\<exists>l. et_owner s = Owner_Has l))
     \<and> (et_runner s = Left \<longrightarrow> et_quit s)"

lemma loop_thread_do_inv: "loop_thread_do m s = Some s' \<Longrightarrow> loop_thread_inv s \<Longrightarrow> loop_thread_inv s'"
proof (induction m s rule: loop_thread_do.induct)
  case (1 s)
  then show ?case by (auto simp: loop_thread_inv_def split: if_splits)
next
  case (2 s)
  then show ?case
    by (auto simp: loop_thread_inv_def start_check_def waiting_def cond_wf_def cond_wait_def
        split: if_splits option.splits)
next
  case (3 l w s)
  then obtain c where c: "cond_signal w (et_cond s) = Some c" and r: "et_runner s = Starting"
    and s': "s' = s\<lparr>et_loop := Some l, et_cond := c, et_runner := Looping\<rparr>"
    by (auto simp: publish_loop_def Let_def split: if_splits)
  from 3(2) have only: "t = 0" if "t \<in> sleeping (et_cond s)" for t
    using that by (simp add: loop_thread_inv_def waiting_def)
  have "sleeping c = {}"
  proof (cases w)
    case None
    then show ?thesis using c by (simp add: cond_signal_def split: if_splits)
  next
    case (Some x)
    then have "x \<in> sleeping (et_cond s)" and "sleeping c = sleeping (et_cond s) - {x}"
      using c by (auto simp: cond_signal_def split: if_splits)
    then show ?thesis using only by blast
  qed
  with 3(2) r show ?case
    by (auto simp: loop_thread_inv_def s' waiting_signal [OF c] intro: cond_wf_signal [OF c])
next
  case (4 s)
  then show ?case
    by (auto simp: loop_thread_inv_def start_check_def waiting_def cond_wf_def cond_wait_def
        cond_resume_def split: if_splits option.splits)
next
  case (5 s)
  then show ?case
    by (auto simp: loop_thread_inv_def waiting_def cond_wf_def cond_spurious_def split: if_splits)
next
  case (6 s)
  then show ?case by (auto simp: loop_thread_inv_def split: owner_pc.splits)
next
  case (7 s)
  then show ?case by (auto simp: loop_thread_inv_def split: if_splits)
qed

interpretation ets: state_invariant loop_thread_start loop_thread_step loop_thread_inv
proof unfold_locales
  show "loop_thread_inv s" if "loop_thread_start s" for s
    using that
    by (simp add: loop_thread_start_def loop_thread_ctor_def loop_thread_inv_def cond_wf_def
        cond_init_def waiting_def)
  show "loop_thread_inv t" if "loop_thread_step s t" and "loop_thread_inv s" for s t
    using that by (auto elim!: loop_thread_stepE intro: loop_thread_do_inv)
qed

subsection \<open>Round robin\<close>

lemma getNextLoop_step:
  assumes "el_loops p \<noteq> []" and "el_currentIndex p < length (el_loops p)"
  shows "getNextLoop p = Inr (el_loops p ! el_currentIndex p,
    p\<lparr>el_currentIndex := (el_currentIndex p + 1) mod length (el_loops p)\<rparr>)"
proof (cases "Suc (el_currentIndex p) < length (el_loops p)")
  case True
  with assms show ?thesis by (simp add: getNextLoop_def)
next
  case False
  with assms(2) have "length (el_loops p) = Suc (el_currentIndex p)" by simp
  with assms show ?thesis by (simp add: getNextLoop_def)
qed

lemma next_loops_cycle:
  "el_loops p \<noteq> [] \<Longrightarrow> el_currentIndex p < length (el_loops p) \<Longrightarrow>
    next_loops n p = Inr (map (\<lambda>i. el_loops p ! ((el_currentIndex p + i) mod length (el_loops p))) [0..<n],
      p\<lparr>el_currentIndex := (el_currentIndex p + n) mod length (el_loops p)\<rparr>)"
proof (induction n arbitrary: p)
  case 0
  then show ?case by simp
next
  case (Suc n)
  let ?k = "length (el_loops p)"
  let ?p1 = "p\<lparr>el_currentIndex := (el_currentIndex p + 1) mod ?k\<rparr>"
  have "next_loops n ?p1 = Inr (map (\<lambda>i. el_loops p ! (((el_currentIndex p + 1) mod ?k + i) mod ?k)) [0..<n],
      ?p1\<lparr>el_currentIndex := ((el_currentIndex p + 1) mod ?k + n) mod ?k\<rparr>)"
    using Suc.IH [of ?p1] Suc.prems by simp
  moreover have "map f [0..<Suc n] = f 0 # map (\<lambda>i. f (Suc i)) [0..<n]" for f :: "nat \<Rightarrow> nat"
    by (simp add: upt_conv_Cons map_Suc_upt [symmetric] del: upt_Suc)
  ultimately show ?case
    using Suc.prems getNextLoop_step [of p] by (simp add: mod_add_left_eq del: upt_Suc)
qed

section \<open>Properties\<close>

text \<open>
  C30. The handshake: \<open>start\<close> returns only the address of a loop that its thread has published,
  its wait cannot miss the notification (once the loop is published the owner does not
  sleep), and the loop cannot be left before \<open>start\<close> has returned.
\<close>

theorem loop_thread_handshake:
  assumes "reach loop_thread_start loop_thread_step s"
  shows "(\<forall>l. et_owner s = Owner_Has l \<longrightarrow> et_loop s = Some l)
    \<and> (et_loop s \<noteq> None \<longrightarrow> sleeping (et_cond s) = {})
    \<and> (et_runner s = Left \<longrightarrow> (\<exists>l. et_owner s = Owner_Has l))"
  using ets.reach_inv [OF assms] by (auto simp: loop_thread_inv_def)

definition handshake_moves :: "loop_thread_move list" where
  "handshake_moves = [Thread_Created, Start_Checks, Run_Publishes 8 (Some 0), Owner_Wakes]"

definition handshake_state :: loop_thread where
  "handshake_state = the (schedule loop_thread_do handshake_moves loop_thread_ctor)"

theorem loop_thread_handshake_witness: "et_owner handshake_state = Owner_Has 8 \<and> et_loop handshake_state = Some 8"
proof -
  have o: "et_owner handshake_state = Owner_Has 8"
    by (simp add: handshake_state_def handshake_moves_def loop_thread_ctor_def start_check_def
        publish_loop_def cond_init_def cond_wait_def cond_signal_def Let_def)
  have "schedule loop_thread_do handshake_moves loop_thread_ctor = Some handshake_state"
    by (simp add: handshake_state_def handshake_moves_def loop_thread_ctor_def start_check_def
        publish_loop_def cond_init_def cond_wait_def cond_signal_def Let_def)
  then have "reach loop_thread_start loop_thread_step handshake_state"
    by (rule schedule_reach [rotated 2])
      (auto intro: loop_thread_stepI reach_start simp: loop_thread_start_def)
  from loop_thread_handshake [OF this] o show ?thesis by blast
qed

text \<open>
  The destructor never completes: on a started thread it either calls \<open>quit\<close> on a loop
  that is gone, when the loop was left before, or joins the thread and then has \<open>~Thread\<close>
  detach it again.
\<close>

theorem loop_thread_dtor_faults:
  assumes "reach loop_thread_start loop_thread_step s" and "et_loop s \<noteq> None"
    and "th_isRunning th" and "tab (th_pthreadId th) = Some Running"
  shows "loop_thread_dtor s th tab = Inl (if et_runner s = Left then Use_After_Free else Bad_Thread_Handle)"
  using ets.reach_inv [OF assms(1)] assms(2-4)
  by (auto simp: loop_thread_inv_def loop_thread_dtor_def pthread_defs split: option.split)

theorem loop_thread_dtor_faults_witness:
  "loop_thread_dtor handshake_state \<lparr>th_isRunning = True, th_pthreadId = 4, th_tid = 0, th_name = ''t''\<rparr>
     ((\<lambda>_. None)(4 := Some Running)) = Inl Bad_Thread_Handle"
proof -
  have e: "schedule loop_thread_do handshake_moves loop_thread_ctor = Some handshake_state"
    and r: "et_runner handshake_state = Looping" and l: "et_loop handshake_state \<noteq> None"
    by (simp_all add: handshake_state_def handshake_moves_def loop_thread_ctor_def start_check_def
        publish_loop_def cond_init_def cond_wait_def cond_signal_def Let_def)
  from e have "reach loop_thread_start loop_thread_step handshake_state"
    by (rule schedule_reach [rotated 2])
      (auto intro: loop_thread_stepI reach_start simp: loop_thread_start_def)
  from loop_thread_dtor_faults [OF this l, of "\<lparr>th_isRunning = True, th_pthreadId = 4, th_tid = 0, th_name = ''t''\<rparr>"
      "(\<lambda>_. None)(4 := Some Running)"] r
  show ?thesis by simp
qed

text \<open>
  Round robin: a started pool of \<open>k > 0\<close> threads hands out its loops cyclically, the
  \<open>i\<close>-th call getting loop \<open>i mod k\<close>, never outside the vector; a pool without threads hands
  out the base loop.
\<close>

theorem getNextLoop_round_robin:
  assumes "fst (loop_pool_start made cb (loop_pool_ctor base num)) = p"
  shows "\<exists>p'. next_loops n p = Inr (map (\<lambda>i. if num \<le> 0 then base else made (i mod nat num)) [0..<n], p')"
proof (cases "num \<le> 0")
  case True
  have "next_loops n p = Inr (replicate n base, p)"
    using assms True
    by (induction n) (auto simp: loop_pool_start_def loop_pool_ctor_def getNextLoop_def Let_def)
  with True show ?thesis by (simp add: map_replicate_const)
next
  case False
  then have p: "el_loops p = map made [0..<nat num]" "el_currentIndex p = 0"
    using assms by (auto simp: loop_pool_start_def loop_pool_ctor_def Let_def)
  with False have "el_loops p \<noteq> []" "el_currentIndex p < length (el_loops p)" by auto
  from next_loops_cycle [OF this, of n] p False show ?thesis by simp
qed

theorem getNextLoop_round_robin_witness:
  "\<exists>p'. next_loops 5 (fst (loop_pool_start (\<lambda>i. 10 + i) False (loop_pool_ctor 1 2))) = Inr ([10, 11, 10, 11, 10], p')"
  using getNextLoop_round_robin [OF refl, of 5 "\<lambda>i. 10 + i" False 1 2] by (simp add: upt_rec)

end
