(* ===== verification/Sockets.thy ===== *)
theory Sockets
  imports Inet_Address
begin

text \<open>
  \<open>net/Sockets.h\<close> and \<open>net/Sockets.cpp\<close>: the wrappers of the socket calls. The open
  descriptors of the process are a set; what a call returns is an argument, a value or an
  error number. An error logged at \<open>FATAL\<close> aborts (see \<open>Logging\<close> for the one exception).
\<close>

section \<open>Definitions\<close>

datatype sys_result = Sys_Ok int | Sys_Err int

definition EPERM :: int where "EPERM = 1"
definition EINTR :: int where "EINTR = 4"
definition EAGAIN :: int where "EAGAIN = 11"
definition EMFILE :: int where "EMFILE = 24"
definition EPROTO :: int where "EPROTO = 71"
definition ECONNABORTED :: int where "ECONNABORTED = 103"

subsection \<open>Descriptors\<close>

text \<open>\<open>close\<close> of the namespace, which the destructor calls, on a descriptor that may be bad.\<close>

definition close_fd :: "int \<Rightarrow> int set \<Rightarrow> int set outcome" where
  "close_fd fd fds = (if fd \<in> fds then Inr (fds - {fd}) else Inl Aborted)"

definition sockets_dtor :: "int \<Rightarrow> int set \<Rightarrow> int set outcome" where
  "sockets_dtor fd fds = close_fd fd fds"

text \<open>The move constructor: the new object's descriptor and the old one's afterwards.\<close>

definition sockets_move :: "int \<Rightarrow> int \<times> int" where
  "sockets_move rhs = (rhs, - 1)"

definition createNonblockingSocket :: "sys_result \<Rightarrow> int outcome" where
  "createNonblockingSocket r = (case r of Sys_Ok fd \<Rightarrow> Inr fd | Sys_Err _ \<Rightarrow> Inl Aborted)"

subsection \<open>Calls\<close>

definition sockets_bind :: "sys_result \<Rightarrow> unit outcome" where
  "sockets_bind r = (case r of Sys_Ok _ \<Rightarrow> Inr () | Sys_Err _ \<Rightarrow> Inl Aborted)"

definition sockets_listen :: "sys_result \<Rightarrow> unit outcome" where
  "sockets_listen r = (case r of Sys_Ok _ \<Rightarrow> Inr () | Sys_Err _ \<Rightarrow> Inl Aborted)"

definition shutdownWrite :: "sys_result \<Rightarrow> unit outcome" where
  "shutdownWrite r = (case r of Sys_Ok _ \<Rightarrow> Inr () | Sys_Err _ \<Rightarrow> Inl Aborted)"

definition zero_addr :: sockaddr_in where
  "zero_addr = \<lparr>sin_family = 0, sin_port = 0, s_addr = 0\<rparr>"

text \<open>\<open>accept\<close>: the descriptor or -1, and the address stored in the argument.\<close>

definition accept_transient :: "int \<Rightarrow> bool" where
  "accept_transient err \<longleftrightarrow> err \<in> {EAGAIN, ECONNABORTED, EINTR, EPROTO, EPERM, EMFILE}"

definition sockets_accept :: "sys_result \<Rightarrow> sockaddr_in \<Rightarrow> (int \<times> sockaddr_in) outcome" where
  "sockets_accept r peer =
     (case r of
        Sys_Ok fd \<Rightarrow> Inr (fd, peer)
      | Sys_Err err \<Rightarrow> if accept_transient err then Inr (- 1, zero_addr) else Inl Aborted)"

text \<open>The options of one socket; a refused option is logged, a refused port reuse fatal.\<close>

record socket_options =
  so_reuseaddr :: bool
  so_reuseport :: bool
  so_nodelay :: bool
  so_keepalive :: bool

definition setReuseAddr :: "sys_result \<Rightarrow> bool \<Rightarrow> socket_options \<Rightarrow> socket_options" where
  "setReuseAddr r on so = (case r of Sys_Ok _ \<Rightarrow> so\<lparr>so_reuseaddr := on\<rparr> | Sys_Err _ \<Rightarrow> so)"

definition setTcpNoDelay :: "sys_result \<Rightarrow> bool \<Rightarrow> socket_options \<Rightarrow> socket_options" where
  "setTcpNoDelay r on so = (case r of Sys_Ok _ \<Rightarrow> so\<lparr>so_nodelay := on\<rparr> | Sys_Err _ \<Rightarrow> so)"

definition setKeepAlive :: "sys_result \<Rightarrow> bool \<Rightarrow> socket_options \<Rightarrow> socket_options" where
  "setKeepAlive r on so = (case r of Sys_Ok _ \<Rightarrow> so\<lparr>so_keepalive := on\<rparr> | Sys_Err _ \<Rightarrow> so)"

definition setReusePort :: "sys_result \<Rightarrow> bool \<Rightarrow> socket_options \<Rightarrow> socket_options outcome" where
  "setReusePort r on so =
     (case r of
        Sys_Ok _ \<Rightarrow> Inr (so\<lparr>so_reuseport := on\<rparr>)
      | Sys_Err _ \<Rightarrow> if on then Inl Aborted else Inr so)"

text \<open>\<open>getLocalAddr\<close> and \<open>getPeerAddr\<close>: the address, or zeros when the call fails.\<close>

definition getLocalAddr :: "sockaddr_in option \<Rightarrow> sockaddr_in" where
  "getLocalAddr r = (case r of Some a \<Rightarrow> a | None \<Rightarrow> zero_addr)"

definition getPeerAddr :: "sockaddr_in option \<Rightarrow> sockaddr_in" where
  "getPeerAddr r = (case r of Some a \<Rightarrow> a | None \<Rightarrow> zero_addr)"

definition isSelfConnect :: "sockaddr_in option \<Rightarrow> sockaddr_in option \<Rightarrow> bool" where
  "isSelfConnect local_r peer_r \<longleftrightarrow>
     sin_port (getLocalAddr local_r) = sin_port (getPeerAddr peer_r)
     \<and> s_addr (getLocalAddr local_r) = s_addr (getPeerAddr peer_r)"

text \<open>The pending error of the socket, or the number of the error of asking for it.\<close>

definition getSocketError :: "sys_result \<Rightarrow> int" where
  "getSocketError r = (case r of Sys_Ok val \<Rightarrow> val | Sys_Err err \<Rightarrow> err)"

text \<open>
  The wrappers that forward to the kernel, a function \<open>k\<close> of the call's arguments. The length
  of the address is that of \<open>struct sockaddr\<close>, which is 16, as that of \<open>sockaddr_in\<close>.
\<close>

definition sizeof_sockaddr :: nat where
  "sizeof_sockaddr = 16"

definition sockets_connect :: "(int \<Rightarrow> sockaddr_in \<Rightarrow> nat \<Rightarrow> 'r) \<Rightarrow> int \<Rightarrow> sockaddr_in \<Rightarrow> 'r" where
  "sockets_connect k fd addr = k fd addr sizeof_sockaddr"

definition sockets_read :: "(int \<Rightarrow> nat \<Rightarrow> 'r) \<Rightarrow> int \<Rightarrow> nat \<Rightarrow> 'r" where
  "sockets_read k fd len = k fd len"

definition sockets_readv :: "(int \<Rightarrow> nat list \<Rightarrow> 'r) \<Rightarrow> int \<Rightarrow> nat list \<Rightarrow> 'r" where
  "sockets_readv k fd iov = k fd iov"

subsection \<open>TCP information\<close>

definition tcp_info_labels :: "string list" where
  "tcp_info_labels = [''unrecovered='', '', rto='', '', ato='', '', snd_mss='', '', rcv_mss='',
     '', lost='', '', retans='', '', rtt='', '', rttvar='', '', sshthresh='', '', cwnd='',
     '', total_retrans='']"

text \<open>The twelve fields, in the order they are printed, through an array of 128 characters.\<close>

definition tcp_info_text :: "nat list \<Rightarrow> string" where
  "tcp_info_text vals = concat (map2 (\<lambda>l v. l @ decimal (int v)) tcp_info_labels vals)"

definition getTcpInfo :: "nat list option \<Rightarrow> string" where
  "getTcpInfo r = (case r of Some vals \<Rightarrow> take 127 (tcp_info_text vals) | None \<Rightarrow> [])"

section \<open>Lemmas\<close>

lemma length_concat_map2:
  "length ls = length vs \<Longrightarrow> length (concat (map2 (\<lambda>l v. l @ f v) ls vs)) =
    sum_list (map length ls) + sum_list (map (\<lambda>v. length (f v)) vs)"
  by (induction ls vs rule: list_induct2) simp_all

lemma tcp_info_labels_length: "length tcp_info_labels = 12" "sum_list (map length tcp_info_labels) = 110"
  by (simp_all add: tcp_info_labels_def)

section \<open>Properties\<close>

text \<open>
  Moving from a socket: the new object owns the descriptor and closes it, but the
  destructor of the object moved from closes -1, which fails and aborts.
\<close>

theorem moved_socket_aborts:
  assumes "sockets_move fd = (new_fd, old_fd)" and "fd \<in> fds" and "\<forall>x \<in> fds. 0 \<le> x"
  shows "sockets_dtor new_fd fds = Inr (fds - {fd}) \<and> sockets_dtor old_fd fds = Inl Aborted"
  using assms by (auto simp: sockets_move_def sockets_dtor_def close_fd_def)

theorem moved_socket_aborts_witness:
  "sockets_dtor (snd (sockets_move 5)) {3, 5} = Inl Aborted"
  using moved_socket_aborts [of 5 5 "- 1" "{3, 5}"] by (simp add: sockets_move_def)

text \<open>
  The text of \<open>getTcpInfo\<close> is complete exactly when its twelve numbers have at most 17
  digits together: with more, the array cuts the end off.
\<close>

theorem getTcpInfo_complete_iff:
  assumes "length vals = 12"
  shows "getTcpInfo (Some vals) = tcp_info_text vals \<longleftrightarrow>
    sum_list (map (\<lambda>v. length (decimal (int v))) vals) \<le> 17"
proof -
  have "length (tcp_info_text vals) = 110 + sum_list (map (\<lambda>v. length (decimal (int v))) vals)"
    using length_concat_map2 [of tcp_info_labels vals "\<lambda>v. decimal (int v)"] assms
    by (simp add: tcp_info_text_def tcp_info_labels_length)
  moreover have "take 127 xs = xs \<longleftrightarrow> length xs \<le> 127" for xs :: string
    using length_take [of 127 xs] by (metis min.absorb_iff2 take_all_iff)
  ultimately show ?thesis by (simp add: getTcpInfo_def)
qed

text \<open>Round-trip times and segment sizes as a local connection has them do not fit.\<close>

theorem getTcpInfo_complete_iff_witness:
  "getTcpInfo (Some [0, 204000, 40000, 32768, 536, 0, 0, 30, 15, 2147483647, 10, 0])
     \<noteq> tcp_info_text [0, 204000, 40000, 32768, 536, 0, 0, 30, 15, 2147483647, 10, 0]"
  by (subst getTcpInfo_complete_iff) (simp_all add: decimal_def decDigits_def positional.simps)

end
