(* ===== verification/Tcp_Server.thy ===== *)
theory Tcp_Server
  imports Connection_Frame Event_Loop_Pool Sockets
begin

text \<open>
  \<open>net/TcpServer.h\<close> and \<open>net/TcpServer.cpp\<close>: the map of connections, and the life time of
  the connection objects, which are shared pointers. An object lives while the map or the
  user holds it; when the last owner goes, its channel is freed and its descriptor closed.
  The model is the server without extra threads (\<open>threadNum\<close> 0): every connection is in the
  base loop, and one poller and one thread serve them all.
\<close>

section \<open>Definitions\<close>

record server =
  sv_connections :: "int \<Rightarrow> nat option"
  sv_heap :: "nat \<Rightarrow> tcp_conn option"
  sv_users :: "nat \<Rightarrow> nat"
  sv_epoller :: epoller
  sv_fds :: "int set"
  sv_pool :: loop_pool
  sv_default_connection :: bool
  sv_has_message :: bool
  sv_has_writeComplete :: bool
  sv_has_poolInit :: bool
  sv_wire :: "nat \<Rightarrow> byte list"
  sv_log :: "(nat \<times> tcp_event) list"

text \<open>\<open>sv_wire\<close> and \<open>sv_log\<close> record the bytes written on each connection and the calls of the user.\<close>

definition server_ctor :: "epoller \<Rightarrow> nat \<Rightarrow> server" where
  "server_ctor ep base = \<lparr>sv_connections = \<lambda>_. None, sv_heap = \<lambda>_. None, sv_users = \<lambda>_. 0,
     sv_epoller = ep, sv_fds = {}, sv_pool = loop_pool_ctor base 0, sv_default_connection = True,
     sv_has_message = False, sv_has_writeComplete = False, sv_has_poolInit = False, sv_wire = \<lambda>_. [], sv_log = []\<rparr>"

text \<open>The setters, given a function; a connection callback is there from the start.\<close>

definition setConnectionCallback :: "server \<Rightarrow> server" where
  "setConnectionCallback s = s\<lparr>sv_default_connection := False\<rparr>"

definition setMessageCallback :: "server \<Rightarrow> server" where
  "setMessageCallback s = s\<lparr>sv_has_message := True\<rparr>"

definition setWriteCompleteCallback :: "server \<Rightarrow> server" where
  "setWriteCompleteCallback s = s\<lparr>sv_has_writeComplete := True\<rparr>"

definition setThreadPoolInitCallback :: "server \<Rightarrow> server" where
  "setThreadPoolInitCallback s = s\<lparr>sv_has_poolInit := True\<rparr>"

subsection \<open>Shared pointers\<close>

text \<open>
  An owner of object \<open>oid\<close> went: if it was the last one, the connection is destroyed, and with
  it its channel and its socket, whose destructor closes the descriptor.
\<close>

definition owned :: "nat \<Rightarrow> server \<Rightarrow> bool" where
  "owned oid s \<longleftrightarrow> 0 < sv_users s oid \<or> (\<exists>c. sv_heap s oid = Some c \<and> sv_connections s (conn_fd c) = Some oid)"

definition release :: "nat \<Rightarrow> server \<Rightarrow> server" where
  "release oid s =
     (case sv_heap s oid of
        None \<Rightarrow> s
      | Some c \<Rightarrow>
          if owned oid s then s
          else s\<lparr>sv_heap := (sv_heap s)(oid := None), sv_fds := sv_fds s - {conn_fd c},
                 sv_epoller := kernel_close (conn_fd c) (sv_epoller s)\<rparr>)"

definition user_keeps :: "nat \<Rightarrow> server \<Rightarrow> server" where
  "user_keeps oid s = s\<lparr>sv_users := (sv_users s)(oid := sv_users s oid + 1)\<rparr>"

definition user_drops :: "nat \<Rightarrow> server \<Rightarrow> server" where
  "user_drops oid s = release oid (s\<lparr>sv_users := (sv_users s)(oid := sv_users s oid - 1)\<rparr>)"

subsection \<open>Connections\<close>

definition removeConnection :: "int \<Rightarrow> server \<Rightarrow> server" where
  "removeConnection fd s = s\<lparr>sv_connections := (sv_connections s)(fd := None)\<rparr>"

text \<open>
  An operation of connection \<open>oid\<close>. Its close callback is \<open>removeConnection\<close>, the last
  statement of \<open>handleClose\<close>; the temporary shared pointer of that call is the owner that
  goes when it returns.
\<close>

definition on_connection :: "(tcp_world \<Rightarrow> tcp_world outcome) \<Rightarrow> nat \<Rightarrow> server \<Rightarrow> server outcome" where
  "on_connection f oid s =
     (case sv_heap s oid of
        None \<Rightarrow> Inl Use_After_Free
      | Some c \<Rightarrow>
          bind_ok (f \<lparr>tw_conn = c, tw_epoller = sv_epoller s, tw_wire = sv_wire s oid, tw_trace = []\<rparr>) (\<lambda>t.
            let s1 = s\<lparr>sv_heap := (sv_heap s)(oid := Some (tw_conn t)), sv_epoller := tw_epoller t,
                       sv_wire := (sv_wire s)(oid := tw_wire t),
      sv_log := sv_log s @ map (Pair oid) (tw_trace t)\<rparr>
            in Inr (if Ev_Close \<in> set (tw_trace t)
                    then release oid (removeConnection (conn_fd (tw_conn t)) s1) else s1)))"

text \<open>
  \<open>newConnection\<close>: \<open>oid\<close> is where the object is allocated, \<open>uninit\<close> its high-water mark, and
  \<open>localr\<close> the answer of \<open>getsockname\<close>.
\<close>

definition newConnection ::
  "nat \<Rightarrow> int \<Rightarrow> sockaddr_in option \<Rightarrow> int \<Rightarrow> sockaddr_in \<Rightarrow> server \<Rightarrow> server outcome" where
  "newConnection oid uninit localr fd clientAddr s =
     bind_ok (getNextLoop (sv_pool s)) (\<lambda>(loop, pool).
       let localAddr = addr_of_sockaddr (getLocalAddr localr);
           conn = tcp_ctor oid fd localAddr clientAddr uninit;
           conn1 = conn_setCloseCallback True
                     (conn_setWriteCompleteCallback (sv_has_writeComplete s)
                       (conn_setMessageCallback (sv_has_message s)
                         (conn_setConnectionCallback True conn)));
           s1 = s\<lparr>sv_pool := pool, sv_fds := insert fd (sv_fds s),
                  sv_connections := (sv_connections s)(fd := Some oid),
                  sv_heap := (sv_heap s)(oid := Some conn1), sv_wire := (sv_wire s)(oid := [])\<rparr>
       in on_connection established oid s1)"

text \<open>The user sends on a connection it knows.\<close>

definition user_send :: "write_result \<Rightarrow> byte list \<Rightarrow> nat \<Rightarrow> server \<Rightarrow> server outcome" where
  "user_send wr m oid s = on_connection (send_string wr m) oid s"

text \<open>The user takes \<open>n\<close> bytes off the input buffer a message callback gave it.\<close>

definition user_retrieve :: "nat \<Rightarrow> nat \<Rightarrow> server \<Rightarrow> server outcome" where
  "user_retrieve n oid s = on_connection (\<lambda>t. Inr (on_conn (\<lambda>c.
     c\<lparr>c_inputBuffer := retrieve (c_inputBuffer c) (int n)\<rparr>) t)) oid s"

text \<open>The channel of a connection runs its callbacks; \<open>k\<close> and \<open>wr\<close> are the kernel's answers.\<close>

fun server_call :: "(int \<Rightarrow> read_result) \<Rightarrow> write_result \<Rightarrow> nat \<Rightarrow> conn_callback \<Rightarrow> server \<Rightarrow> server outcome" where
  "server_call k wr oid Conn_handleRead s = on_connection (conn_handleRead k) oid s"
| "server_call k wr oid Conn_handleWrite s = on_connection (conn_handleWrite wr) oid s"
| "server_call k wr oid Conn_handleClose s = on_connection conn_handleClose oid s"

definition conn_channel :: "nat \<Rightarrow> server \<Rightarrow> conn_callback channel option" where
  "conn_channel oid s = map_option c_channel (sv_heap s oid)"

text \<open>One connection reported by the poller with events \<open>e\<close>.\<close>

definition server_event ::
  "(int \<Rightarrow> read_result) \<Rightarrow> write_result \<Rightarrow> nat \<Rightarrow> events \<Rightarrow> server \<Rightarrow> server outcome" where
  "server_event k wr oid e s =
     (case sv_heap s oid of
        None \<Rightarrow> Inl Use_After_Free
      | Some c \<Rightarrow>
          handleEvent (conn_channel oid) (server_call k wr oid)
            (s\<lparr>sv_heap := (sv_heap s)(oid := Some (c\<lparr>c_channel := setREvents e (c_channel c)\<rparr>))\<rparr>))"

text \<open>
  The destructor: each entry is reset before its connection is destroyed, and the local
  shared pointer goes at the end of the iteration. \<open>fds\<close> are the keys of the map.
\<close>

fun server_dtor :: "int list \<Rightarrow> server \<Rightarrow> server outcome" where
  "server_dtor [] s = Inr s"
| "server_dtor (fd # fds) s =
     (case sv_connections s fd of
        None \<Rightarrow> server_dtor fds s
      | Some oid \<Rightarrow>
          bind_ok (on_connection destory oid (removeConnection fd s)) (\<lambda>s1.
            server_dtor fds (release oid s1)))"

section \<open>Lemmas\<close>

subsection \<open>The invariant of the server\<close>

text \<open>What is fixed for a connection the server made.\<close>

definition server_conn :: "nat \<Rightarrow> tcp_conn \<Rightarrow> bool" where
  "server_conn oid c \<longleftrightarrow> c_addr c = oid \<and> c_has_connection c \<and> c_has_message c \<and> c_has_close c
     \<and> ch_readCallback (c_channel c) = Some Conn_handleRead
     \<and> ch_writeCallback (c_channel c) = Some Conn_handleWrite
     \<and> ch_closeCallback (c_channel c) = Some Conn_handleClose
     \<and> ch_errorCallback (c_channel c) = None
     \<and> buf_inv (c_inputBuffer c) \<and> buf_inv (c_outputBuffer c)"

text \<open>
  The map names living objects by their descriptors, living objects have open descriptors of
  their own, and every entry of the kernel names a living object with that descriptor, or is
  one of \<open>others\<close>: what the poller watches besides the connections (the channels of the
  acceptor and of the loop), which stay as they are and share no address or descriptor.
\<close>

type_synonym watched = "int \<Rightarrow> (events \<times> nat) option"

definition addresses :: "watched \<Rightarrow> nat set" where
  "addresses others = {p. \<exists>fd e. others fd = Some (e, p)}"

definition server_ok ::
  "watched \<Rightarrow> (int \<Rightarrow> nat option) \<Rightarrow> (nat \<Rightarrow> tcp_conn option) \<Rightarrow> int set \<Rightarrow> watched \<Rightarrow> bool" where
  "server_ok others conns heap fds interest \<longleftrightarrow>
     (\<forall>fd oid. conns fd = Some oid \<longrightarrow> (\<exists>c. heap oid = Some c \<and> conn_fd c = fd))
     \<and> (\<forall>oid c. heap oid = Some c \<longrightarrow> conn_fd c \<in> fds \<and> server_conn oid c \<and> oid \<notin> addresses others)
     \<and> (\<forall>oid oid' c c'. heap oid = Some c \<longrightarrow> heap oid' = Some c' \<longrightarrow>
          conn_fd c = conn_fd c' \<longrightarrow> oid = oid')
     \<and> (\<forall>fd e p. others fd = None \<longrightarrow> interest fd = Some (e, p) \<longrightarrow>
          (\<exists>c. heap p = Some c \<and> conn_fd c = fd))
     \<and> (\<forall>fd x. others fd = Some x \<longrightarrow> interest fd = Some x \<and> fd \<notin> fds)"

definition server_inv :: "watched \<Rightarrow> server \<Rightarrow> bool" where
  "server_inv others s \<longleftrightarrow> \<not> ep_deny (sv_epoller s) \<and> sv_has_message s \<and> el_loops (sv_pool s) = []
     \<and> server_ok others (sv_connections s) (sv_heap s) (sv_fds s) (ep_interest (sv_epoller s))"

lemma server_okI:
  assumes "\<And>fd oid. conns fd = Some oid \<Longrightarrow> \<exists>c. heap oid = Some c \<and> conn_fd c = fd"
    and "\<And>oid c. heap oid = Some c \<Longrightarrow> conn_fd c \<in> fds \<and> server_conn oid c \<and> oid \<notin> addresses others"
    and "\<And>oid oid' c c'. heap oid = Some c \<Longrightarrow> heap oid' = Some c' \<Longrightarrow> conn_fd c = conn_fd c' \<Longrightarrow> oid = oid'"
    and "\<And>fd e p. others fd = None \<Longrightarrow> interest fd = Some (e, p) \<Longrightarrow> \<exists>c. heap p = Some c \<and> conn_fd c = fd"
    and "\<And>fd x. others fd = Some x \<Longrightarrow> interest fd = Some x \<and> fd \<notin> fds"
  shows "server_ok others conns heap fds interest"
  using assms unfolding server_ok_def by blast

lemma server_invD:
  assumes "server_inv others s"
  shows "sv_connections s fd = Some oid \<Longrightarrow> \<exists>c. sv_heap s oid = Some c \<and> conn_fd c = fd"
    and "sv_heap s oid = Some c \<Longrightarrow> conn_fd c \<in> sv_fds s"
    and "sv_heap s oid = Some c \<Longrightarrow> server_conn oid c"
    and "sv_heap s oid = Some c \<Longrightarrow> sv_heap s oid' = Some c' \<Longrightarrow> conn_fd c = conn_fd c' \<Longrightarrow> oid = oid'"
    and "others fd = None \<Longrightarrow> ep_interest (sv_epoller s) fd = Some (e, p) \<Longrightarrow>
      \<exists>c. sv_heap s p = Some c \<and> conn_fd c = fd"
    and "others fd = Some x \<Longrightarrow> ep_interest (sv_epoller s) fd = Some x \<and> fd \<notin> sv_fds s"
    and "sv_heap s oid = Some c \<Longrightarrow> oid \<notin> addresses others"
    and "\<not> ep_deny (sv_epoller s)" and "sv_has_message s" and "el_loops (sv_pool s) = []"
  using assms unfolding server_inv_def server_ok_def by blast+

text \<open>Replacing the state of one living object by one with the same frame.\<close>

lemma server_inv_update:
  assumes "server_inv others s" and "sv_heap s oid = Some c"
    and "conn_fd c' = conn_fd c" and "server_conn oid c'"
    and "\<And>fd. fd \<noteq> conn_fd c \<Longrightarrow> ep_interest ep fd = ep_interest (sv_epoller s) fd"
    and "\<And>e p. ep_interest ep (conn_fd c) = Some (e, p) \<Longrightarrow>
      p = oid \<or> (\<exists>e'. ep_interest (sv_epoller s) (conn_fd c) = Some (e', p))"
    and "\<not> ep_deny ep"
  shows "server_inv others (s\<lparr>sv_heap := (sv_heap s)(oid := Some c'), sv_epoller := ep, sv_wire := wi, sv_log := l\<rparr>)"
proof -
  note d = server_invD [OF assms(1)]
  let ?h = "(sv_heap s)(oid := Some c')"
  have h: "\<exists>y. sv_heap s i = Some y \<and> conn_fd x = conn_fd y" if "?h i = Some x" for i x
    using that assms(2,3) by (auto split: if_splits)
  have "server_ok others (sv_connections s) ?h (sv_fds s) (ep_interest ep)"
  proof (rule server_okI)
    show "\<exists>x. ?h i = Some x \<and> conn_fd x = fd" if "sv_connections s fd = Some i" for fd i
      using d(1) [OF that] assms(2,3) by auto
  next
    fix i x
    assume i: "?h i = Some x"
    show "conn_fd x \<in> sv_fds s \<and> server_conn i x \<and> i \<notin> addresses others"
    proof (cases "i = oid")
      case True
      with i have "x = c'" by simp
      with True d(2,7) [OF assms(2)] assms(3,4) show ?thesis by simp
    next
      case False
      with i have "sv_heap s i = Some x" by simp
      from d(2,3,7) [OF this] show ?thesis by simp
    qed
  next
    fix i j x y
    assume "?h i = Some x" and "?h j = Some y" and eq: "conn_fd x = conn_fd y"
    with h obtain x' y' where "sv_heap s i = Some x'" "sv_heap s j = Some y'" "conn_fd x' = conn_fd y'"
      by metis
    then show "i = j" by (rule d(4))
  next
    fix fd e p
    assume o: "others fd = None" and e: "ep_interest ep fd = Some (e, p)"
    show "\<exists>x. ?h p = Some x \<and> conn_fd x = fd"
    proof (cases "fd = conn_fd c")
      case True
      with assms(6) e have "p = oid \<or> (\<exists>e'. ep_interest (sv_epoller s) fd = Some (e', p))" by simp
      then have "p = oid" using d(4) d(5) [OF o] assms(2) True by blast
      then show ?thesis using True assms(3) by simp
    next
      case False
      with assms(5) e have "ep_interest (sv_epoller s) fd = Some (e, p)" by simp
      then obtain x where x: "sv_heap s p = Some x" "conn_fd x = fd" using d(5) [OF o] by blast
      then have "p \<noteq> oid" using assms(2) False by auto
      with x show ?thesis by simp
    qed
  next
    fix fd x
    assume "others fd = Some x"
    from d(6) [OF this] d(2) [OF assms(2)] show "ep_interest ep fd = Some x \<and> fd \<notin> sv_fds s"
      using assms(5) [of fd] by auto
  qed
  then show ?thesis using assms(7) d(9,10) by (simp add: server_inv_def)
qed

lemma server_inv_remove: "server_inv others s \<Longrightarrow> server_inv others (removeConnection fd s)"
  by (simp add: server_inv_def server_ok_def removeConnection_def)

lemma server_inv_release:
  assumes "server_inv others s"
  shows "server_inv others (release oid s)"
proof (cases "sv_heap s oid")
  case None
  then show ?thesis using assms by (simp add: release_def)
next
  case (Some c)
  note d = server_invD [OF assms]
  show ?thesis
  proof (cases "owned oid s")
    case True
    then show ?thesis using Some assms by (simp add: release_def)
  next
    case False
    let ?h = "(sv_heap s)(oid := None)" and ?ep = "kernel_close (conn_fd c) (sv_epoller s)"
    have h: "i \<noteq> oid \<and> sv_heap s i = Some x" if "?h i = Some x" for i x
      using that by (auto split: if_splits)
    have "server_ok others (sv_connections s) ?h (sv_fds s - {conn_fd c}) (ep_interest ?ep)"
    proof (rule server_okI)
      show "\<exists>x. ?h i = Some x \<and> conn_fd x = fd" if "sv_connections s fd = Some i" for fd i
        using d(1) [OF that] False Some that by (auto simp: owned_def)
    next
      fix i x
      assume "?h i = Some x"
      from h [OF this] have i: "i \<noteq> oid" and x: "sv_heap s i = Some x" by blast+
      from d(4) [OF x Some] i have "conn_fd x \<noteq> conn_fd c" by blast
      with d(2,3,7) [OF x]
      show "conn_fd x \<in> sv_fds s - {conn_fd c} \<and> server_conn i x \<and> i \<notin> addresses others" by simp
    next
      fix i j x y
      assume "?h i = Some x" and "?h j = Some y" and "conn_fd x = conn_fd y"
      then show "i = j" using h d(4) by blast
    next
      fix fd e p
      assume o: "others fd = None" and "ep_interest ?ep fd = Some (e, p)"
      then have fd: "fd \<noteq> conn_fd c" and "ep_interest (sv_epoller s) fd = Some (e, p)"
        by (auto simp: kernel_close_def split: if_splits)
      from d(5) [OF o this(2)] obtain x where x: "sv_heap s p = Some x" "conn_fd x = fd" by blast
      then have "p \<noteq> oid" using Some fd by auto
      with x show "\<exists>x. ?h p = Some x \<and> conn_fd x = fd" by simp
    next
      fix fd x
      assume "others fd = Some x"
      from d(6) [OF this] d(2) [OF Some] show "ep_interest ?ep fd = Some x \<and> fd \<notin> sv_fds s - {conn_fd c}"
        by (auto simp: kernel_close_def)
    qed
    then show ?thesis using Some False d(8-10) by (simp add: release_def server_inv_def kernel_close_def)
  qed
qed

lemma on_connection_inv:
  assumes "on_connection f oid s = Inr s'" and "server_inv others s"
    and "\<And>t t'. sv_heap s oid = Some (tw_conn t) \<Longrightarrow> f t = Inr t' \<Longrightarrow> framed t t'"
  shows "server_inv others s'"
proof -
  from assms(1) obtain c t where c: "sv_heap s oid = Some c"
    and t: "f \<lparr>tw_conn = c, tw_epoller = sv_epoller s, tw_wire = sv_wire s oid, tw_trace = []\<rparr> = Inr t"
    by (auto simp: on_connection_def bind_ok_Inr_iff split: option.splits)
  let ?s1 = "s\<lparr>sv_heap := (sv_heap s)(oid := Some (tw_conn t)), sv_epoller := tw_epoller t,
    sv_wire := (sv_wire s)(oid := tw_wire t),
      sv_log := sv_log s @ map (Pair oid) (tw_trace t)\<rparr>"
  have s': "s' = (if Ev_Close \<in> set (tw_trace t)
      then release oid (removeConnection (conn_fd (tw_conn t)) ?s1) else ?s1)"
    using assms(1) c t by (simp add: on_connection_def Let_def)
  have fr: "framed \<lparr>tw_conn = c, tw_epoller = sv_epoller s, tw_wire = sv_wire s oid, tw_trace = []\<rparr> t"
    using c by (intro assms(3) [OF _ t]) simp
  have sc: "server_conn oid c" using server_invD(3) [OF assms(2) c] .
  have "server_inv others ?s1"
  proof (rule server_inv_update [OF assms(2) c])
    show "conn_fd (tw_conn t) = conn_fd c" using fr by (simp add: framed_def)
    show "server_conn oid (tw_conn t)"
      using fr sc by (simp add: framed_def server_conn_def same_setup_def same_callbacks_iff bufs_ok_def)
    show "ep_interest (tw_epoller t) fd = ep_interest (sv_epoller s) fd" if "fd \<noteq> conn_fd c" for fd
      using fr that by (simp add: framed_def)
    show "p = oid \<or> (\<exists>e'. ep_interest (sv_epoller s) (conn_fd c) = Some (e', p))"
      if "ep_interest (tw_epoller t) (conn_fd c) = Some (e, p)" for e p
      using fr that sc by (simp add: framed_def server_conn_def)
    show "\<not> ep_deny (tw_epoller t)" using fr server_invD(8) [OF assms(2)] by (simp add: framed_def)
  qed
  then show ?thesis
    unfolding s' by (auto intro: server_inv_release server_inv_remove)
qed

text \<open>
  The kernel's answer to a read of connection \<open>oid\<close> fits its input buffer. The close
  callback does not touch that buffer.
\<close>

definition fits :: "(int \<Rightarrow> read_result) \<Rightarrow> nat \<Rightarrow> server \<Rightarrow> bool" where
  "fits k oid s \<longleftrightarrow> (\<forall>c. sv_heap s oid = Some c \<longrightarrow> reads_ok k (c_inputBuffer c))"

lemma server_call_inv:
  assumes "server_call k wr oid cb s = Inr s'" and "server_inv others s"
    and "cb = Conn_handleRead \<Longrightarrow> fits k oid s"
  shows "server_inv others s'"
proof (cases cb)
  case Conn_handleRead
  with assms have "on_connection (conn_handleRead k) oid s = Inr s'" and "fits k oid s" by simp_all
  then show ?thesis
    by (intro on_connection_inv [OF _ assms(2)] framed_handleRead) (auto simp: fits_def)
next
  case Conn_handleWrite
  with assms(1) have "on_connection (conn_handleWrite wr) oid s = Inr s'" by simp
  then show ?thesis by (rule on_connection_inv [OF _ assms(2) framed_handleWrite])
next
  case Conn_handleClose
  with assms(1) have "on_connection conn_handleClose oid s = Inr s'" by simp
  then show ?thesis by (rule on_connection_inv [OF _ assms(2) framed_handleClose])
qed

lemma server_inv_revents:
  assumes "server_inv others s" and "sv_heap s oid = Some c"
  shows "server_inv others (s\<lparr>sv_heap := (sv_heap s)(oid := Some (c\<lparr>c_channel := setREvents e (c_channel c)\<rparr>))\<rparr>)"
proof -
  let ?c = "c\<lparr>c_channel := setREvents e (c_channel c)\<rparr>"
  have "server_inv others (s\<lparr>sv_heap := (sv_heap s)(oid := Some ?c), sv_epoller := sv_epoller s,
      sv_wire := sv_wire s, sv_log := sv_log s\<rparr>)"
    using server_invD(3) [OF assms] server_invD(8) [OF assms(1)]
    by (intro server_inv_update [OF assms]) (simp_all add: conn_fd_def server_conn_def setREvents_def)
  then show ?thesis by simp
qed

text \<open>The callbacks of a living connection are the ones it was constructed with.\<close>

lemma conn_channel_callbacks:
  assumes "server_inv others s" and "conn_channel oid s = Some ch"
  shows "ch_readCallback ch = Some Conn_handleRead" "ch_writeCallback ch = Some Conn_handleWrite"
    "ch_closeCallback ch = Some Conn_handleClose" "ch_errorCallback ch = None"
  using assms server_invD(3) [OF assms(1), of oid]
  by (auto simp: conn_channel_def server_conn_def)

lemma release_heap: "sv_heap (release oid s) oid = None \<or> sv_heap (release oid s) oid = sv_heap s oid"
  by (simp add: release_def split: option.split)

lemma on_connectionE:
  assumes "on_connection f oid s = Inr s'"
  obtains c t where "sv_heap s oid = Some c"
    and "f \<lparr>tw_conn = c, tw_epoller = sv_epoller s, tw_wire = sv_wire s oid, tw_trace = []\<rparr> = Inr t"
    and "sv_heap s' oid = None \<or> sv_heap s' oid = Some (tw_conn t)"
proof -
  from assms obtain c t where c: "sv_heap s oid = Some c"
    and t: "f \<lparr>tw_conn = c, tw_epoller = sv_epoller s, tw_wire = sv_wire s oid, tw_trace = []\<rparr> = Inr t"
    by (cases "sv_heap s oid") (auto simp: on_connection_def bind_ok_Inr_iff)
  define s1 where "s1 = s\<lparr>sv_heap := (sv_heap s)(oid := Some (tw_conn t)), sv_epoller := tw_epoller t,
      sv_wire := (sv_wire s)(oid := tw_wire t),
      sv_log := sv_log s @ map (Pair oid) (tw_trace t)\<rparr>"
  have "s' = (if Ev_Close \<in> set (tw_trace t)
      then release oid (removeConnection (conn_fd (tw_conn t)) s1) else s1)"
    using assms c t unfolding on_connection_def Let_def s1_def by simp
  then have "sv_heap s' oid = None \<or> sv_heap s' oid = sv_heap s1 oid"
    using release_heap [of oid "removeConnection (conn_fd (tw_conn t)) s1"]
    by (simp add: removeConnection_def split: if_splits)
  with c t show thesis by (intro that) (simp_all add: s1_def)
qed

lemma fits_close:
  assumes "server_call k wr oid Conn_handleClose s = Inr s'" and "fits j oid s"
  shows "fits j oid s'"
  unfolding fits_def
proof (intro allI impI)
  fix c'
  assume c': "sv_heap s' oid = Some c'"
  from assms(1) have "on_connection conn_handleClose oid s = Inr s'" by simp
  then obtain c t where c: "sv_heap s oid = Some c"
    and t: "conn_handleClose \<lparr>tw_conn = c, tw_epoller = sv_epoller s, tw_wire = sv_wire s oid, tw_trace = []\<rparr> = Inr t"
    and "sv_heap s' oid = None \<or> sv_heap s' oid = Some (tw_conn t)"
    by (rule on_connectionE)
  moreover have "c_inputBuffer (tw_conn t) = c_inputBuffer c"
    using handleClose_input [OF t] by simp
  ultimately show "reads_ok j (c_inputBuffer c')" using c c' assms(2) by (auto simp: fits_def)
qed

text \<open>What every callback keeps, a dispatch keeps.\<close>

lemma dispatch_induct:
  assumes "handleEvent (conn_channel oid) (server_call k wr oid) s = Inr s'" and "fits k oid s" and "P s"
    and inv: "\<And>s. P s \<Longrightarrow> server_inv others s"
    and step: "\<And>cb s s'. P s \<Longrightarrow> server_call k wr oid cb s = Inr s' \<Longrightarrow>
      (cb = Conn_handleRead \<Longrightarrow> fits k oid s) \<Longrightarrow> P s'"
  shows "P s'"
proof -
  let ?if = "handle_if (conn_channel oid) (server_call k wr oid)"
  from assms(1) obtain s1 s2 s3 where
      h: "?if close_test ch_closeCallback s = Inr s1" "?if error_test ch_errorCallback s1 = Inr s2"
        "?if read_test ch_readCallback s2 = Inr s3" "?if write_test ch_writeCallback s3 = Inr s'"
    unfolding handleEvent_def bind_ok_Inr_iff by blast
  have one: "P t'" if "?if test cb t = Inr t'" "P t"
    "\<And>ch. cb ch = Some Conn_handleRead \<Longrightarrow> conn_channel oid t = Some ch \<Longrightarrow> fits k oid t" for test cb t t'
    using that(1)
  proof (cases rule: handle_ifE)
    case nothing
    with that(2) show ?thesis by simp
  next
    case (callback ch c)
    from step [OF that(2) callback(3)] that(3) callback(1,2) show ?thesis by blast
  qed
  note cb = conn_channel_callbacks [OF inv]
  have p1: "P s1"
    by (rule one [OF h(1) assms(3)]) (simp add: cb(3) [OF assms(3)])
  have f1: "fits k oid s1"
    using h(1)
  proof (cases rule: handle_ifE)
    case nothing
    with assms(2) show ?thesis by simp
  next
    case (callback ch c)
    then have "c = Conn_handleClose" using cb(3) [OF assms(3)] by simp
    with callback(3) have "server_call k wr oid Conn_handleClose s = Inr s1" by blast
    from fits_close [OF this assms(2)] show ?thesis .
  qed
  have s2: "s2 = s1"
    using h(2)
  proof (cases rule: handle_ifE)
    case (callback ch c)
    then show ?thesis using cb(4) [OF p1] by simp
  qed
  have p3: "P s3"
    using one [OF h(3)] p1 f1 s2 by blast
  show ?thesis
    by (rule one [OF h(4) p3]) (simp add: cb(2) [OF p3])
qed

lemma server_event_inv:
  assumes "server_event k wr oid e s = Inr s'" and "server_inv others s" and "fits k oid s"
  shows "server_inv others s'"
proof -
  from assms(1) obtain c where c: "sv_heap s oid = Some c"
    and h: "handleEvent (conn_channel oid) (server_call k wr oid)
      (s\<lparr>sv_heap := (sv_heap s)(oid := Some (c\<lparr>c_channel := setREvents e (c_channel c)\<rparr>))\<rparr>) = Inr s'"
    by (auto simp: server_event_def split: option.splits)
  from assms(3) c have "fits k oid (s\<lparr>sv_heap := (sv_heap s)(oid := Some (c\<lparr>c_channel := setREvents e (c_channel c)\<rparr>))\<rparr>)"
    by (simp add: fits_def)
  from dispatch_induct [where P = "server_inv others", OF h this server_inv_revents [OF assms(2) c]]
  show ?thesis using server_call_inv by blast
qed

text \<open>A new object, constructed and entered into the map.\<close>

definition add_connection :: "nat \<Rightarrow> tcp_conn \<Rightarrow> server \<Rightarrow> server" where
  "add_connection oid c s = s\<lparr>sv_fds := insert (conn_fd c) (sv_fds s),
     sv_connections := (sv_connections s)(conn_fd c := Some oid), sv_heap := (sv_heap s)(oid := Some c),
     sv_wire := (sv_wire s)(oid := [])\<rparr>"

lemma server_inv_add:
  assumes "server_inv others s" and "sv_heap s oid = None"
    and "\<And>i x. sv_heap s i = Some x \<Longrightarrow> conn_fd x \<noteq> conn_fd c"
    and "others (conn_fd c) = None" and "oid \<notin> addresses others" and "server_conn oid c"
  shows "server_inv others (add_connection oid c s)"
proof -
  note d = server_invD [OF assms(1)]
  let ?fd = "conn_fd c" and ?h = "(sv_heap s)(oid := Some c)"
  have h: "i = oid \<and> x = c \<or> i \<noteq> oid \<and> sv_heap s i = Some x" if "?h i = Some x" for i x
    using that by (auto split: if_splits)
  have "server_ok others ((sv_connections s)(?fd := Some oid)) ?h (insert ?fd (sv_fds s)) (ep_interest (sv_epoller s))"
  proof (rule server_okI)
    show "\<exists>x. ?h i = Some x \<and> conn_fd x = f" if "((sv_connections s)(?fd := Some oid)) f = Some i" for f i
      using that d(1) [of f i] assms(2) by (auto split: if_splits)
  next
    fix i x
    assume "?h i = Some x"
    with h consider "i = oid" "x = c" | "sv_heap s i = Some x" by blast
    then show "conn_fd x \<in> insert ?fd (sv_fds s) \<and> server_conn i x \<and> i \<notin> addresses others"
      by cases (use d(2,3,7) assms(5,6) in auto)
  next
    fix i j x y
    assume ij: "?h i = Some x" "?h j = Some y" and eq: "conn_fd x = conn_fd y"
    from h [OF ij(1)] h [OF ij(2)] show "i = j" using d(4) eq assms(3) by metis
  next
    fix f w q
    assume "others f = None" and "ep_interest (sv_epoller s) f = Some (w, q)"
    from d(5) [OF this] show "\<exists>x. ?h q = Some x \<and> conn_fd x = f" using assms(2) by auto
  next
    fix f x
    assume "others f = Some x"
    from d(6) [OF this] this show "ep_interest (sv_epoller s) f = Some x \<and> f \<notin> insert ?fd (sv_fds s)"
      using assms(4) by auto
  qed
  then show ?thesis using d(8-10) by (simp add: server_inv_def add_connection_def)
qed

lemma newConnection_inv:
  assumes "newConnection oid uninit localr fd peer s = Inr s'" and "server_inv others s"
    and "sv_heap s oid = None" and "fd \<notin> sv_fds s" and "others fd = None" and "oid \<notin> addresses others"
  shows "server_inv others s'"
proof -
  note d = server_invD [OF assms(2)]
  define c where "c = (tcp_ctor oid fd (getLocalAddr localr) peer uninit)\<lparr>c_has_connection := True, c_has_message := sv_has_message s,
      c_has_writeComplete := sv_has_writeComplete s, c_has_close := True\<rparr>"
  have c: "conn_fd c = fd" "server_conn oid c"
    using d(9) by (simp_all add: c_def conn_fd_def tcp_ctor_def server_conn_def new_channel_def new_buffer_inv)
  have "on_connection established oid (add_connection oid c s) = Inr s'"
    using assms(1) d(10) c(1)
    by (simp add: newConnection_def getNextLoop_def Let_def add_connection_def) (simp add: c_def)
  moreover have "server_inv others (add_connection oid c s)"
  proof (rule server_inv_add [OF assms(2,3)])
    show "conn_fd x \<noteq> conn_fd c" if "sv_heap s i = Some x" for i x
      using d(2) [OF that] assms(4) c(1) by auto
  qed (use assms(5,6) c in simp_all)
  ultimately show ?thesis by (rule on_connection_inv) (rule framed_established)
qed

end
