(* ===== verification/Server_Events.thy ===== *)
theory Server_Events
  imports Tcp_Server
begin

text \<open>
  What the operations of the server do, branch by branch: a new connection, an event of a
  connection that stays, a peer that closes, a message of the user, and the destructor.
\<close>

section \<open>New connections\<close>

lemma newConnection_ok:
  assumes "server_inv others s" and "sv_heap s oid = None" and "fd \<notin> sv_fds s" and "others fd = None"
  shows "\<exists>s' c. newConnection oid uninit localr fd peer s = Inr s'
    \<and> sv_connections s' = (sv_connections s)(fd := Some oid)
    \<and> sv_heap s' = (sv_heap s)(oid := Some c) \<and> conn_fd c = fd \<and> isConnected c
    \<and> ch_events (c_channel c) = READ \<and> c_highWaterMark c = uninit
    \<and> c_localAddr c = getLocalAddr localr \<and> c_peerAddr c = peer \<and> c_inputBuffer c = new_buffer 1024
    \<and> c_outputBuffer c = new_buffer 1024
    \<and> fd \<in> sv_fds s' \<and> sv_users s' = sv_users s
    \<and> ep_interest (sv_epoller s') fd = Some (READ, oid)
    \<and> sv_log s' = sv_log s @ [(oid, Ev_Connection CONNECTED)]"
proof -
  define c where "c = (tcp_ctor oid fd (getLocalAddr localr) peer uninit)\<lparr>c_has_connection := True, c_has_message := sv_has_message s,
      c_has_writeComplete := sv_has_writeComplete s, c_has_close := True\<rparr>"
  let ?t = "\<lparr>tw_conn = c, tw_epoller = sv_epoller s, tw_wire = [], tw_trace = []\<rparr>"
  have none: "ep_interest (sv_epoller s) fd = None"
  proof (cases "ep_interest (sv_epoller s) fd")
    case (Some x)
    then obtain e p where "ep_interest (sv_epoller s) fd = Some (e, p)" by (cases x) auto
    from server_invD(5) [OF assms(1,4) this] obtain y where "sv_heap s p = Some y" "conn_fd y = fd" by blast
    with server_invD(2) [OF assms(1)] assms(3) show ?thesis by blast
  qed simp
  obtain ch ep where u: "updateChannel oid (set_reading (c_channel c)) (sv_epoller s) = (ch, ep)" by fastforce
  have "synced oid (set_reading (c_channel c)) (sv_epoller s)"
    using none by (simp add: synced_def c_def tcp_ctor_def)
  from updateChannel_exact [OF this server_invD(8) [OF assms(1)] u]
  have i: "ep_interest ep fd = Some (READ, oid)" "ch_fd ch = fd"
    by (simp_all add: c_def tcp_ctor_def set_reading_def new_channel_def NONE_def)
  have a: "c_addr c = oid" by (simp add: c_def tcp_ctor_def)
  let ?c' = "c\<lparr>c_channel := ch, c_state := CONNECTED\<rparr>"
  have e: "established ?t = Inr (?t\<lparr>tw_conn := ?c', tw_epoller := ep, tw_trace := [Ev_Connection CONNECTED]\<rparr>)"
    using u a
    by (simp add: established_def on_channel_def enableReading_def on_conn_def fire_def)
      (simp add: c_def)
  let ?s = "s\<lparr>sv_fds := insert fd (sv_fds s), sv_connections := (sv_connections s)(fd := Some oid),
      sv_heap := (sv_heap s)(oid := Some ?c'), sv_epoller := ep, sv_wire := (sv_wire s)(oid := []),
      sv_log := sv_log s @ [(oid, Ev_Connection CONNECTED)]\<rparr>"
  have "newConnection oid uninit localr fd peer s = Inr ?s"
    using e server_invD(10) [OF assms(1)] c_def
    by (simp add: newConnection_def getNextLoop_def Let_def on_connection_def)
  moreover have "c_inputBuffer c = new_buffer 1024" "c_outputBuffer c = new_buffer 1024"
      "c_localAddr c = getLocalAddr localr" "c_peerAddr c = peer" "c_highWaterMark c = uninit"
    by (simp_all add: c_def tcp_ctor_def)
  moreover have "ch_events ch = READ"
    using u by (auto simp: c_def tcp_ctor_def updateChannel_def set_reading_def new_channel_def NONE_def Let_def)
  ultimately show ?thesis
    using i by (intro exI [of _ ?s] exI [of _ ?c']) (simp add: conn_fd_def isConnected_def)
qed

section \<open>Events of a connection that stays\<close>

text \<open>
  Connection \<open>oid\<close> is alive with a message callback, and the kernel's answers \<open>k\<close> and \<open>wr\<close>
  are within their contracts.
\<close>

definition ready_to_write :: "write_result \<Rightarrow> nat \<Rightarrow> server \<Rightarrow> bool" where
  "ready_to_write wr oid s \<longleftrightarrow> (\<exists>c. sv_heap s oid = Some c \<and> server_conn oid c
     \<and> write_within wr (length (content (c_outputBuffer c))))"

definition ready :: "(int \<Rightarrow> read_result) \<Rightarrow> write_result \<Rightarrow> nat \<Rightarrow> server \<Rightarrow> bool" where
  "ready k wr oid s \<longleftrightarrow> ready_to_write wr oid s \<and> fits k oid s"

text \<open>The kernel's answer to a read of connection \<open>oid\<close> is the end of the stream.\<close>

definition at_eof :: "(int \<Rightarrow> read_result) \<Rightarrow> nat \<Rightarrow> server \<Rightarrow> bool" where
  "at_eof k oid s \<longleftrightarrow> (\<exists>c. sv_heap s oid = Some c \<and> k (iov_capacity (c_inputBuffer c)) = Read_Bytes [])"

lemma server_conn_framed: "framed t t' \<Longrightarrow> server_conn oid (tw_conn t) \<Longrightarrow> server_conn oid (tw_conn t')"
  by (simp add: framed_def server_conn_def same_setup_def same_callbacks_iff bufs_ok_def)

lemma on_connection_stays:
  assumes "sv_heap s oid = Some c"
    and "f \<lparr>tw_conn = c, tw_epoller = sv_epoller s, tw_wire = sv_wire s oid, tw_trace = []\<rparr> = Inr t"
    and "Ev_Close \<in> set (tw_trace t) \<Longrightarrow> 0 < sv_users s oid"
  shows "\<exists>s'. on_connection f oid s = Inr s' \<and> sv_heap s' oid = Some (tw_conn t) \<and> sv_users s' = sv_users s"
  using assms by (simp add: on_connection_def Let_def removeConnection_def release_def owned_def)

lemma handleRead_total:
  assumes "server_conn oid (tw_conn t)" and "reads_ok k (c_inputBuffer (tw_conn t))"
  shows "\<exists>t'. conn_handleRead k t = Inr t' \<and> c_outputBuffer (tw_conn t') = c_outputBuffer (tw_conn t)
    \<and> (Ev_Close \<in> set (tw_trace t') \<longrightarrow> Ev_Close \<in> set (tw_trace t)
        \<or> k (iov_capacity (c_inputBuffer (tw_conn t))) = Read_Bytes [])"
proof (cases "k (iov_capacity (c_inputBuffer (tw_conn t)))")
  case (Read_Fail err)
  have "buf_inv (c_inputBuffer (tw_conn t))" using assms(1) by (simp add: server_conn_def)
  from readFromFd_fail [where kernel_readv = k, OF this Read_Fail] show ?thesis
    by (simp add: conn_handleRead_def on_conn_def)
next
  case (Read_Bytes bs)
  have inv: "buf_inv (c_inputBuffer (tw_conn t))" using assms(1) by (simp add: server_conn_def)
  from assms(2) Read_Bytes have r: "buf_room (c_inputBuffer (tw_conn t)) (length bs)" "readv_within k"
    by (simp_all add: reads_ok_def)
  obtain b where b: "readFromFd k (c_inputBuffer (tw_conn t)) = Inr (int (length bs), None, b)" "buf_inv b"
    by (rule readFromFd_ok [where kernel_readv = k, OF inv r(1) Read_Bytes r(2)])
  let ?t = "on_conn (\<lambda>c. c\<lparr>c_inputBuffer := b\<rparr>) t"
  show ?thesis
  proof (cases "bs = []")
    case True
    then have "conn_handleRead k t = conn_handleClose ?t"
      using b by (simp add: conn_handleRead_def on_conn_def)
    then show ?thesis
      using handleClose_ok [of ?t] assms(1) Read_Bytes True by (simp add: on_conn_def server_conn_def)
  next
    case False
    then have "conn_handleRead k t = fire (c_has_message (tw_conn t)) (Ev_Message (content b)) ?t"
      using b by (simp add: conn_handleRead_def on_conn_def readable_bytes_ok)
    then show ?thesis using assms(1) by (simp add: fire_def on_conn_def server_conn_def)
  qed
qed

lemma handleWrite_total:
  assumes "buf_inv (c_outputBuffer (tw_conn t))"
  shows "\<exists>t'. conn_handleWrite wr t = Inr t'
    \<and> (Ev_Close \<in> set (tw_trace t') \<longrightarrow> Ev_Close \<in> set (tw_trace t))"
proof (cases "hasWrite (c_channel (tw_conn t))")
  case False
  then show ?thesis by (simp add: conn_handleWrite_def)
next
  case True
  then show ?thesis
    using assms
    by (cases wr) (auto simp: conn_handleWrite_def readable_bytes_ok kernel_write_def fire_def on_conn_def
        on_channel_def Let_def split: prod.splits)
qed

text \<open>The three callbacks, in the server.\<close>

lemma call_close_stays:
  assumes "ready k wr oid s" and "0 < sv_users s oid"
  shows "\<exists>s'. server_call k wr oid Conn_handleClose s = Inr s' \<and> ready k wr oid s' \<and> sv_users s' = sv_users s
    \<and> map_option ch_revents (conn_channel oid s') = map_option ch_revents (conn_channel oid s)
    \<and> (at_eof k oid s' \<longleftrightarrow> at_eof k oid s)"
proof -
  from assms(1) obtain c where c: "sv_heap s oid = Some c" "server_conn oid c"
      "write_within wr (length (content (c_outputBuffer c)))" "reads_ok k (c_inputBuffer c)"
    by (auto simp: ready_def ready_to_write_def fits_def)
  let ?t = "\<lparr>tw_conn = c, tw_epoller = sv_epoller s, tw_wire = sv_wire s oid, tw_trace = []\<rparr>"
  obtain t where t: "conn_handleClose ?t = Inr t" "c_outputBuffer (tw_conn t) = c_outputBuffer c"
      "c_inputBuffer (tw_conn t) = c_inputBuffer c"
    using handleClose_ok [of ?t] c by (auto simp: server_conn_def)
  from on_connection_stays [where f = "conn_handleClose", OF c(1) t(1)] assms(2) obtain s' where
      s': "on_connection conn_handleClose oid s = Inr s'" "sv_heap s' oid = Some (tw_conn t)"
        "sv_users s' = sv_users s"
    by blast
  note fr = framed_handleClose [OF t(1)]
  have "server_conn oid (tw_conn t)" using server_conn_framed [OF fr] c(2) by simp
  moreover have "ch_revents (c_channel (tw_conn t)) = ch_revents (c_channel c)"
    using fr by (simp add: framed_def same_callbacks_iff)
  ultimately show ?thesis
    using s' t c by (auto simp: ready_def ready_to_write_def fits_def conn_channel_def at_eof_def)
qed

lemma call_read_stays:
  assumes "ready k wr oid s" and "at_eof k oid s \<Longrightarrow> 0 < sv_users s oid"
  shows "\<exists>s'. server_call k wr oid Conn_handleRead s = Inr s' \<and> ready_to_write wr oid s'"
proof -
  from assms(1) obtain c where c: "sv_heap s oid = Some c" "server_conn oid c"
      "write_within wr (length (content (c_outputBuffer c)))" "reads_ok k (c_inputBuffer c)"
    by (auto simp: ready_def ready_to_write_def fits_def)
  let ?t = "\<lparr>tw_conn = c, tw_epoller = sv_epoller s, tw_wire = sv_wire s oid, tw_trace = []\<rparr>"
  from handleRead_total [of oid ?t k] c obtain t where
      t: "conn_handleRead k ?t = Inr t" "c_outputBuffer (tw_conn t) = c_outputBuffer c"
        "Ev_Close \<in> set (tw_trace t) \<longrightarrow> k (iov_capacity (c_inputBuffer c)) = Read_Bytes []"
    by auto
  have "Ev_Close \<in> set (tw_trace t) \<Longrightarrow> 0 < sv_users s oid"
    using t(3) assms(2) c(1) by (auto simp: at_eof_def)
  from on_connection_stays [where f = "conn_handleRead k", OF c(1) t(1) this] obtain s' where
      s': "on_connection (conn_handleRead k) oid s = Inr s'" "sv_heap s' oid = Some (tw_conn t)"
    by blast
  have "framed ?t t" using framed_handleRead [OF t(1)] c(4) by simp
  from server_conn_framed [OF this] c(2) have "server_conn oid (tw_conn t)" by simp
  with s' t c show ?thesis by (auto simp: ready_to_write_def)
qed

lemma call_write_stays:
  assumes "ready_to_write wr oid s"
  shows "\<exists>s'. server_call k wr oid Conn_handleWrite s = Inr s' \<and> sv_heap s' oid \<noteq> None"
proof -
  from assms obtain c where c: "sv_heap s oid = Some c" "server_conn oid c"
    by (auto simp: ready_to_write_def)
  let ?t = "\<lparr>tw_conn = c, tw_epoller = sv_epoller s, tw_wire = sv_wire s oid, tw_trace = []\<rparr>"
  from handleWrite_total [of ?t wr] c(2) obtain t where
      t: "conn_handleWrite wr ?t = Inr t" "Ev_Close \<notin> set (tw_trace t)"
    by (auto simp: server_conn_def)
  from on_connection_stays [where f = "conn_handleWrite wr", OF c(1) t(1)] t(2) show ?thesis by auto
qed

text \<open>
  The dispatch of one event of a ready connection. Closing, on a hang-up or at the end of the
  stream, needs another owner than the server.
\<close>

definition closes :: "(int \<Rightarrow> read_result) \<Rightarrow> nat \<Rightarrow> events \<Rightarrow> server \<Rightarrow> bool" where
  "closes k oid e s \<longleftrightarrow> close_test e \<or> read_test e \<and> at_eof k oid s"

lemma dispatch_stays:
  assumes "server_inv others s" and "ready k wr oid s" and "conn_channel oid s = Some ch"
    and "closes k oid (ch_revents ch) s \<Longrightarrow> 0 < sv_users s oid"
  shows "\<exists>s'. handleEvent (conn_channel oid) (server_call k wr oid) s = Inr s'"
proof -
  let ?e = "ch_revents ch"
  let ?call = "server_call k wr oid"
  have cb: "ch_readCallback ch = Some Conn_handleRead" "ch_closeCallback ch = Some Conn_handleClose"
    using conn_channel_callbacks [OF assms(1,3)] by simp_all
  obtain s1 where c1: "handle_if (conn_channel oid) ?call close_test ch_closeCallback s = Inr s1"
    and r1: "ready k wr oid s1" "map_option ch_revents (conn_channel oid s1) = Some ?e"
      "at_eof k oid s1 \<and> read_test ?e \<Longrightarrow> 0 < sv_users s1 oid"
  proof (cases "close_test ?e")
    case True
    then have u: "0 < sv_users s oid" using assms(4) by (simp add: closes_def)
    from call_close_stays [OF assms(2) this] obtain s1 where "?call Conn_handleClose s = Inr s1" "ready k wr oid s1"
        "sv_users s1 = sv_users s" "map_option ch_revents (conn_channel oid s1) = Some ?e"
      using assms(3) by auto
    then show thesis
      using that [of s1] True cb(2) assms(3) u by (simp add: handle_if_alive due_if_def del: server_call.simps)
  next
    case False
    then show thesis
      using that [of s] assms by (simp add: handle_if_alive due_if_def closes_def)
  qed
  obtain c1' where ch1: "conn_channel oid s1 = Some c1'" "ch_revents c1' = ?e"
    using r1(2) by auto
  from r1(1) have sc: "ch_errorCallback c1' = None" "ch_readCallback c1' = Some Conn_handleRead"
    using ch1(1) by (auto simp: ready_def ready_to_write_def server_conn_def conn_channel_def)
  have c2: "handle_if (conn_channel oid) ?call error_test ch_errorCallback s1 = Inr s1"
    using ch1 sc(1) by (simp add: handle_if_alive due_if_def)
  obtain s3 where c3: "handle_if (conn_channel oid) ?call read_test ch_readCallback s1 = Inr s3"
    and r3: "ready_to_write wr oid s3"
  proof (cases "read_test ?e")
    case True
    then have "at_eof k oid s1 \<Longrightarrow> 0 < sv_users s1 oid" using r1(3) by blast
    from call_read_stays [OF r1(1) this] obtain s3 where "?call Conn_handleRead s1 = Inr s3" "ready_to_write wr oid s3"
      by blast
    then show thesis
      using that [of s3] True ch1 sc(2) by (simp add: handle_if_alive due_if_def del: server_call.simps)
  next
    case False
    then show thesis using that [of s1] ch1 r1(1) by (simp add: handle_if_alive due_if_def ready_def)
  qed
  from r3 obtain c3' where ch3: "conn_channel oid s3 = Some c3'" "ch_writeCallback c3' = Some Conn_handleWrite"
    by (auto simp: ready_to_write_def server_conn_def conn_channel_def)
  have "\<exists>s'. handle_if (conn_channel oid) ?call write_test ch_writeCallback s3 = Inr s'"
    using call_write_stays [OF r3, of k] ch3
    by (auto simp: handle_if_alive due_if_def simp del: server_call.simps)
  with c1 c2 c3 show ?thesis by (simp add: handleEvent_def)
qed

lemma event_stays:
  assumes "server_inv others s" and "ready k wr oid s" and "closes k oid e s \<Longrightarrow> 0 < sv_users s oid"
  shows "\<exists>s'. server_event k wr oid e s = Inr s'"
proof -
  from assms(2) obtain c where c: "sv_heap s oid = Some c" by (auto simp: ready_def ready_to_write_def)
  let ?c = "c\<lparr>c_channel := setREvents e (c_channel c)\<rparr>"
  let ?s = "s\<lparr>sv_heap := (sv_heap s)(oid := Some ?c)\<rparr>"
  have "ready k wr oid ?s"
    using assms(2) c by (simp add: ready_def ready_to_write_def fits_def server_conn_def setREvents_def)
  moreover have "conn_channel oid ?s = Some (c_channel ?c)" by (simp add: conn_channel_def)
  moreover have "closes k oid (ch_revents (c_channel ?c)) ?s \<Longrightarrow> 0 < sv_users ?s oid"
    using assms(3) c by (simp add: closes_def at_eof_def setREvents_def)
  ultimately have "\<exists>s'. handleEvent (conn_channel oid) (server_call k wr oid) ?s = Inr s'"
    by (rule dispatch_stays [OF server_inv_revents [OF assms(1) c]])
  then show ?thesis using c by (simp add: server_event_def)
qed

section \<open>Ownership\<close>

text \<open>No connection is leaked: each living one is held by the map or by the user.\<close>

definition no_leak :: "server \<Rightarrow> bool" where
  "no_leak s \<longleftrightarrow> (\<forall>oid c. sv_heap s oid = Some c \<longrightarrow> owned oid s)"

lemma no_leakD: "no_leak s \<Longrightarrow> sv_heap s oid = Some c \<Longrightarrow> 0 < sv_users s oid \<or> sv_connections s (conn_fd c) = Some oid"
  by (auto simp: no_leak_def owned_def)

lemma no_leakI:
  "(\<And>oid c. sv_heap s oid = Some c \<Longrightarrow> 0 < sv_users s oid \<or> sv_connections s (conn_fd c) = Some oid) \<Longrightarrow>
    no_leak s"
  by (auto simp: no_leak_def owned_def)

text \<open>An owner of \<open>oid\<close> goes; all other objects are owned.\<close>

lemma no_leak_release:
  assumes "\<And>i c. i \<noteq> oid \<Longrightarrow> sv_heap s i = Some c \<Longrightarrow> 0 < sv_users s i \<or> sv_connections s (conn_fd c) = Some i"
  shows "no_leak (release oid s)"
proof (rule no_leakI)
  fix i c
  assume i: "sv_heap (release oid s) i = Some c"
  show "0 < sv_users (release oid s) i \<or> sv_connections (release oid s) (conn_fd c) = Some i"
  proof (cases "i = oid")
    case True
    with i have "owned oid s" "sv_heap s oid = Some c"
      by (auto simp: release_def split: option.splits if_splits)
    then show ?thesis using True by (auto simp: owned_def release_def)
  next
    case False
    with i have "sv_heap s i = Some c" by (auto simp: release_def split: option.splits if_splits)
    from assms [OF False this] show ?thesis by (simp add: release_def split: option.split)
  qed
qed

lemma no_leak_on_connection:
  assumes "on_connection f oid s = Inr s'" and "no_leak s" and "server_inv others s"
    and "\<And>t t'. sv_heap s oid = Some (tw_conn t) \<Longrightarrow> f t = Inr t' \<Longrightarrow> framed t t'"
  shows "no_leak s'"
proof -
  from assms(1) obtain c t where c: "sv_heap s oid = Some c"
    and t: "f \<lparr>tw_conn = c, tw_epoller = sv_epoller s, tw_wire = sv_wire s oid, tw_trace = []\<rparr> = Inr t"
    by (cases "sv_heap s oid") (auto simp: on_connection_def bind_ok_Inr_iff)
  define s1 where "s1 = s\<lparr>sv_heap := (sv_heap s)(oid := Some (tw_conn t)), sv_epoller := tw_epoller t,
      sv_wire := (sv_wire s)(oid := tw_wire t),
      sv_log := sv_log s @ map (Pair oid) (tw_trace t)\<rparr>"
  have s': "s' = (if Ev_Close \<in> set (tw_trace t)
      then release oid (removeConnection (conn_fd (tw_conn t)) s1) else s1)"
    using assms(1) c t unfolding on_connection_def Let_def s1_def by simp
  have "framed \<lparr>tw_conn = c, tw_epoller = sv_epoller s, tw_wire = sv_wire s oid, tw_trace = []\<rparr> t"
    using c by (intro assms(4) [OF _ t]) simp
  then have fd: "conn_fd (tw_conn t) = conn_fd c" by (simp add: framed_def)
  have o: "0 < sv_users s i \<or> sv_connections s (conn_fd x) = Some i" if "sv_heap s1 i = Some x" for i x
    using that no_leakD [OF assms(2)] c fd by (auto simp: s1_def split: if_splits)
  have "no_leak s1" using o by (intro no_leakI) (simp add: s1_def)
  moreover have "no_leak (release oid (removeConnection (conn_fd c) s1))"
  proof (rule no_leak_release)
    fix i x
    assume "i \<noteq> oid" and "sv_heap (removeConnection (conn_fd c) s1) i = Some x"
    then have x: "sv_heap s i = Some x" "sv_heap s1 i = Some x"
      by (simp_all add: removeConnection_def s1_def)
    with server_invD(4) [OF assms(3) x(1) c] \<open>i \<noteq> oid\<close> have "conn_fd x \<noteq> conn_fd c" by blast
    with o [OF x(2)] show "0 < sv_users (removeConnection (conn_fd c) s1) i
        \<or> sv_connections (removeConnection (conn_fd c) s1) (conn_fd x) = Some i"
      by (simp add: removeConnection_def s1_def)
  qed
  ultimately show ?thesis unfolding s' fd by simp
qed

lemma no_leak_drop:
  assumes "no_leak s"
  shows "no_leak (user_drops oid s)"
  unfolding user_drops_def
  using no_leakD [OF assms] by (intro no_leak_release) simp

section \<open>What every operation keeps\<close>

definition server_good :: "watched \<Rightarrow> server \<Rightarrow> bool" where
  "server_good others s \<longleftrightarrow> server_inv others s \<and> no_leak s"

lemma server_good_on_connection:
  assumes "on_connection f oid s = Inr s'" and "server_good others s"
    and "\<And>t t'. sv_heap s oid = Some (tw_conn t) \<Longrightarrow> f t = Inr t' \<Longrightarrow> framed t t'"
  shows "server_good others s'"
  using on_connection_inv [where f = f, OF assms(1) _ assms(3)]
    no_leak_on_connection [where f = f, OF assms(1) _ _ assms(3)] assms(2)
  unfolding server_good_def by blast

lemma server_good_call:
  assumes "server_good others s" and "server_call k wr oid cb s = Inr s'"
    and "cb = Conn_handleRead \<Longrightarrow> fits k oid s"
  shows "server_good others s'"
proof (cases cb)
  case Conn_handleRead
  with assms(2,3) have "on_connection (conn_handleRead k) oid s = Inr s'" and f: "fits k oid s" by simp_all
  from server_good_on_connection [OF this(1) assms(1)] f show ?thesis
    by (auto simp: fits_def intro: framed_handleRead)
next
  case Conn_handleWrite
  with assms(2) have "on_connection (conn_handleWrite wr) oid s = Inr s'" by simp
  from server_good_on_connection [OF this assms(1)] show ?thesis by (auto intro: framed_handleWrite)
next
  case Conn_handleClose
  with assms(2) have "on_connection conn_handleClose oid s = Inr s'" by simp
  from server_good_on_connection [OF this assms(1)] show ?thesis by (auto intro: framed_handleClose)
qed

lemma server_good_dispatch:
  assumes "handleEvent (conn_channel oid) (server_call k wr oid) s = Inr s'" and "server_good others s"
    and "fits k oid s"
  shows "server_good others s'"
proof (rule dispatch_induct [where P = "server_good others", OF assms(1,3,2)])
  show "server_inv others s" if "server_good others s" for s using that by (simp add: server_good_def)
qed (rule server_good_call)

lemma server_good_send:
  assumes "user_send wr m oid s = Inr s'" and "server_good others s"
    and "sv_heap s oid = Some c" and "buf_room (c_outputBuffer c) (length m)"
  shows "server_good others s'"
  using server_good_on_connection [OF assms(1) [unfolded user_send_def] assms(2)] assms(3,4)
  by (auto intro: framed_send)

lemma server_good_retrieve:
  assumes "user_retrieve n oid s = Inr s'" and "server_good others s"
  shows "server_good others s'"
proof (rule server_good_on_connection [OF assms(1) [unfolded user_retrieve_def] assms(2)])
  fix t t'
  assume "Inr (on_conn (\<lambda>c. c\<lparr>c_inputBuffer := retrieve (c_inputBuffer c) (int n)\<rparr>) t) = Inr t'"
  moreover have "framed t (on_conn (\<lambda>c. c\<lparr>c_inputBuffer := retrieve (c_inputBuffer c) (int n)\<rparr>) t)"
    by (rule framed_conn) (simp_all add: conn_fd_def same_setup_def same_callbacks_iff bufs_ok_def retrieve_inv)
  ultimately show "framed t t'" by simp
qed

lemma server_good_keep: "server_good others s \<Longrightarrow> server_good others (user_keeps oid s)"
  by (auto simp: server_good_def server_inv_def user_keeps_def no_leak_def owned_def)

lemma server_good_drop:
  assumes "server_good others s"
  shows "server_good others (user_drops oid s)"
proof -
  have "server_inv others (s\<lparr>sv_users := (sv_users s)(oid := sv_users s oid - 1)\<rparr>)"
    using assms by (simp add: server_good_def server_inv_def)
  then have "server_inv others (user_drops oid s)"
    unfolding user_drops_def by (rule server_inv_release)
  with assms no_leak_drop show ?thesis by (simp add: server_good_def)
qed

lemma server_good_new:
  assumes "newConnection oid uninit localr fd peer s = Inr s'" and "server_good others s"
    and "sv_heap s oid = None" and "fd \<notin> sv_fds s" and "others fd = None" and "oid \<notin> addresses others"
  shows "server_good others s'"
proof -
  have inv: "server_inv others s" and leak: "no_leak s" using assms(2) by (simp_all add: server_good_def)
  from newConnection_ok [OF inv assms(3,4,5), of uninit localr peer] assms(1) obtain c where
      s': "sv_connections s' = (sv_connections s)(fd := Some oid)" "sv_heap s' oid = Some c" "conn_fd c = fd"
        "sv_users s' = sv_users s" "\<forall>i. i \<noteq> oid \<longrightarrow> sv_heap s' i = sv_heap s i"
    by auto
  have "no_leak s'"
  proof (rule no_leakI)
    fix i x
    assume i: "sv_heap s' i = Some x"
    show "0 < sv_users s' i \<or> sv_connections s' (conn_fd x) = Some i"
    proof (cases "i = oid")
      case True
      with i s' show ?thesis by simp
    next
      case False
      with i s'(5) have x: "sv_heap s i = Some x" by simp
      from server_invD(2) [OF inv x] assms(4) have "conn_fd x \<noteq> fd" by blast
      with no_leakD [OF leak x] s'(1,4) show ?thesis by simp
    qed
  qed
  with newConnection_inv [OF assms(1) inv assms(3-6)] show ?thesis by (simp add: server_good_def)
qed

section \<open>A peer that closes\<close>

text \<open>The read callback of a connection at the end of its stream, in the server.\<close>

lemma on_connection_close:
  assumes "sv_heap s oid = Some c"
    and "f \<lparr>tw_conn = c, tw_epoller = sv_epoller s, tw_wire = sv_wire s oid, tw_trace = []\<rparr> = Inr t"
    and "tw_trace t = [Ev_Connection DISCONNECTED, Ev_Close]" and "conn_fd (tw_conn t) = conn_fd c"
    and "sv_connections s (conn_fd c) = Some oid" and "sv_users s oid = 0"
  shows "\<exists>s'. on_connection f oid s = Inr s' \<and> sv_heap s' oid = None \<and> conn_fd c \<notin> sv_fds s'
    \<and> sv_connections s' (conn_fd c) = None"
  using assms by (simp add: on_connection_def Let_def removeConnection_def release_def owned_def)

lemma handleRead_eof_conn:
  assumes "buf_inv (c_inputBuffer (tw_conn t))" and "readv_within k"
    and "k (iov_capacity (c_inputBuffer (tw_conn t))) = Read_Bytes []"
    and "c_has_connection (tw_conn t)" and "c_has_close (tw_conn t)"
  shows "\<exists>t'. conn_handleRead k t = Inr t'
    \<and> tw_trace t' = tw_trace t @ [Ev_Connection DISCONNECTED, Ev_Close]
    \<and> conn_fd (tw_conn t') = conn_fd (tw_conn t)"
proof -
  have "buf_room (c_inputBuffer (tw_conn t)) (length ([] :: byte list))"
    using buf_invD [OF assms(1)] by (simp add: buf_room_def)
  then obtain b where "readFromFd k (c_inputBuffer (tw_conn t)) = Inr (int (length ([] :: byte list)), None, b)"
    by (rule readFromFd_ok [OF assms(1) _ assms(3,2)])
  then show ?thesis
    using handleClose_ok [of "on_conn (\<lambda>c. c\<lparr>c_inputBuffer := b\<rparr>) t"] assms(4,5)
    by (simp add: conn_handleRead_def on_conn_def conn_fd_def)
qed

text \<open>The first callback that is due frees the channel: the next access faults.\<close>

lemma handleEvent_freed:
  assumes "handle_if obj call close_test ch_closeCallback s = Inr s1" and "obj s1 = None"
  shows "handleEvent obj call s = Inl Use_After_Free"
  using assms by (simp add: handleEvent_def handle_if_freed)

lemma handleEvent_freed_by_read:
  assumes "obj s = Some ch" and "\<not> close_test (ch_revents ch)" and "ch_errorCallback ch = None"
    and "handle_if obj call read_test ch_readCallback s = Inr s1" and "obj s1 = None"
  shows "handleEvent obj call s = Inl Use_After_Free"
  using assms
  by (simp add: handleEvent_def handle_if_alive [of obj s ch] due_if_def handle_if_freed)

text \<open>
  The dispatch of a closing event of a connection only the map owns: the close callback drops
  the last owner, and \<open>handleEvent\<close> goes on with the freed channel.
\<close>

lemma dispatch_frees:
  assumes "server_inv others s" and "sv_heap s oid = Some c" and "sv_connections s (conn_fd c) = Some oid"
    and "sv_users s oid = 0" and "fits k oid s" and "closes k oid (ch_revents (c_channel c)) s"
  shows "handleEvent (conn_channel oid) (server_call k wr oid) s = Inl Use_After_Free"
proof -
  have sc: "server_conn oid c" using server_invD(3) [OF assms(1,2)] .
  let ?t = "\<lparr>tw_conn = c, tw_epoller = sv_epoller s, tw_wire = sv_wire s oid, tw_trace = []\<rparr>"
  let ?e = "ch_revents (c_channel c)"
  have ch: "conn_channel oid s = Some (c_channel c)" using assms(2) by (simp add: conn_channel_def)
  have cb: "ch_closeCallback (c_channel c) = Some Conn_handleClose"
      "ch_readCallback (c_channel c) = Some Conn_handleRead" "ch_errorCallback (c_channel c) = None"
    using sc by (simp_all add: server_conn_def)
  have flags: "c_has_connection (tw_conn ?t)" "c_has_close (tw_conn ?t)"
    using sc by (simp_all add: server_conn_def)
  have gone: "\<exists>s1. on_connection f oid s = Inr s1 \<and> conn_channel oid s1 = None"
    if "f ?t = Inr t" "tw_trace t = [Ev_Connection DISCONNECTED, Ev_Close]" "conn_fd (tw_conn t) = conn_fd c" for f t
    using on_connection_close [where f = f, OF assms(2) that assms(3,4)] by (auto simp: conn_channel_def)
  show ?thesis
  proof (cases "close_test ?e")
    case True
    from handleClose_ok [of ?t, OF flags] gone [of conn_handleClose] obtain s1 where
        "on_connection conn_handleClose oid s = Inr s1" "conn_channel oid s1 = None"
      by (auto simp: conn_fd_def)
    with ch cb True show ?thesis
      by (intro handleEvent_freed [of _ _ _ s1]) (simp_all add: handle_if_alive due_if_def)
  next
    case False
    with assms(2,5,6) have r: "read_test ?e" "reads_ok k (c_inputBuffer (tw_conn ?t))"
        "k (iov_capacity (c_inputBuffer (tw_conn ?t))) = Read_Bytes []"
      by (auto simp: closes_def at_eof_def fits_def)
    have "buf_inv (c_inputBuffer (tw_conn ?t))" "readv_within k"
      using sc r(2) by (simp_all add: server_conn_def reads_ok_def)
    from handleRead_eof_conn [OF this r(3) flags] gone [of "conn_handleRead k"] obtain s1 where
        "on_connection (conn_handleRead k) oid s = Inr s1" "conn_channel oid s1 = None"
      by auto
    with ch cb r(1) False show ?thesis
      by (intro handleEvent_freed_by_read [where obj = "conn_channel oid" and s = s and ?s1.0 = s1, OF ch])
        (simp_all add: handle_if_alive due_if_def)
  qed
qed

text \<open>The dispatch of data: the message callback sees it behind what the user left.\<close>

lemma dispatch_data:
  assumes "server_inv others s" and "sv_heap s oid = Some c" and "fits k oid s"
    and "\<not> close_test (ch_revents (c_channel c))" and "read_test (ch_revents (c_channel c))"
    and "\<not> write_test (ch_revents (c_channel c))"
    and "k (iov_capacity (c_inputBuffer c)) = Read_Bytes bs" and "bs \<noteq> []"
  shows "\<exists>b. handleEvent (conn_channel oid) (server_call k wr oid) s
      = Inr (s\<lparr>sv_heap := (sv_heap s)(oid := Some (c\<lparr>c_inputBuffer := b\<rparr>)),
          sv_log := sv_log s @ [(oid, Ev_Message (content (c_inputBuffer c) @ bs))]\<rparr>)
    \<and> buf_inv b \<and> content b = content (c_inputBuffer c) @ bs"
proof -
  have sc: "server_conn oid c" using server_invD(3) [OF assms(1,2)] .
  let ?t = "\<lparr>tw_conn = c, tw_epoller = sv_epoller s, tw_wire = sv_wire s oid, tw_trace = []\<rparr>"
  have inv: "buf_inv (c_inputBuffer c)" using sc by (simp add: server_conn_def)
  have r: "buf_room (c_inputBuffer c) (length bs)" "readv_within k"
    using assms(2,3,7) by (simp_all add: fits_def reads_ok_def)
  obtain b where b: "readFromFd k (c_inputBuffer c) = Inr (int (length bs), None, b)" "buf_inv b"
      "content b = content (c_inputBuffer c) @ bs"
    by (rule readFromFd_ok [where kernel_readv = k, OF inv r(1) assms(7) r(2)])
  let ?s = "s\<lparr>sv_heap := (sv_heap s)(oid := Some (c\<lparr>c_inputBuffer := b\<rparr>)),
      sv_log := sv_log s @ [(oid, Ev_Message (content (c_inputBuffer c) @ bs))]\<rparr>"
  have "readable_bytes b = Inr (content b)" by (rule readable_bytes_ok [OF b(2)])
  with b(1,3) assms(8) sc have "conn_handleRead k ?t = Inr (?t\<lparr>tw_conn := c\<lparr>c_inputBuffer := b\<rparr>,
      tw_trace := [Ev_Message (content (c_inputBuffer c) @ bs)]\<rparr>)"
    by (simp add: conn_handleRead_def on_conn_def fire_def server_conn_def)
  then have call: "server_call k wr oid Conn_handleRead s = Inr ?s"
    using assms(2) by (simp add: on_connection_def)
  have ch: "conn_channel oid s = Some (c_channel c)" "conn_channel oid ?s = Some (c_channel c)"
    using assms(2) by (simp_all add: conn_channel_def)
  have "handleEvent (conn_channel oid) (server_call k wr oid) s = Inr ?s"
    using ch call sc assms(4-6)
    by (simp add: handleEvent_def handle_if_alive due_if_def server_conn_def)
  with b show ?thesis by blast
qed

lemma hup_tests: "close_test POLLHUP" "\<not> error_test POLLHUP" "\<not> read_test POLLHUP" "\<not> write_test POLLHUP"
  by (simp_all add: close_test_def error_test_def read_test_def write_test_def has_event_def poll_bits)

text \<open>A hang-up of a connection the user keeps.\<close>

lemma hup_kept:
  assumes "sv_heap s oid = Some c" and "server_conn oid c" and "0 < sv_users s oid"
  shows "\<exists>s' c'. server_event k wr oid POLLHUP s = Inr s' \<and> sv_heap s' = (sv_heap s)(oid := Some c')
    \<and> server_conn oid c' \<and> c_inputBuffer c' = c_inputBuffer c
    \<and> c_outputBuffer c' = c_outputBuffer c
    \<and> conn_fd c' = conn_fd c \<and> sv_users s' = sv_users s \<and> sv_fds s' = sv_fds s
    \<and> sv_epoller s' = sv_epoller s
    \<and> sv_log s' = sv_log s @ [(oid, Ev_Connection DISCONNECTED), (oid, Ev_Close)]"
proof -
  let ?c = "c\<lparr>c_channel := setREvents POLLHUP (c_channel c)\<rparr>"
  let ?s = "s\<lparr>sv_heap := (sv_heap s)(oid := Some ?c)\<rparr>"
  let ?t = "\<lparr>tw_conn = ?c, tw_epoller = sv_epoller s, tw_wire = sv_wire s oid, tw_trace = []\<rparr>"
  define c' where "c' = ?c\<lparr>c_channel := disableAll (c_channel ?c), c_state := DISCONNECTED\<rparr>"
  have call: "conn_handleClose ?t = Inr (?t\<lparr>tw_conn := c', tw_trace := [Ev_Connection DISCONNECTED, Ev_Close]\<rparr>)"
    using handleClose_ok [of ?t] assms(2) by (simp add: server_conn_def c'_def)
  define s' where "s' = s\<lparr>sv_heap := (sv_heap s)(oid := Some c'),
    sv_connections := (sv_connections s)(conn_fd c := None),
    sv_log := sv_log s @ [(oid, Ev_Connection DISCONNECTED), (oid, Ev_Close)]\<rparr>"
  have fd: "conn_fd c' = conn_fd c" by (simp add: c'_def conn_fd_def)
  have "server_call k wr oid Conn_handleClose ?s = Inr s'"
    using call assms(3) fd
    by (simp add: on_connection_def Let_def s'_def removeConnection_def release_def owned_def)
  moreover have "ch_revents (c_channel ?c) = POLLHUP" "ch_closeCallback (c_channel ?c) = Some Conn_handleClose"
    using assms(2) by (simp_all add: setREvents_def server_conn_def)
  moreover have "conn_channel oid ?s = Some (c_channel ?c)" by (simp add: conn_channel_def)
  moreover have "conn_channel oid s' = Some (c_channel c')" "ch_revents (c_channel c') = POLLHUP"
    by (simp_all add: conn_channel_def s'_def c'_def disableAll_def setREvents_def)
  ultimately have "handleEvent (conn_channel oid) (server_call k wr oid) ?s = Inr s'"
    by (simp add: handleEvent_def handle_if_alive due_if_def hup_tests)
  moreover have "server_conn oid c'" "c_inputBuffer c' = c_inputBuffer c"
      "c_outputBuffer c' = c_outputBuffer c"
    using assms(2) by (simp_all add: server_conn_def c'_def disableAll_def setREvents_def)
  ultimately show ?thesis
    using assms(1) fd by (intro exI [of _ s'] exI [of _ c']) (simp add: server_event_def s'_def)
qed

section \<open>Destruction\<close>

lemma destroy_one:
  assumes "server_inv others s" and "sv_connections s fd = Some oid" and "sv_users s oid = 0"
  shows "\<exists>s1. on_connection destory oid (removeConnection fd s) = Inr s1
    \<and> sv_connections (release oid s1) = (sv_connections s)(fd := None)
    \<and> sv_heap (release oid s1) = (sv_heap s)(oid := None)
    \<and> sv_fds (release oid s1) = sv_fds s - {fd}
    \<and> ep_interest (sv_epoller (release oid s1)) fd = None
    \<and> (\<forall>fd'. fd' \<noteq> fd \<longrightarrow> ep_interest (sv_epoller (release oid s1)) fd' = ep_interest (sv_epoller s) fd')
    \<and> sv_users (release oid s1) = sv_users s \<and> server_inv others (release oid s1)"
proof -
  from server_invD(1) [OF assms(1,2)] obtain c where c: "sv_heap s oid = Some c" "conn_fd c = fd" by blast
  have sc: "server_conn oid c" using server_invD(3) [OF assms(1) c(1)] .
  let ?t = "\<lparr>tw_conn = c, tw_epoller = sv_epoller s, tw_wire = sv_wire s oid, tw_trace = []\<rparr>"
  obtain t where t: "destory ?t = Inr t" "tw_trace t = [Ev_Connection DISCONNECTED]"
    using sc by (auto simp: destory_def disconnect_def fire_def on_conn_def server_conn_def on_channel_def
        split: prod.splits)
  note fr = framed_destory [OF t(1)]
  define s1 where "s1 = (removeConnection fd s)\<lparr>sv_heap := (sv_heap s)(oid := Some (tw_conn t)),
    sv_epoller := tw_epoller t, sv_wire := (sv_wire s)(oid := tw_wire t),
      sv_log := sv_log s @ map (Pair oid) (tw_trace t)\<rparr>"
  have s1: "on_connection destory oid (removeConnection fd s) = Inr s1"
    using c t by (simp add: on_connection_def Let_def s1_def removeConnection_def)
  have "server_inv others s1"
    by (rule on_connection_inv [OF s1 server_inv_remove [OF assms(1)] framed_destory])
  then have inv: "server_inv others (release oid s1)" by (rule server_inv_release)
  have fd: "conn_fd (tw_conn t) = fd" using fr c(2) by (simp add: framed_def)
  have r: "release oid s1 = s1\<lparr>sv_heap := (sv_heap s)(oid := None), sv_fds := sv_fds s - {fd},
      sv_epoller := kernel_close fd (tw_epoller t)\<rparr>"
    using fd assms(3) by (simp add: release_def owned_def s1_def removeConnection_def)
  have "ep_interest (tw_epoller t) fd' = ep_interest (sv_epoller s) fd'" if "fd' \<noteq> fd" for fd'
    using fr that c(2) by (simp add: framed_def)
  then show ?thesis
    using s1 inv by (intro exI [of _ s1]) (simp add: r, simp add: s1_def removeConnection_def kernel_close_def)
qed

lemma server_dtor_frees:
  "server_inv others s \<Longrightarrow> \<forall>oid. sv_users s oid = 0 \<Longrightarrow> distinct fds \<Longrightarrow>
    \<exists>s'. server_dtor fds s = Inr s' \<and> (\<forall>fd \<in> set fds. sv_connections s' fd = None)
      \<and> (\<forall>fd oid. fd \<in> set fds \<longrightarrow> sv_connections s fd = Some oid \<longrightarrow>
           sv_heap s' oid = None \<and> fd \<notin> sv_fds s' \<and> ep_interest (sv_epoller s') fd = None)
      \<and> (\<forall>oid. sv_heap s oid = None \<longrightarrow> sv_heap s' oid = None)
      \<and> sv_fds s' \<subseteq> sv_fds s
      \<and> (\<forall>fd. fd \<notin> set fds \<longrightarrow> sv_connections s' fd = sv_connections s fd)
      \<and> (\<forall>fd. fd \<notin> set fds \<longrightarrow> ep_interest (sv_epoller s') fd = ep_interest (sv_epoller s) fd)"
proof (induction fds arbitrary: s)
  case Nil
  then show ?case by simp
next
  case (Cons fd fds)
  show ?case
  proof (cases "sv_connections s fd")
    case None
    with Cons show ?thesis by fastforce
  next
    case (Some oid)
    have u0: "sv_users s oid = 0" using Cons.prems(2) by simp
    from destroy_one [OF Cons.prems(1) Some u0] obtain s1 where
        s1: "on_connection destory oid (removeConnection fd s) = Inr s1"
          "sv_connections (release oid s1) = (sv_connections s)(fd := None)"
          "sv_heap (release oid s1) = (sv_heap s)(oid := None)"
          "sv_fds (release oid s1) = sv_fds s - {fd}"
          "ep_interest (sv_epoller (release oid s1)) fd = None"
          "\<forall>fd'. fd' \<noteq> fd \<longrightarrow> ep_interest (sv_epoller (release oid s1)) fd' = ep_interest (sv_epoller s) fd'"
          "sv_users (release oid s1) = sv_users s" "server_inv others (release oid s1)"
      by (elim exE conjE)
    have "distinct fds" and n: "fd \<notin> set fds" using Cons.prems(3) by simp_all
    from Cons.IH [OF s1(8) _ this(1)] s1(7) Cons.prems(2) obtain s' where
        s': "server_dtor fds (release oid s1) = Inr s'" "\<forall>f \<in> set fds. sv_connections s' f = None"
          "\<And>f i. f \<in> set fds \<Longrightarrow> sv_connections (release oid s1) f = Some i \<Longrightarrow>
             sv_heap s' i = None \<and> f \<notin> sv_fds s' \<and> ep_interest (sv_epoller s') f = None"
          "\<And>i. sv_heap (release oid s1) i = None \<Longrightarrow> sv_heap s' i = None"
          "sv_fds s' \<subseteq> sv_fds (release oid s1)"
          "\<And>f. f \<notin> set fds \<Longrightarrow> sv_connections s' f = sv_connections (release oid s1) f"
          "\<And>f. f \<notin> set fds \<Longrightarrow> ep_interest (sv_epoller s') f = ep_interest (sv_epoller (release oid s1)) f"
      by auto
    have "server_dtor (fd # fds) s = Inr s'" using Some s1(1) s'(1) by simp
    moreover have "\<forall>f \<in> set (fd # fds). sv_connections s' f = None"
      using s'(2) s'(6) [OF n] s1(2) by simp
    moreover have "sv_heap s' i = None \<and> f \<notin> sv_fds s' \<and> ep_interest (sv_epoller s') f = None"
      if "f \<in> set (fd # fds)" "sv_connections s f = Some i" for f i
    proof (cases "f = fd")
      case True
      with that(2) Some have "i = oid" by simp
      then show ?thesis
        using True s'(4) [of oid] s'(5) s'(7) [OF n] s1(3-5) by auto
    next
      case False
      with that s1(2) s'(3) [of f i] show ?thesis by simp
    qed
    moreover have "\<forall>i. sv_heap s i = None \<longrightarrow> sv_heap s' i = None" using s'(4) s1(3) by simp
    moreover have "sv_fds s' \<subseteq> sv_fds s" using s'(5) s1(4) by auto
    moreover have "\<forall>f. f \<notin> set (fd # fds) \<longrightarrow> sv_connections s' f = sv_connections s f"
      using s'(6) s1(2) by simp
    moreover have "\<forall>f. f \<notin> set (fd # fds) \<longrightarrow> ep_interest (sv_epoller s') f = ep_interest (sv_epoller s) f"
      using s'(7) s1(6) by simp
    ultimately show ?thesis by blast
  qed
qed


end
