(* ===== verification/Event_Loop.thy ===== *)
theory Event_Loop
  imports Epoller
begin

text \<open>
  \<open>net/EventLoop.h\<close> and \<open>net/EventLoop.cpp\<close>: the loop of one thread, the queue of functors
  other threads post to it, and the eventfd that wakes it. A move is one statement that
  other threads can observe. A functor is a value of type \<open>'f\<close>; what it does (post again,
  quit) are the moves of the loop's own thread while it runs.
\<close>

section \<open>Definitions\<close>

subsection \<open>Construction\<close>

datatype loop_callback = Loop_handleRead

record loop_object =
  lo_addr :: nat
  lo_wakeupChannel :: "loop_callback channel"
  lo_poller :: epoller

text \<open>
  \<open>already\<close> is whether the thread has a loop; \<open>evfd\<close> and \<open>epfd\<close> are the descriptors the
  kernel returns, negative when it fails.
\<close>

definition loop_ctor :: "bool \<Rightarrow> nat \<Rightarrow> int \<Rightarrow> int \<Rightarrow> loop_object outcome" where
  "loop_ctor already addr epfd evfd =
     bind_ok (new_epoller epfd) (\<lambda>ep.
       if evfd < 0 then Inl Aborted
       else if already then Inl Aborted
       else (let ch = channel_setReadCallback Loop_handleRead (new_channel evfd);
                 (ch1, ep1) = enableReading addr ch ep
             in Inr \<lparr>lo_addr = addr, lo_wakeupChannel = ch1, lo_poller = ep1\<rparr>))"

definition loop_dtor :: "loop_object \<Rightarrow> loop_object" where
  "loop_dtor l =
     (let (ch, ep) = removeChannel (lo_addr l) (disableAll (lo_wakeupChannel l)) (lo_poller l)
      in l\<lparr>lo_wakeupChannel := ch, lo_poller := kernel_close (ch_fd ch) ep\<rparr>)"

subsection \<open>The eventfd\<close>

definition eventfd_max :: nat where
  "eventfd_max = 18446744073709551614"

text \<open>\<open>wakeup\<close> writes 9527; a write that would overflow the counter fails and is logged.\<close>

definition wakeup :: "nat \<Rightarrow> nat" where
  "wakeup n = (if n + 9527 \<le> eventfd_max then n + 9527 else n)"

text \<open>\<open>handleRead\<close> reads the counter, which sets it to zero; a zero counter fails.\<close>

definition loop_handleRead :: "nat \<Rightarrow> nat" where
  "loop_handleRead n = (if n = 0 then n else 0)"

subsection \<open>The loop and the threads that post to it\<close>

datatype 'f loop_pc =
    Before_Loop
  | Loop_Test
  | Polling
  | Handling
  | Before_Swap
  | Tasks "'f list"
  | Loop_Left

record 'f loop_state =
  lp_quit :: bool
  lp_functors :: "'f list"
  lp_counter :: nat
  lp_isDoingTask :: bool
  lp_pc :: "'f loop_pc"
  lp_wakers :: nat
  lp_early :: bool
  lp_posted :: "'f list"
  lp_run :: "'f list"

text \<open>
  \<open>lp_wakers\<close> counts the threads between their change and their call of \<open>wakeup\<close>;
  \<open>lp_early\<close> tells that the own thread posted before it entered \<open>loop\<close>.
\<close>

definition loop_init :: "'f loop_state" where
  "loop_init = \<lparr>lp_quit = False, lp_functors = [], lp_counter = 0, lp_isDoingTask = False,
     lp_pc = Before_Loop, lp_wakers = 0, lp_early = False, lp_posted = [], lp_run = []\<rparr>"

datatype 'f loop_action =
    Enter_Loop
  | Test_Quit
  | Poll_Returns
  | Wakeup_Event
  | Events_Done
  | Swap
  | Run_Task
  | Tasks_Done
  | Own_Post 'f
  | Own_Quit
  | Other_Post 'f
  | Other_Quit
  | Other_Wakeup

definition push_functor :: "'f \<Rightarrow> 'f loop_state \<Rightarrow> 'f loop_state" where
  "push_functor f s = s\<lparr>lp_functors := lp_functors s @ [f], lp_posted := lp_posted s @ [f]\<rparr>"

text \<open>\<open>runInLoop\<close> and \<open>quit\<close> called by the loop's own thread and by another one.\<close>

definition runInLoop_own :: "'f \<Rightarrow> 'f loop_state \<Rightarrow> 'f loop_state" where
  "runInLoop_own f s =
     (let s1 = push_functor f s
      in if lp_isDoingTask s1 then s1\<lparr>lp_counter := wakeup (lp_counter s1)\<rparr> else s1)"

definition runInLoop_other :: "'f \<Rightarrow> 'f loop_state \<Rightarrow> 'f loop_state" where
  "runInLoop_other f s = (push_functor f s)\<lparr>lp_wakers := lp_wakers s + 1\<rparr>"

definition quit_other :: "'f loop_state \<Rightarrow> 'f loop_state" where
  "quit_other s = s\<lparr>lp_quit := True, lp_wakers := lp_wakers s + 1\<rparr>"

fun own_thread :: "'f loop_pc \<Rightarrow> bool" where
  "own_thread Before_Loop = True"
| "own_thread Handling = True"
| "own_thread (Tasks fs) = True"
| "own_thread pc = False"

fun loop_do :: "'f loop_action \<Rightarrow> 'f loop_state \<Rightarrow> 'f loop_state option" where
  "loop_do Enter_Loop s = (if lp_pc s = Before_Loop then Some (s\<lparr>lp_pc := Loop_Test\<rparr>) else None)"
| "loop_do Test_Quit s =
     (if lp_pc s = Loop_Test then Some (s\<lparr>lp_pc := if lp_quit s then Loop_Left else Polling\<rparr>) else None)"
| "loop_do Poll_Returns s = (if lp_pc s = Polling then Some (s\<lparr>lp_pc := Handling\<rparr>) else None)"
| "loop_do Wakeup_Event s =
     (if lp_pc s = Handling \<and> 0 < lp_counter s
      then Some (s\<lparr>lp_counter := loop_handleRead (lp_counter s)\<rparr>) else None)"
| "loop_do Events_Done s =
     (if lp_pc s = Handling then Some (s\<lparr>lp_pc := Before_Swap, lp_isDoingTask := True\<rparr>) else None)"
| "loop_do Swap s =
     (if lp_pc s = Before_Swap
      then Some (s\<lparr>lp_functors := [], lp_pc := Tasks (lp_functors s), lp_early := False\<rparr>) else None)"
| "loop_do Run_Task s =
     (case lp_pc s of
        Tasks (f # fs) \<Rightarrow> Some (s\<lparr>lp_pc := Tasks fs, lp_run := lp_run s @ [f]\<rparr>)
      | _ \<Rightarrow> None)"
| "loop_do Tasks_Done s =
     (if lp_pc s = Tasks [] then Some (s\<lparr>lp_pc := Loop_Test, lp_isDoingTask := False\<rparr>) else None)"
| "loop_do (Own_Post f) s =
     (if own_thread (lp_pc s)
      then Some ((runInLoop_own f s)\<lparr>lp_early := lp_early s \<or> lp_pc s = Before_Loop\<rparr>) else None)"
| "loop_do Own_Quit s = (if own_thread (lp_pc s) then Some (s\<lparr>lp_quit := True\<rparr>) else None)"
| "loop_do (Other_Post f) s = Some (runInLoop_other f s)"
| "loop_do Other_Quit s = Some (quit_other s)"
| "loop_do Other_Wakeup s =
     (if 0 < lp_wakers s
      then Some (s\<lparr>lp_wakers := lp_wakers s - 1, lp_counter := wakeup (lp_counter s)\<rparr>) else None)"

definition loop_start :: "'f loop_state \<Rightarrow> bool" where
  "loop_start s \<longleftrightarrow> s = loop_init"

inductive loop_step :: "'f loop_state \<Rightarrow> 'f loop_state \<Rightarrow> bool" where
  loop_stepI: "loop_do m s = Some s' \<Longrightarrow> loop_step s s'"

inductive_cases loop_stepE: "loop_step s s'"

section \<open>Lemmas\<close>

fun in_hand :: "'f loop_pc \<Rightarrow> 'f list" where
  "in_hand (Tasks fs) = fs"
| "in_hand pc = []"

fun before_poll :: "'f loop_pc \<Rightarrow> bool" where
  "before_poll (Tasks fs) = True"
| "before_poll Loop_Test = True"
| "before_poll Polling = True"
| "before_poll Before_Loop = True"
| "before_poll pc = False"

lemma wakeup_pos [simp]: "wakeup n \<noteq> 0"
  by (auto simp: wakeup_def eventfd_max_def)

text \<open>A wake-up is on its way to the poll, or already there.\<close>

definition wake_due :: "'f loop_state \<Rightarrow> bool" where
  "wake_due s \<longleftrightarrow> 0 < lp_counter s \<or> 0 < lp_wakers s"

definition loop_inv :: "'f loop_state \<Rightarrow> bool" where
  "loop_inv s \<longleftrightarrow> lp_run s @ in_hand (lp_pc s) @ lp_functors s = lp_posted s
     \<and> (before_poll (lp_pc s) \<and> lp_functors s \<noteq> [] \<longrightarrow> wake_due s \<or> lp_early s)
     \<and> (lp_pc s = Polling \<and> lp_quit s \<longrightarrow> wake_due s)
     \<and> (lp_isDoingTask s \<longleftrightarrow> lp_pc s = Before_Swap \<or> (\<exists>fs. lp_pc s = Tasks fs))"

lemma in_hand_other: "\<forall>fs. pc \<noteq> Tasks fs \<Longrightarrow> in_hand pc = []"
  by (cases pc) auto

lemma loop_do_inv: "loop_do m s = Some s' \<Longrightarrow> loop_inv s \<Longrightarrow> loop_inv s'"
proof (induction m s rule: loop_do.induct)
  case (7 s)
  then obtain f fs where "lp_pc s = Tasks (f # fs)"
    by (auto split: loop_pc.splits list.splits)
  with 7 show ?case by (auto simp: loop_inv_def wake_due_def)
next
  case (9 f s)
  then show ?case
    by (cases "lp_pc s") (auto simp: loop_inv_def runInLoop_own_def push_functor_def wake_due_def Let_def)
next
  case (11 f s)
  then show ?case by (auto simp: loop_inv_def runInLoop_other_def push_functor_def wake_due_def)
next
  case (12 s)
  then show ?case by (auto simp: loop_inv_def quit_other_def wake_due_def)
next
  case (13 s)
  then show ?case by (auto simp: loop_inv_def wake_due_def split: if_splits)
qed (auto simp: loop_inv_def wake_due_def split: if_splits)

interpretation lps: state_invariant loop_start loop_step loop_inv
proof unfold_locales
  show "loop_inv s" if "loop_start s" for s :: "'f loop_state"
    using that by (simp add: loop_start_def loop_init_def loop_inv_def)
  show "loop_inv t" if "loop_step s t" and "loop_inv s" for s t :: "'f loop_state"
    using that by (auto elim!: loop_stepE intro: loop_do_inv)
qed

lemma loop_schedule: "schedule loop_do ms loop_init = Some s \<Longrightarrow> reach loop_start loop_step s"
  by (rule schedule_reach [where move = loop_do and ms = ms and s = loop_init])
    (auto intro: loop_stepI reach_start simp: loop_start_def)

lemma run_reach_loop:
  "reach loop_start loop_step s \<Longrightarrow> schedule loop_do ms s = Some t \<Longrightarrow> reach loop_start loop_step t"
  by (rule schedule_reach [where move = loop_do]) (auto intro: loop_stepI)

text \<open>The own thread runs what it has in hand.\<close>

lemma run_in_hand:
  "lp_pc s = Tasks fs \<Longrightarrow>
    schedule loop_do (replicate (length fs) Run_Task) s
      = Some (s\<lparr>lp_pc := Tasks [], lp_run := lp_run s @ fs\<rparr>)"
proof (induction fs arbitrary: s)
  case Nil
  then show ?case by simp
next
  case (Cons f fs)
  then show ?case by simp
qed

lemma loop_left_step:
  "loop_do m s = Some s' \<Longrightarrow> lp_pc s = Loop_Left \<Longrightarrow> lp_pc s' = Loop_Left \<and> lp_run s' = lp_run s"
  by (induction m s rule: loop_do.induct)
    (auto simp: runInLoop_other_def push_functor_def quit_other_def split: if_splits)

lemma loop_left_schedule:
  "schedule loop_do ms s = Some s' \<Longrightarrow> lp_pc s = Loop_Left \<Longrightarrow>
    lp_pc s' = Loop_Left \<and> lp_run s' = lp_run s"
proof (induction ms arbitrary: s)
  case Nil
  then show ?case by simp
next
  case (Cons m ms)
  then obtain s1 where "loop_do m s = Some s1" and "schedule loop_do ms s1 = Some s'"
    by (auto split: option.splits)
  with loop_left_step [of m s s1] Cons show ?case by simp
qed

text \<open>
  A functor the own thread posts before it enters \<open>loop\<close> can be overlooked only until the
  first swap, so before anything was run.
\<close>

definition early_inv :: "'f loop_state \<Rightarrow> bool" where
  "early_inv s \<longleftrightarrow> (lp_early s \<longrightarrow> lp_run s = [] \<and> in_hand (lp_pc s) = [])
     \<and> (lp_pc s = Before_Loop \<longrightarrow> lp_run s = [])"

lemma loop_do_early: "loop_do m s = Some s' \<Longrightarrow> early_inv s \<Longrightarrow> early_inv s'"
  by (induction m s rule: loop_do.induct)
    (auto simp: early_inv_def runInLoop_own_def runInLoop_other_def push_functor_def quit_other_def Let_def
      split: if_splits loop_pc.splits list.splits)

interpretation early: state_invariant loop_start loop_step early_inv
proof unfold_locales
  show "early_inv s" if "loop_start s" for s :: "'f loop_state"
    using that by (simp add: loop_start_def loop_init_def early_inv_def)
  show "early_inv t" if "loop_step s t" and "early_inv s" for s t :: "'f loop_state"
    using that by (auto elim!: loop_stepE intro: loop_do_early)
qed

subsection \<open>Quitting\<close>

text \<open>
  The moves that take the loop through a round, and how many of them are left once \<open>_quit\<close>
  is set: the rest of the round and the test that ends the loop.
\<close>

fun round_move :: "'f loop_action \<Rightarrow> bool" where
  "round_move Enter_Loop = True"
| "round_move Test_Quit = True"
| "round_move Poll_Returns = True"
| "round_move Events_Done = True"
| "round_move Swap = True"
| "round_move Tasks_Done = True"
| "round_move _ = False"

fun round_left :: "'f loop_pc \<Rightarrow> nat" where
  "round_left Before_Loop = 2"
| "round_left Loop_Test = 1"
| "round_left Polling = 5"
| "round_left Handling = 4"
| "round_left Before_Swap = 3"
| "round_left (Tasks fs) = 2"
| "round_left Loop_Left = 0"

text \<open>The functors a loop that quits still runs if no more are posted: its batch, or the queue when it has not swapped yet.\<close>

definition last_batch :: "'f loop_state \<Rightarrow> 'f list" where
  "last_batch s =
     (case lp_pc s of Tasks fs \<Rightarrow> fs | Polling \<Rightarrow> lp_functors s | Handling \<Rightarrow> lp_functors s
      | Before_Swap \<Rightarrow> lp_functors s | _ \<Rightarrow> [])"

lemma quit_step:
  "loop_do m s = Some s' \<Longrightarrow> lp_quit s \<Longrightarrow>
    lp_quit s' \<and> round_left (lp_pc s') + (if round_move m then 1 else 0) = round_left (lp_pc s)"
  by (induction m s rule: loop_do.induct)
    (auto simp: runInLoop_own_def runInLoop_other_def push_functor_def quit_other_def Let_def
      split: if_splits loop_pc.splits list.splits)

lemma quit_schedule:
  "schedule loop_do ms s = Some s' \<Longrightarrow> lp_quit s \<Longrightarrow>
    lp_quit s' \<and> round_left (lp_pc s') + length (filter round_move ms) = round_left (lp_pc s)"
proof (induction ms arbitrary: s)
  case Nil
  then show ?case by simp
next
  case (Cons m ms)
  then obtain s1 where "loop_do m s = Some s1" and "schedule loop_do ms s1 = Some s'"
    by (auto split: option.splits)
  with quit_step [of m s s1] Cons show ?case by fastforce
qed

text \<open>The loop's thread alone always gets out.\<close>

lemma quit_out:
  assumes "lp_quit s"
  shows "\<exists>ns u. (\<forall>m \<in> set ns. round_move m \<or> m = Run_Task) \<and> schedule loop_do ns s = Some u
    \<and> lp_pc u = Loop_Left \<and> lp_run u = lp_run s @ last_batch s"
proof -
  have tasks: "schedule loop_do (replicate (length fs) Run_Task @ [Tasks_Done, Test_Quit]) r
      = Some (r\<lparr>lp_pc := Loop_Left, lp_run := lp_run r @ fs, lp_isDoingTask := False\<rparr>)"
    if "lp_pc r = Tasks fs" "lp_quit r" for r :: "'a loop_state" and fs
    using that run_in_hand [OF that(1)] by (simp add: schedule_append)
  have moves: "\<forall>m \<in> set (ps @ replicate n Run_Task @ [Tasks_Done, Test_Quit]). round_move m \<or> m = Run_Task"
    if "\<forall>m \<in> set ps. round_move m" for ps :: "'a loop_action list" and n
    using that by auto
  have swap: ?thesis if "\<exists>r. schedule loop_do ps s = Some r \<and> lp_pc r = Tasks (last_batch s)
    \<and> lp_quit r \<and> lp_run r = lp_run s" and ps: "\<forall>m \<in> set ps. round_move m" for ps
  proof -
    from that(1) obtain r where r: "schedule loop_do ps s = Some r" "lp_pc r = Tasks (last_batch s)"
        "lp_quit r" "lp_run r = lp_run s" by blast
    show ?thesis
      using r(1,4) tasks [OF r(2,3)] moves [OF ps]
      by (intro exI [of _ "ps @ replicate (length (last_batch s)) Run_Task @ [Tasks_Done, Test_Quit]"])
        (simp add: schedule_append)
  qed
  show ?thesis
  proof (cases "lp_pc s")
    case Before_Loop
    with assms show ?thesis
      by (intro exI [of _ "[Enter_Loop, Test_Quit]"]) (simp add: last_batch_def)
  next
    case Loop_Test
    with assms show ?thesis by (intro exI [of _ "[Test_Quit]"]) (simp add: last_batch_def)
  next
    case Polling
    with assms show ?thesis
      by (intro swap [of "[Poll_Returns, Events_Done, Swap]"]) (simp_all add: last_batch_def)
  next
    case Handling
    with assms show ?thesis by (intro swap [of "[Events_Done, Swap]"]) (simp_all add: last_batch_def)
  next
    case Before_Swap
    with assms show ?thesis by (intro swap [of "[Swap]"]) (simp_all add: last_batch_def)
  next
    case (Tasks fs)
    with assms show ?thesis by (intro swap [of "[]"]) (simp_all add: last_batch_def)
  next
    case Loop_Left
    then show ?thesis by (intro exI [of _ "[]"]) (simp add: last_batch_def)
  qed
qed

section \<open>Examples\<close>

text \<open>The loop polls, another thread has posted a functor and not yet written to the eventfd.\<close>

definition posted_moves :: "nat loop_action list" where
  "posted_moves = [Enter_Loop, Test_Quit, Other_Post 5]"

definition posted_loop :: "nat loop_state" where
  "posted_loop = the (schedule loop_do posted_moves loop_init)"

text \<open>The loop was told to quit and got a functor after its last swap.\<close>

definition left_loop_moves :: "nat loop_action list" where
  "left_loop_moves = [Enter_Loop, Test_Quit, Other_Quit, Poll_Returns, Events_Done, Swap, Other_Post 6,
     Tasks_Done, Test_Quit]"

definition left_loop :: "nat loop_state" where
  "left_loop = the (schedule loop_do left_loop_moves loop_init)"

lemmas loop_eval = loop_init_def runInLoop_other_def runInLoop_own_def push_functor_def quit_other_def

lemma posted_loop_reach: "reach loop_start loop_step posted_loop"
  by (rule loop_schedule [where ms = posted_moves]) (simp add: posted_loop_def posted_moves_def loop_eval)

lemma posted_loop_state:
  "lp_pc posted_loop = Polling" "lp_functors posted_loop = [5]" "\<not> lp_early posted_loop"
  "lp_run posted_loop = []" "lp_posted posted_loop = [5]"
  by (simp_all add: posted_loop_def posted_moves_def loop_eval)

text \<open>Polling, told to quit by another thread, which then posted once more.\<close>

definition quitting_loop :: "nat loop_state" where
  "quitting_loop = runInLoop_other 6 (quit_other posted_loop)"

lemma quitting_loop:
  "loop_do Other_Quit posted_loop = Some (quit_other posted_loop)"
  "schedule loop_do [Other_Post 6] (quit_other posted_loop) = Some quitting_loop"
  by (simp_all add: quitting_loop_def)

lemma left_loop_reach: "reach loop_start loop_step left_loop"
  by (rule loop_schedule [where ms = left_loop_moves]) (simp add: left_loop_def left_loop_moves_def loop_eval)

lemma left_loop_state:
  "lp_pc left_loop = Loop_Left" "lp_functors left_loop = [6]" "lp_run left_loop = []"
  by (simp_all add: left_loop_def left_loop_moves_def loop_eval)

section \<open>Properties\<close>

text \<open>
  C18. Posted functors run once each, in the order in which \<open>runInLoop\<close> queued them, under
  every interleaving of the loop with any number of posting threads and with functors that
  post again.
\<close>

theorem loop_runs_in_order:
  assumes "reach loop_start loop_step s"
  shows "lp_run s @ (case lp_pc s of Tasks fs \<Rightarrow> fs | _ \<Rightarrow> []) @ lp_functors s = lp_posted s"
  using lps.reach_inv [OF assms] by (cases "lp_pc s") (simp_all add: loop_inv_def)

theorem loop_runs_in_order_witness: "lp_functors posted_loop = lp_posted posted_loop"
  using loop_runs_in_order [OF posted_loop_reach] by (simp add: posted_loop_state)

text \<open>
  C19. No lost wake-up: whenever the loop polls while a functor waits or \<open>quit\<close> was called, the
  eventfd is readable or the thread that posted or quit is about to write to it, with one
  exception: before its first batch of functors the loop can wait for the poll to time out
  when its own thread posted a functor before it entered \<open>loop\<close>, for which \<open>runInLoop\<close>
  writes nothing. After the first batch, and once \<open>quit\<close> was called, there is no exception.
\<close>

theorem loop_no_lost_wakeup:
  assumes "reach loop_start loop_step s" and "lp_pc s = Polling" and "lp_functors s \<noteq> [] \<or> lp_quit s"
  shows "0 < lp_counter s \<or> 0 < lp_wakers s \<or> (lp_early s \<and> \<not> lp_quit s \<and> lp_run s = [])"
  using lps.reach_inv [OF assms(1)] early.reach_inv [OF assms(1)] assms(2,3)
  by (auto simp: loop_inv_def early_inv_def wake_due_def)

theorem loop_no_lost_wakeup_witness: "0 < lp_counter posted_loop \<or> 0 < lp_wakers posted_loop"
  using loop_no_lost_wakeup [OF posted_loop_reach] by (simp add: posted_loop_state)

text \<open>The exception exists: the loop polls with a functor queued and nothing to wake it.\<close>

lemma early_post_waits:
  "\<exists>s. reach loop_start loop_step s \<and> lp_pc s = Polling \<and> lp_functors s = [f] \<and> lp_counter s = 0
    \<and> lp_wakers s = 0"
proof -
  let ?s = "loop_init\<lparr>lp_pc := Polling, lp_functors := [f], lp_posted := [f], lp_early := True\<rparr>"
  have "schedule loop_do [Own_Post f, Enter_Loop, Test_Quit] loop_init = Some ?s"
    by (simp add: loop_eval Let_def)
  then have "reach loop_start loop_step ?s" by (rule loop_schedule)
  then show ?thesis by (intro exI [of _ ?s]) (simp add: loop_init_def)
qed

text \<open>
  C20. Quitting ends the loop: after a call of \<open>quit\<close>, by the own thread or by another one, and
  whatever the threads do from then on (further posts and quits, wake-ups, functors that
  post), the loop goes through the rest of its round at most once and then leaves; it never
  polls again after a test of \<open>_quit\<close>. A poll it is in at that time is woken. Its thread is
  never stuck: from every state it gets out by its own moves alone, running first, in order,
  the batch it has or, before its last swap, what is queued.
\<close>

theorem loop_quit_leaves:
  assumes "reach loop_start loop_step s" and "q = Own_Quit \<or> q = Other_Quit" and "loop_do q s = Some s1"
    and "schedule loop_do ms s1 = Some t"
  shows "round_left (lp_pc t) + length (filter round_move ms) = round_left (lp_pc s)
    \<and> (lp_pc t = Polling \<longrightarrow> 0 < lp_counter t \<or> 0 < lp_wakers t)
    \<and> (\<exists>ns u. (\<forall>m \<in> set ns. round_move m \<or> m = Run_Task) \<and> schedule loop_do ns t = Some u
        \<and> lp_pc u = Loop_Left \<and> lp_run u = lp_run t @ last_batch t)"
proof -
  have s1: "lp_quit s1" "lp_pc s1 = lp_pc s"
    using assms(2,3) by (auto simp: quit_other_def split: if_splits)
  have "reach loop_start loop_step s1" by (rule reach_step [OF assms(1) loop_stepI [OF assms(3)]])
  then have "loop_inv t" by (intro lps.reach_inv run_reach_loop [OF _ assms(4)])
  with quit_schedule [OF assms(4) s1(1)] quit_out [of t] s1(2) show ?thesis
    by (simp add: loop_inv_def wake_due_def)
qed

theorem loop_quit_leaves_witness:
  "\<exists>ns u. schedule loop_do ns quitting_loop = Some u \<and> lp_pc u = Loop_Left \<and> lp_run u = [5, 6]"
proof -
  have "lp_pc quitting_loop = Polling" "last_batch quitting_loop = [5, 6]" "lp_run quitting_loop = []"
    by (simp_all add: quitting_loop_def last_batch_def loop_eval posted_loop_def posted_moves_def)
  with loop_quit_leaves [OF posted_loop_reach disjI2 [OF refl] quitting_loop(1,2)] show ?thesis
    by auto
qed

text \<open>
  Functors posted after the last swap of a loop that quits are never run, whatever
  happens afterwards.
\<close>

theorem loop_left_runs_nothing:
  assumes "lp_pc s = Loop_Left" and "schedule loop_do ms s = Some s'"
  shows "lp_run s' = lp_run s"
  using loop_left_schedule [OF assms(2,1)] by simp

theorem loop_left_runs_nothing_witness:
  "\<exists>s'. schedule loop_do [Other_Post 7, Other_Wakeup] left_loop = Some s' \<and> lp_run s' = []
    \<and> lp_functors left_loop = [6]"
proof -
  have "\<exists>s'. schedule loop_do [Other_Post 7, Other_Wakeup] left_loop = Some s'"
    by (simp add: runInLoop_other_def)
  then obtain s' where "schedule loop_do [Other_Post 7, Other_Wakeup] left_loop = Some s'" ..
  with loop_left_runs_nothing [OF left_loop_state(1) this] show ?thesis
    by (simp only: left_loop_state) simp
qed

text \<open>
  Construction and destruction: a loop that is constructed has the kernel watch its
  eventfd for reading, with the wake-up channel's address; a second loop in a thread, or a
  descriptor the kernel refuses, aborts; and the destructor takes the entry out again.
\<close>

theorem loop_ctor_watches:
  "loop_ctor already addr epfd evfd =
     (if epfd < 0 \<or> evfd < 0 \<or> already then Inl Aborted else loop_ctor False addr 0 evfd)
    \<and> (\<forall>l. loop_ctor already addr epfd evfd = Inr l \<longrightarrow>
        ep_interest (lo_poller l) evfd = Some (READ, addr)
        \<and> ep_interest (lo_poller (loop_dtor l)) = (\<lambda>_. None))"
proof -
  have "ep_interest (lo_poller l) evfd = Some (READ, addr)
      \<and> ep_interest (lo_poller (loop_dtor l)) = (\<lambda>_. None)"
    if "loop_ctor already addr epfd evfd = Inr l" for l
    using that
    by (auto simp: loop_ctor_def new_epoller_def epoll_eval loop_dtor_def kernel_close_def Let_def
        fun_eq_iff split: if_splits)
  moreover have "loop_ctor already addr epfd evfd =
     (if epfd < 0 \<or> evfd < 0 \<or> already then Inl Aborted else loop_ctor False addr 0 evfd)"
    by (simp add: loop_ctor_def new_epoller_def)
  ultimately show ?thesis by blast
qed

theorem loop_ctor_watches_witness:
  "ep_interest (lo_poller (projr (loop_ctor False 3 4 5))) 5 = Some (READ, 3)"
proof -
  have "loop_ctor False 3 4 5 = Inr (projr (loop_ctor False 3 4 5))"
    by (simp add: loop_ctor_def new_epoller_def Let_def split: prod.split)
  with loop_ctor_watches [of False 3 4 5] show ?thesis by blast
qed

end
