(* ===== verification/Server_Threads.thy ===== *)
theory Server_Threads
  imports Server_Events Event_Loop
begin

text \<open>
  \<open>net/TcpServer.cpp\<close> with extra threads (\<open>threadNum > 0\<close>). The base loop's thread accepts and
  runs \<open>newConnection\<close>; every connection belongs to one of the loops of the pool, whose thread
  polls it and runs its callbacks. The threads share the map of connections and the connection
  being established without a lock, so a move is one statement of one thread, and an access to
  the map has a beginning and an end. Left out are what users do in callbacks and \<open>quit\<close>.
\<close>

section \<open>Definitions\<close>

subsection \<open>State\<close>

text \<open>
  The base thread in \<open>newConnection\<close>: in the assignment to the map, with the object it has
  constructed for a loop and no other thread can reach; before the first, second and third
  statement of \<open>established\<close>; and before the local shared pointer goes.
\<close>

datatype base_pc =
    Base_Out
  | Inserting nat tcp_conn nat
  | Enabling nat
  | Enabled nat
  | Stated nat
  | Leaving nat

text \<open>The four tests of \<open>handleEvent\<close>, and the statements of \<open>handleClose\<close>, the last one begun.\<close>

datatype event_test = Test_Close | Test_Error | Test_Read | Test_Write

datatype close_pc = Close_Disable | Close_State | Close_Call | Close_Erase | Erasing

text \<open>
  The thread of a loop: in \<open>epoll_wait\<close>, before the next active channel, before a test of the
  event of one, and in its \<open>handleClose\<close>, with the tests and the channels that follow.
\<close>

datatype io_pc =
    Io_Polling
  | Io_Active "nat list"
  | Io_Event nat "event_test list" "nat list"
  | Io_Closing close_pc nat "event_test list" "nat list"

record threaded =
  mt_connections :: "int \<Rightarrow> nat option"
  mt_heap :: "nat \<Rightarrow> tcp_conn option"
  mt_loop :: "nat \<Rightarrow> nat"
  mt_pollers :: "nat \<Rightarrow> epoller"
  mt_wake :: "nat \<Rightarrow> int"
  mt_pool :: loop_pool
  mt_fds :: "int set"
  mt_has_message :: bool
  mt_has_writeComplete :: bool
  mt_base :: base_pc
  mt_io :: "nat \<Rightarrow> io_pc"
  mt_wire :: "nat \<Rightarrow> byte list"
  mt_made :: "(nat \<times> nat) list"
  mt_log :: "(nat \<times> nat \<times> tcp_event) list"

text \<open>
  \<open>mt_loop\<close> is the loop of a connection, \<open>mt_wake\<close> the eventfd of a loop; \<open>mt_made\<close> and \<open>mt_log\<close>
  record the connections made, with the loops chosen for them, and the callbacks, with the
  thread that ran them.
\<close>

abbreviation io_loops :: "threaded \<Rightarrow> nat set" where
  "io_loops s \<equiv> set (el_loops (mt_pool s))"

subsection \<open>Operations\<close>

text \<open>Thread \<open>t\<close> runs an operation of connection \<open>oid\<close>, whose channel updates its own loop's poller.\<close>

definition mt_on ::
  "nat \<Rightarrow> (tcp_world \<Rightarrow> ('a \<times> tcp_world) outcome) \<Rightarrow> nat \<Rightarrow> threaded \<Rightarrow> ('a \<times> threaded) outcome" where
  "mt_on t f oid s =
     (case mt_heap s oid of
        None \<Rightarrow> Inl Use_After_Free
      | Some c \<Rightarrow>
          bind_ok (f \<lparr>tw_conn = c, tw_epoller = mt_pollers s (mt_loop s oid), tw_wire = mt_wire s oid,
                      tw_trace = []\<rparr>) (\<lambda>(x, w).
            Inr (x, s\<lparr>mt_heap := (mt_heap s)(oid := Some (tw_conn w)),
                      mt_pollers := (mt_pollers s)(mt_loop s oid := tw_epoller w),
                      mt_wire := (mt_wire s)(oid := tw_wire w),
                      mt_log := mt_log s @ map (\<lambda>e. (t, oid, e)) (tw_trace w)\<rparr>)))"

definition mt_run :: "nat \<Rightarrow> (tcp_world \<Rightarrow> tcp_world outcome) \<Rightarrow> nat \<Rightarrow> threaded \<Rightarrow> threaded outcome" where
  "mt_run t f oid s =
     bind_ok (mt_on t (\<lambda>w. bind_ok (f w) (\<lambda>w1. Inr ((), w1))) oid s) (\<lambda>(x, s1). Inr s1)"

text \<open>The owners of a connection: the map, the base thread's local, the argument of a close callback.\<close>

fun base_holds :: "base_pc \<Rightarrow> nat \<Rightarrow> bool" where
  "base_holds (Enabling oid) i \<longleftrightarrow> i = oid"
| "base_holds (Enabled oid) i \<longleftrightarrow> i = oid"
| "base_holds (Stated oid) i \<longleftrightarrow> i = oid"
| "base_holds (Leaving oid) i \<longleftrightarrow> i = oid"
| "base_holds pc i \<longleftrightarrow> False"

fun erases :: "io_pc \<Rightarrow> nat \<Rightarrow> bool" where
  "erases (Io_Closing Erasing p ts ps) i \<longleftrightarrow> i = p"
| "erases pc i \<longleftrightarrow> False"

definition mt_owned :: "nat \<Rightarrow> threaded \<Rightarrow> bool" where
  "mt_owned oid s \<longleftrightarrow> base_holds (mt_base s) oid \<or> (\<exists>k \<in> io_loops s. erases (mt_io s k) oid)
     \<or> (case mt_heap s oid of None \<Rightarrow> False | Some c \<Rightarrow> mt_connections s (conn_fd c) = Some oid)"

definition mt_release :: "nat \<Rightarrow> threaded \<Rightarrow> threaded" where
  "mt_release oid s =
     (case mt_heap s oid of
        None \<Rightarrow> s
      | Some c \<Rightarrow>
          if mt_owned oid s then s
          else s\<lparr>mt_heap := (mt_heap s)(oid := None), mt_fds := mt_fds s - {conn_fd c},
                 mt_pollers := (mt_pollers s)
                   (mt_loop s oid := kernel_close (conn_fd c) (mt_pollers s (mt_loop s oid)))\<rparr>)"

subsection \<open>The base thread\<close>

text \<open>\<open>newConnection\<close> up to the map, and its further statements, one at a time.\<close>

definition base_accepts ::
  "nat \<Rightarrow> int \<Rightarrow> sockaddr_in option \<Rightarrow> int \<Rightarrow> sockaddr_in \<Rightarrow> threaded \<Rightarrow> threaded outcome" where
  "base_accepts oid uninit localr fd clientAddr s =
     bind_ok (getNextLoop (mt_pool s)) (\<lambda>(loop, pool).
       Inr (s\<lparr>mt_pool := pool, mt_fds := insert fd (mt_fds s), mt_made := mt_made s @ [(oid, loop)],
              mt_base := Inserting oid
                (tcp_ctor oid fd (addr_of_sockaddr (getLocalAddr localr)) clientAddr uninit) loop\<rparr>))"

fun base_step :: "base_pc \<Rightarrow> threaded \<Rightarrow> threaded outcome" where
  "base_step Base_Out s = Inr s"
| "base_step (Inserting oid conn loop) s =
     Inr (s\<lparr>mt_connections := (mt_connections s)(conn_fd conn := Some oid),
            mt_heap := (mt_heap s)(oid := Some
              (conn_setCloseCallback True
                (conn_setWriteCompleteCallback (mt_has_writeComplete s)
                  (conn_setMessageCallback (mt_has_message s)
                    (conn_setConnectionCallback True conn))))),
            mt_loop := (mt_loop s)(oid := loop), mt_wire := (mt_wire s)(oid := []),
            mt_base := Enabling oid\<rparr>)"
| "base_step (Enabling oid) s =
     bind_ok (mt_run (el_baseLoop (mt_pool s)) (\<lambda>w. Inr (on_channel enableReading w)) oid s) (\<lambda>s1.
       Inr (s1\<lparr>mt_base := Enabled oid\<rparr>))"
| "base_step (Enabled oid) s =
     bind_ok (mt_run (el_baseLoop (mt_pool s)) (\<lambda>w. Inr (on_conn (\<lambda>c. c\<lparr>c_state := CONNECTED\<rparr>) w)) oid s)
       (\<lambda>s1. Inr (s1\<lparr>mt_base := Stated oid\<rparr>))"
| "base_step (Stated oid) s =
     bind_ok (mt_run (el_baseLoop (mt_pool s))
       (\<lambda>w. fire (c_has_connection (tw_conn w)) (Ev_Connection CONNECTED) w) oid s) (\<lambda>s1.
       Inr (s1\<lparr>mt_base := Leaving oid\<rparr>))"
| "base_step (Leaving oid) s = Inr (mt_release oid (s\<lparr>mt_base := Base_Out\<rparr>))"

subsection \<open>The thread of a loop\<close>

text \<open>\<open>setREvents\<close> through the pointer the kernel returned; the loop's own channel is that of its eventfd.\<close>

definition mt_mark :: "nat \<Rightarrow> nat \<Rightarrow> events \<Rightarrow> threaded \<Rightarrow> threaded outcome" where
  "mt_mark k p e s =
     (if p = k then Inr s
      else case mt_heap s p of
        None \<Rightarrow> Inl Use_After_Free
      | Some c \<Rightarrow> Inr (s\<lparr>mt_heap := (mt_heap s)(p := Some (c\<lparr>c_channel := setREvents e (c_channel c)\<rparr>))\<rparr>))"

fun test_holds :: "event_test \<Rightarrow> events \<Rightarrow> bool" where
  "test_holds Test_Close r = close_test r"
| "test_holds Test_Error r = error_test r"
| "test_holds Test_Read r = read_test r"
| "test_holds Test_Write r = write_test r"

fun test_callback :: "event_test \<Rightarrow> 'c channel \<Rightarrow> 'c option" where
  "test_callback Test_Close ch = ch_closeCallback ch"
| "test_callback Test_Error ch = ch_errorCallback ch"
| "test_callback Test_Read ch = ch_readCallback ch"
| "test_callback Test_Write ch = ch_writeCallback ch"

text \<open>After a test, or its callback: the next test, or the next channel.\<close>

definition after_test :: "nat \<Rightarrow> event_test list \<Rightarrow> nat list \<Rightarrow> io_pc" where
  "after_test p ts ps = (if ts = [] then Io_Active ps else Io_Event p ts ps)"

text \<open>\<open>handleRead\<close>; the flag tells that it goes on with \<open>handleClose\<close>.\<close>

definition read_event :: "(int \<Rightarrow> read_result) \<Rightarrow> tcp_world \<Rightarrow> (bool \<times> tcp_world) outcome" where
  "read_event kernel_readv w =
     bind_ok (readFromFd kernel_readv (c_inputBuffer (tw_conn w))) (\<lambda>(n, err, b).
       let w1 = on_conn (\<lambda>c. c\<lparr>c_inputBuffer := b\<rparr>) w
       in if n > 0 then
            bind_ok (readable_bytes b) (\<lambda>bs.
            bind_ok (fire (c_has_message (tw_conn w1)) (Ev_Message bs) w1) (\<lambda>w2. Inr (False, w2)))
          else Inr (n = 0, w1))"

definition io_at :: "nat \<Rightarrow> io_pc \<Rightarrow> threaded \<Rightarrow> threaded" where
  "io_at k pc s = s\<lparr>mt_io := (mt_io s)(k := pc)\<rparr>"

fun io_callback ::
  "nat \<Rightarrow> (int \<Rightarrow> read_result) \<Rightarrow> write_result \<Rightarrow> conn_callback \<Rightarrow> nat \<Rightarrow> event_test list \<Rightarrow> nat list
    \<Rightarrow> threaded \<Rightarrow> threaded outcome" where
  "io_callback k kr wr Conn_handleRead p ts ps s =
     bind_ok (mt_on k (read_event kr) p s) (\<lambda>(closes, s1).
       Inr (io_at k (if closes then Io_Closing Close_Disable p ts ps else after_test p ts ps) s1))"
| "io_callback k kr wr Conn_handleWrite p ts ps s =
     bind_ok (mt_run k (conn_handleWrite wr) p s) (\<lambda>s1. Inr (io_at k (after_test p ts ps) s1))"
| "io_callback k kr wr Conn_handleClose p ts ps s = Inr (io_at k (Io_Closing Close_Disable p ts ps) s)"

text \<open>
  The statements of \<open>handleClose\<close>. The last calls the close callback, \<open>removeConnection\<close>, with
  a temporary shared pointer, which goes when the entry is erased.
\<close>

fun close_step ::
  "nat \<Rightarrow> close_pc \<Rightarrow> nat \<Rightarrow> event_test list \<Rightarrow> nat list \<Rightarrow> threaded \<Rightarrow> threaded outcome" where
  "close_step k Close_Disable p ts ps s =
     bind_ok (mt_run k (\<lambda>w. Inr (on_conn (\<lambda>c. c\<lparr>c_channel := disableAll (c_channel c)\<rparr>) w)) p s) (\<lambda>s1.
       Inr (io_at k (Io_Closing Close_State p ts ps) s1))"
| "close_step k Close_State p ts ps s =
     bind_ok (mt_run k (\<lambda>w. Inr (on_conn (\<lambda>c. c\<lparr>c_state := DISCONNECTED\<rparr>) w)) p s) (\<lambda>s1.
       Inr (io_at k (Io_Closing Close_Call p ts ps) s1))"
| "close_step k Close_Call p ts ps s =
     bind_ok (mt_run k (\<lambda>w. fire (c_has_connection (tw_conn w)) (Ev_Connection DISCONNECTED) w) p s) (\<lambda>s1.
       Inr (io_at k (Io_Closing Close_Erase p ts ps) s1))"
| "close_step k Close_Erase p ts ps s =
     bind_ok (mt_run k (\<lambda>w. fire (c_has_close (tw_conn w)) Ev_Close w) p s) (\<lambda>s1.
       Inr (io_at k (Io_Closing Erasing p ts ps) s1))"
| "close_step k Erasing p ts ps s =
     (case mt_heap s p of
        None \<Rightarrow> Inl Use_After_Free
      | Some c \<Rightarrow>
          Inr (mt_release p (io_at k (after_test p ts ps)
            (s\<lparr>mt_connections := (mt_connections s)(conn_fd c := None)\<rparr>))))"

fun io_step ::
  "nat \<Rightarrow> (int \<Rightarrow> read_result) \<Rightarrow> write_result \<Rightarrow> io_pc \<Rightarrow> threaded \<Rightarrow> threaded outcome" where
  "io_step k kr wr Io_Polling s = Inr s"
| "io_step k kr wr (Io_Active []) s = Inr (io_at k Io_Polling s)"
| "io_step k kr wr (Io_Active (p # ps)) s =
     Inr (io_at k (if p = k then Io_Active ps
                   else Io_Event p [Test_Close, Test_Error, Test_Read, Test_Write] ps) s)"
| "io_step k kr wr (Io_Event p [] ps) s = Inr (io_at k (Io_Active ps) s)"
| "io_step k kr wr (Io_Event p (t # ts) ps) s =
     (case mt_heap s p of
        None \<Rightarrow> Inl Use_After_Free
      | Some c \<Rightarrow>
          if test_holds t (ch_revents (c_channel c))
          then (case test_callback t (c_channel c) of
                  None \<Rightarrow> Inr (io_at k (after_test p ts ps) s)
                | Some cb \<Rightarrow> io_callback k kr wr cb p ts ps s)
          else Inr (io_at k (after_test p ts ps) s))"
| "io_step k kr wr (Io_Closing pc p ts ps) s = close_step k pc p ts ps s"

subsection \<open>Steps\<close>

fun io_subject :: "io_pc \<Rightarrow> nat option" where
  "io_subject (Io_Event p ts ps) = Some p"
| "io_subject (Io_Closing pc p ts ps) = Some p"
| "io_subject pc = None"

text \<open>The answer to a read fits the input buffer; a new descriptor and a new address are not in use.\<close>

definition read_fits :: "(int \<Rightarrow> read_result) \<Rightarrow> io_pc \<Rightarrow> threaded \<Rightarrow> bool" where
  "read_fits kr pc s \<longleftrightarrow> (case io_subject pc of None \<Rightarrow> True
     | Some p \<Rightarrow> (case mt_heap s p of None \<Rightarrow> True | Some c \<Rightarrow> reads_ok kr (c_inputBuffer c)))"

definition fresh :: "nat \<Rightarrow> int \<Rightarrow> threaded \<Rightarrow> bool" where
  "fresh oid fd s \<longleftrightarrow> mt_heap s oid = None \<and> oid \<notin> io_loops s \<and> fd \<notin> mt_fds s
     \<and> (\<forall>k \<in> io_loops s. fd \<noteq> mt_wake s k)"

datatype mt_move =
    Base_Accepts nat int "sockaddr_in option" int sockaddr_in
  | Base_Steps
  | Io_Polls nat wait_result
  | Io_Steps nat "int \<Rightarrow> read_result" write_result

fun mt_reports :: "nat \<Rightarrow> wait_result \<Rightarrow> threaded \<Rightarrow> bool" where
  "mt_reports k (Wait_Error err) s = True"
| "mt_reports k (Wait_Ready es) s =
     (\<forall>(p, e) \<in> set es. \<exists>fd x. ep_interest (mt_pollers s k) fd = Some (x, p))"

fun mt_do :: "mt_move \<Rightarrow> threaded \<Rightarrow> threaded outcome option" where
  "mt_do (Base_Accepts oid uninit localr fd peer) s =
     (if mt_base s = Base_Out \<and> fresh oid fd s
      then Some (base_accepts oid uninit localr fd peer s) else None)"
| "mt_do Base_Steps s = (if mt_base s \<noteq> Base_Out then Some (base_step (mt_base s) s) else None)"
| "mt_do (Io_Polls k w) s =
     (if k \<in> io_loops s \<and> mt_io s k = Io_Polling \<and> mt_reports k w s
      then Some (bind_ok (poll (mt_mark k) w s (mt_pollers s k)) (\<lambda>(ps, s1, ep).
        Inr (io_at k (Io_Active ps) (s1\<lparr>mt_pollers := (mt_pollers s1)(k := ep)\<rparr>))))
      else None)"
| "mt_do (Io_Steps k kr wr) s =
     (if k \<in> io_loops s \<and> mt_io s k \<noteq> Io_Polling \<and> read_fits kr (mt_io s k) s
      then Some (io_step k kr wr (mt_io s k) s) else None)"

inductive mt_step :: "threaded \<Rightarrow> threaded \<Rightarrow> bool" where
  mt_stepI: "mt_do m s = Some (Inr s') \<Longrightarrow> mt_step s s'"

inductive_cases mt_stepE: "mt_step s s'"

text \<open>A server with its pool started, the loops at addresses of their own, each as its constructor leaves it, and no connection yet.\<close>

definition mt_start :: "threaded \<Rightarrow> bool" where
  "mt_start s \<longleftrightarrow> (\<exists>base num made has_cb. 0 < num
       \<and> fst (loop_pool_start made has_cb (loop_pool_ctor base num)) = mt_pool s)
     \<and> distinct (el_baseLoop (mt_pool s) # el_loops (mt_pool s))
     \<and> (\<forall>k \<in> io_loops s. \<exists>epfd l. loop_ctor False k epfd (mt_wake s k) = Inr l \<and> mt_pollers s k = lo_poller l)
     \<and> mt_connections s = (\<lambda>_. None) \<and> mt_heap s = (\<lambda>_. None) \<and> mt_fds s = {} \<and> mt_has_message s
     \<and> mt_base s = Base_Out \<and> mt_io s = (\<lambda>_. Io_Polling) \<and> mt_made s = [] \<and> mt_log s = []"

section \<open>Lemmas\<close>

subsection \<open>The invariant\<close>

text \<open>
  What the poller of a loop watches besides connections, and the server a loop sees: its own
  connections and its own poller, which satisfy the invariant of the server with one loop.
\<close>

definition watch :: "threaded \<Rightarrow> nat \<Rightarrow> watched" where
  "watch s k = (\<lambda>fd. if fd = mt_wake s k then Some (READ, k) else None)"

definition fd_of :: "threaded \<Rightarrow> nat \<Rightarrow> int option" where
  "fd_of s i = map_option conn_fd (mt_heap s i)"

definition view :: "nat \<Rightarrow> threaded \<Rightarrow> server" where
  "view k s = \<lparr>sv_connections = (\<lambda>fd. case mt_connections s fd of
       None \<Rightarrow> None | Some i \<Rightarrow> if mt_loop s i = k then Some i else None),
     sv_heap = (\<lambda>i. if mt_loop s i = k then mt_heap s i else None), sv_users = (\<lambda>_. 0),
     sv_epoller = mt_pollers s k, sv_fds = mt_fds s, sv_pool = loop_pool_ctor k 0,
     sv_default_connection = True, sv_has_message = mt_has_message s,
     sv_has_writeComplete = mt_has_writeComplete s, sv_has_poolInit = False,
     sv_wire = (\<lambda>_. []), sv_log = []\<rparr>"

text \<open>
  Every living connection has an owner: the base thread, a thread that erases it, or the map;
  and what a thread holds lives. \<open>X\<close> are the connections about to be released.
\<close>

definition erased_by :: "threaded \<Rightarrow> nat set" where
  "erased_by s = {i. \<exists>k \<in> io_loops s. erases (mt_io s k) i}"

definition held :: "nat set \<Rightarrow> threaded \<Rightarrow> bool" where
  "held X s \<longleftrightarrow> (\<forall>i. base_holds (mt_base s) i \<longrightarrow> fd_of s i \<noteq> None)
     \<and> (\<forall>i \<in> erased_by s. fd_of s i \<noteq> None)
     \<and> (\<forall>i fd. fd_of s i = Some fd \<longrightarrow> i \<notin> X \<longrightarrow>
          base_holds (mt_base s) i \<or> i \<in> erased_by s \<or> mt_connections s fd = Some i)"

definition inserting_ok :: "threaded \<Rightarrow> bool" where
  "inserting_ok s \<longleftrightarrow> (case mt_base s of
     Inserting oid c l \<Rightarrow> mt_heap s oid = None \<and> oid \<notin> io_loops s \<and> l \<in> io_loops s
       \<and> (\<exists>fd la pa u. c = tcp_ctor oid fd la pa u) \<and> conn_fd c \<in> mt_fds s
       \<and> (\<forall>i. fd_of s i \<noteq> Some (conn_fd c)) \<and> (\<forall>k \<in> io_loops s. conn_fd c \<noteq> mt_wake s k)
   | _ \<Rightarrow> True)"

definition mt_good :: "nat set \<Rightarrow> threaded \<Rightarrow> bool" where
  "mt_good X s \<longleftrightarrow> el_loops (mt_pool s) \<noteq> [] \<and> el_currentIndex (mt_pool s) < length (el_loops (mt_pool s))
     \<and> (\<forall>k \<in> io_loops s. server_inv (watch s k) (view k s))
     \<and> (\<forall>i fd. fd_of s i = Some fd \<longrightarrow> mt_loop s i \<in> io_loops s)
     \<and> (\<forall>i j fd. fd_of s i = Some fd \<longrightarrow> fd_of s j = Some fd \<longrightarrow> i = j)
     \<and> (\<forall>fd i. mt_connections s fd = Some i \<longrightarrow> fd_of s i = Some fd)
     \<and> mt_has_message s \<and> held X s \<and> inserting_ok s"

definition mt_inv :: "threaded \<Rightarrow> bool" where
  "mt_inv s \<longleftrightarrow> mt_good {} s"

lemma mt_goodD:
  assumes "mt_good X s"
  shows "el_loops (mt_pool s) \<noteq> []" and "el_currentIndex (mt_pool s) < length (el_loops (mt_pool s))"
    and "k \<in> io_loops s \<Longrightarrow> server_inv (watch s k) (view k s)"
    and "fd_of s i = Some fd \<Longrightarrow> mt_loop s i \<in> io_loops s"
    and "fd_of s i = Some fd \<Longrightarrow> fd_of s j = Some fd \<Longrightarrow> i = j"
    and "mt_connections s fd = Some i \<Longrightarrow> fd_of s i = Some fd"
    and "mt_has_message s" and "held X s" and "inserting_ok s"
  using assms unfolding mt_good_def by blast+

lemma fd_of_heap: "mt_heap s i = Some c \<Longrightarrow> fd_of s i = Some (conn_fd c)"
  by (simp add: fd_of_def)

lemma fd_of_None [simp]: "fd_of s i = None \<longleftrightarrow> mt_heap s i = None"
  by (simp add: fd_of_def)

lemma addresses_watch: "addresses (watch s k) = {k}"
  by (auto simp: addresses_def watch_def)

lemma mt_owned_iff:
  "mt_owned oid s \<longleftrightarrow> base_holds (mt_base s) oid \<or> oid \<in> erased_by s
    \<or> (\<exists>fd. fd_of s oid = Some fd \<and> mt_connections s fd = Some oid)"
  by (auto simp: mt_owned_def erased_by_def fd_of_def split: option.split)

text \<open>What the invariant of one loop depends on.\<close>

lemma server_inv_cong:
  assumes "server_inv others s" and "sv_connections s' = sv_connections s" and "sv_heap s' = sv_heap s"
    and "sv_fds s' = sv_fds s" and "ep_interest (sv_epoller s') = ep_interest (sv_epoller s)"
    and "ep_deny (sv_epoller s') = ep_deny (sv_epoller s)" and "sv_has_message s' = sv_has_message s"
    and "el_loops (sv_pool s') = []"
  shows "server_inv others s'"
  using assms by (simp add: server_inv_def)

text \<open>A step that changes none of the shared facts.\<close>

definition same_shape :: "threaded \<Rightarrow> threaded \<Rightarrow> bool" where
  "same_shape s' s \<longleftrightarrow> fd_of s' = fd_of s \<and> mt_connections s' = mt_connections s \<and> mt_loop s' = mt_loop s
     \<and> mt_pool s' = mt_pool s \<and> mt_wake s' = mt_wake s \<and> mt_fds s' = mt_fds s
     \<and> mt_has_message s' = mt_has_message s"

lemma mt_good_shape:
  assumes "mt_good X s" and "same_shape s' s"
    and "\<And>k. k \<in> io_loops s \<Longrightarrow> server_inv (watch s k) (view k s')"
    and "held Y s'" and "inserting_ok s'"
  shows "mt_good Y s'"
proof -
  have "watch s' = watch s" using assms(2) by (simp add: same_shape_def watch_def fun_eq_iff)
  with assms show ?thesis by (simp add: mt_good_def same_shape_def)
qed

lemma held_shape:
  assumes "held X s" and "same_shape s' s"
    and "\<And>i. base_holds (mt_base s') i = base_holds (mt_base s) i" and "erased_by s' = erased_by s"
  shows "held X s'"
  using assms by (simp add: held_def same_shape_def)

lemma heap_None_shape: "same_shape s' s \<Longrightarrow> mt_heap s' i = None \<longleftrightarrow> mt_heap s i = None"
  unfolding same_shape_def by (metis fd_of_None)

lemma inserting_cong:
  assumes "inserting_ok s" and "mt_base s' = mt_base s" and "fd_of s' = fd_of s" and "mt_pool s' = mt_pool s"
    and "mt_fds s' = mt_fds s" and "mt_wake s' = mt_wake s"
  shows "inserting_ok s'"
proof -
  have "mt_heap s' i = None \<longleftrightarrow> mt_heap s i = None" for i using assms(3) by (metis fd_of_None)
  with assms show ?thesis by (cases "mt_base s") (auto simp: inserting_ok_def)
qed

lemma inserting_shape:
  assumes "inserting_ok s" and "same_shape s' s" and "mt_base s' = mt_base s"
  shows "inserting_ok s'"
  using assms(2) by (intro inserting_cong [OF assms(1,3)]) (simp_all add: same_shape_def)

subsection \<open>Operations of a connection\<close>

lemma mt_onE:
  assumes "mt_on t f oid s = Inr (x, s')"
  obtains c w where "mt_heap s oid = Some c"
    and "f \<lparr>tw_conn = c, tw_epoller = mt_pollers s (mt_loop s oid), tw_wire = mt_wire s oid, tw_trace = []\<rparr> = Inr (x, w)"
    and "s' = s\<lparr>mt_heap := (mt_heap s)(oid := Some (tw_conn w)),
      mt_pollers := (mt_pollers s)(mt_loop s oid := tw_epoller w), mt_wire := (mt_wire s)(oid := tw_wire w),
      mt_log := mt_log s @ map (\<lambda>e. (t, oid, e)) (tw_trace w)\<rparr>"
  using assms by (auto simp: mt_on_def bind_ok_Inr_iff split: option.splits)

lemma view_update:
  assumes "mt_heap s oid = Some c"
  shows "view (mt_loop s oid) (s\<lparr>mt_heap := (mt_heap s)(oid := Some c'),
      mt_pollers := (mt_pollers s)(mt_loop s oid := ep), mt_wire := wi, mt_log := l\<rparr>) =
    (view (mt_loop s oid) s)\<lparr>sv_heap := (sv_heap (view (mt_loop s oid) s))(oid := Some c'), sv_epoller := ep,
      sv_wire := \<lambda>_. [], sv_log := []\<rparr>"
    and "k \<noteq> mt_loop s oid \<Longrightarrow> view k (s\<lparr>mt_heap := (mt_heap s)(oid := Some c'),
      mt_pollers := (mt_pollers s)(mt_loop s oid := ep), mt_wire := wi, mt_log := l\<rparr>) = view k s"
  by (auto simp: view_def fun_eq_iff split: option.split)

lemma server_conn_framed': "framed t t' \<Longrightarrow> server_conn oid (tw_conn t) \<Longrightarrow> server_conn oid (tw_conn t')"
  by (rule server_conn_framed)

lemma mt_on_inv:
  assumes "mt_on t f oid s = Inr (x, s')" and "mt_inv s"
    and "\<And>c w w'. mt_heap s oid = Some c \<Longrightarrow> tw_conn w = c \<Longrightarrow> f w = Inr (x, w') \<Longrightarrow> framed w w'"
  shows "mt_inv s' \<and> same_shape s' s \<and> mt_base s' = mt_base s \<and> mt_io s' = mt_io s"
proof -
  from assms(1) obtain c w where c: "mt_heap s oid = Some c"
    and w: "f \<lparr>tw_conn = c, tw_epoller = mt_pollers s (mt_loop s oid), tw_wire = mt_wire s oid, tw_trace = []\<rparr> = Inr (x, w)"
    and s': "s' = s\<lparr>mt_heap := (mt_heap s)(oid := Some (tw_conn w)),
      mt_pollers := (mt_pollers s)(mt_loop s oid := tw_epoller w), mt_wire := (mt_wire s)(oid := tw_wire w),
      mt_log := mt_log s @ map (\<lambda>e. (t, oid, e)) (tw_trace w)\<rparr>"
    by (rule mt_onE)
  note d = mt_goodD [OF assms(2) [unfolded mt_inv_def]]
  let ?W = "\<lparr>tw_conn = c, tw_epoller = mt_pollers s (mt_loop s oid), tw_wire = mt_wire s oid, tw_trace = []\<rparr>"
  have fr: "framed ?W w" by (rule assms(3) [OF c _ w]) simp
  have fd: "conn_fd (tw_conn w) = conn_fd c" using fr by (simp add: framed_def)
  have shape: "same_shape s' s"
    using c fd by (auto simp: s' same_shape_def fd_of_def fun_eq_iff)
  have io: "mt_base s' = mt_base s" "mt_io s' = mt_io s" by (simp_all add: s')
  let ?k = "mt_loop s oid"
  have k: "?k \<in> io_loops s" using d(4) [OF fd_of_heap [OF c]] .
  have v: "sv_heap (view ?k s) oid = Some c" "sv_epoller (view ?k s) = mt_pollers s ?k"
    using c by (simp_all add: view_def)
  note dk = server_invD [OF d(3) [OF k]]
  have sc: "server_conn oid c" using dk(3) [OF v(1)] .
  have "server_inv (watch s ?k) (view ?k s')"
    unfolding s' view_update(1) [OF c]
  proof (rule server_inv_update [OF d(3) [OF k] v(1) fd])
    show "server_conn oid (tw_conn w)" using server_conn_framed [OF fr, of oid] sc by simp
    show "ep_interest (tw_epoller w) f = ep_interest (sv_epoller (view ?k s)) f" if "f \<noteq> conn_fd c" for f
      using fr that v(2) by (simp add: framed_def)
    show "p = oid \<or> (\<exists>e'. ep_interest (sv_epoller (view ?k s)) (conn_fd c) = Some (e', p))"
      if "ep_interest (tw_epoller w) (conn_fd c) = Some (e, p)" for e p
      using fr that sc v(2) by (simp add: framed_def server_conn_def)
    show "\<not> ep_deny (tw_epoller w)" using fr dk(8) v(2) by (simp add: framed_def)
  qed
  then have views: "server_inv (watch s j) (view j s')" if "j \<in> io_loops s" for j
    using that d(3) view_update(2) [OF c] by (cases "j = ?k") (auto simp: s')
  have "mt_good {} s'"
  proof (rule mt_good_shape [OF assms(2) [unfolded mt_inv_def] shape views])
    show "held {} s'"
      by (rule held_shape [OF d(8) shape]) (simp_all add: s' erased_by_def)
    show "inserting_ok s'" by (rule inserting_shape [OF d(9) shape io(1)])
  qed
  with shape io show ?thesis by (simp add: mt_inv_def)
qed

lemma mt_run_inv:
  assumes "mt_run t f oid s = Inr s'" and "mt_inv s"
    and "\<And>c w w'. mt_heap s oid = Some c \<Longrightarrow> tw_conn w = c \<Longrightarrow> f w = Inr w' \<Longrightarrow> framed w w'"
  shows "mt_inv s' \<and> same_shape s' s \<and> mt_base s' = mt_base s \<and> mt_io s' = mt_io s"
proof -
  from assms(1) have "mt_on t (\<lambda>w. bind_ok (f w) (\<lambda>w1. Inr ((), w1))) oid s = Inr ((), s')"
    by (auto simp: mt_run_def bind_ok_Inr_iff)
  then show ?thesis by (rule mt_on_inv [OF _ assms(2)]) (auto simp: bind_ok_Inr_iff intro: assms(3))
qed

lemma mt_run_alive: "mt_run t f oid s = Inr s' \<Longrightarrow> mt_heap s oid \<noteq> None"
  by (auto simp: mt_run_def mt_on_def split: option.splits)

subsection \<open>Program points\<close>

lemma view_pc [simp]:
  "view j (io_at k pc s) = view j s" "view j (s\<lparr>mt_base := b\<rparr>) = view j s"
  "watch (io_at k pc s) = watch s" "watch (s\<lparr>mt_base := b\<rparr>) = watch s"
  by (simp_all add: view_def io_at_def watch_def fun_eq_iff split: option.split)

lemma shape_pc [simp]: "same_shape (io_at k pc s) s" "same_shape (s\<lparr>mt_base := b\<rparr>) s"
  by (simp_all add: same_shape_def io_at_def fd_of_def fun_eq_iff)

lemma io_at_fields [simp]:
  "mt_base (io_at k pc s) = mt_base s" "mt_heap (io_at k pc s) = mt_heap s" "mt_pool (io_at k pc s) = mt_pool s"
  "mt_io (io_at k pc s) = (mt_io s)(k := pc)" "mt_pollers (io_at k pc s) = mt_pollers s"
  "mt_connections (io_at k pc s) = mt_connections s" "mt_loop (io_at k pc s) = mt_loop s"
  "fd_of (io_at k pc s) = fd_of s" "mt_log (io_at k pc s) = mt_log s"
  by (simp_all add: io_at_def fd_of_def fun_eq_iff)

lemma erased_split:
  "i \<in> erased_by s \<longleftrightarrow> (\<exists>j \<in> io_loops s. j \<noteq> k \<and> erases (mt_io s j) i) \<or> (k \<in> io_loops s \<and> erases (mt_io s k) i)"
  unfolding erased_by_def mem_Collect_eq by metis

lemma erased_io:
  "i \<in> erased_by (io_at k pc s) \<longleftrightarrow>
    (\<exists>j \<in> io_loops s. j \<noteq> k \<and> erases (mt_io s j) i) \<or> (k \<in> io_loops s \<and> erases pc i)"
  using erased_split [of i "io_at k pc s" k] by (simp cong: conj_cong)

lemma erased_other [simp]:
  "erased_by (s\<lparr>mt_base := b\<rparr>) = erased_by s" "erased_by (s\<lparr>mt_connections := cs\<rparr>) = erased_by s"
  by (simp_all add: erased_by_def)

lemma mt_good_pc:
  assumes "mt_good X s" and "same_shape s' s" and "\<And>k. view k s' = view k s"
    and "held Y s'" and "inserting_ok s'"
  shows "mt_good Y s'"
  using mt_good_shape [OF assms(1,2) _ assms(4,5)] mt_goodD(3) [OF assms(1)] assms(3) by simp

lemma mt_inv_io:
  assumes "mt_inv s" and "\<And>i. erases pc i = erases (mt_io s k) i"
  shows "mt_inv (io_at k pc s)"
  unfolding mt_inv_def
proof (rule mt_good_pc [OF assms(1) [unfolded mt_inv_def] shape_pc(1) view_pc(1)])
  note d = mt_goodD [OF assms(1) [unfolded mt_inv_def]]
  have "erased_by (io_at k pc s) = erased_by s"
    unfolding set_eq_iff erased_io erased_split [of _ s k] using assms(2) by simp
  then show "held {} (io_at k pc s)" by (intro held_shape [OF d(8) shape_pc(1)]) simp_all
  show "inserting_ok (io_at k pc s)" by (rule inserting_shape [OF d(9) shape_pc(1)]) simp
qed

lemma mt_inv_base:
  assumes "mt_inv s" and "\<And>i. base_holds b i = base_holds (mt_base s) i" and "\<And>x c l. b \<noteq> Inserting x c l"
  shows "mt_inv (s\<lparr>mt_base := b\<rparr>)"
  unfolding mt_inv_def
proof (rule mt_good_pc [OF assms(1) [unfolded mt_inv_def] shape_pc(2) view_pc(2)])
  note d = mt_goodD [OF assms(1) [unfolded mt_inv_def]]
  show "held {} (s\<lparr>mt_base := b\<rparr>)"
    by (rule held_shape [OF d(8) shape_pc(2)]) (simp_all add: assms(2))
  show "inserting_ok (s\<lparr>mt_base := b\<rparr>)"
    unfolding inserting_ok_def using assms(3) by (auto split: base_pc.split)
qed

text \<open>A thread that begins to erase holds the connection.\<close>

lemma mt_inv_erasing:
  assumes "mt_inv s" and "mt_heap s p \<noteq> None" and "\<And>i. \<not> erases (mt_io s k) i"
  shows "mt_inv (io_at k (Io_Closing Erasing p ts ps) s)"
  unfolding mt_inv_def
proof (rule mt_good_pc [OF assms(1) [unfolded mt_inv_def] shape_pc(1) view_pc(1)])
  note d = mt_goodD [OF assms(1) [unfolded mt_inv_def]]
  let ?s = "io_at k (Io_Closing Erasing p ts ps) s"
  have "erased_by ?s \<subseteq> insert p (erased_by s)" "erased_by s \<subseteq> erased_by ?s"
    unfolding subset_iff insert_iff erased_io erased_split [of _ s k] using assms(3) by auto
  then show "held {} ?s" using d(8) assms(2) by (simp add: held_def) blast
  show "inserting_ok ?s" by (rule inserting_shape [OF d(9) shape_pc(1)]) simp
qed

subsection \<open>Releasing a connection\<close>

text \<open>What erasing its entry, and then its other owner's going, leave.\<close>

lemma server_inv_conns:
  assumes "server_inv others s" and "\<And>fd i. conns fd = Some i \<Longrightarrow> sv_connections s fd = Some i"
  shows "server_inv others (s\<lparr>sv_connections := conns\<rparr>)"
  using assms by (auto simp: server_inv_def server_ok_def)

lemma mt_good_erase:
  assumes "mt_inv s" and "mt_heap s p = Some c"
  shows "mt_good {p} (s\<lparr>mt_connections := (mt_connections s)(conn_fd c := None)\<rparr>)"
proof -
  let ?s = "s\<lparr>mt_connections := (mt_connections s)(conn_fd c := None)\<rparr>"
  note d = mt_goodD [OF assms(1) [unfolded mt_inv_def]]
  have v: "view k ?s = (view k s)\<lparr>sv_connections := (sv_connections (view k s))(conn_fd c := None)\<rparr>" for k
    by (auto simp: view_def fun_eq_iff split: option.split)
  have f: "fd_of ?s = fd_of s" "erased_by ?s = erased_by s" "watch ?s = watch s"
    by (simp_all add: fd_of_def watch_def fun_eq_iff)
  have "server_inv (watch s k) (view k ?s)" if "k \<in> io_loops s" for k
    unfolding v by (rule server_inv_conns [OF d(3) [OF that]]) (simp split: if_splits)
  moreover have "held {p} ?s"
    using d(8) d(5) [OF fd_of_heap [OF assms(2)]] unfolding held_def f by auto
  moreover have "inserting_ok ?s" by (rule inserting_cong [OF d(9)]) (simp_all add: f)
  ultimately show ?thesis
    using d(1,2,4-7) unfolding mt_good_def f by auto
qed

lemma mt_good_drop_io:
  assumes "mt_good {p} s" and "\<And>i. erases (mt_io s k) i \<Longrightarrow> i = p" and "\<And>i. \<not> erases pc i"
  shows "mt_good {p} (io_at k pc s)"
proof (rule mt_good_pc [OF assms(1) shape_pc(1) view_pc(1)])
  note d = mt_goodD [OF assms(1)]
  have "erased_by (io_at k pc s) \<subseteq> erased_by s" "erased_by s \<subseteq> insert p (erased_by (io_at k pc s))"
    unfolding subset_iff insert_iff erased_io erased_split [of _ s k] using assms(2,3) by auto
  then show "held {p} (io_at k pc s)" using d(8) by (simp add: held_def) blast
  show "inserting_ok (io_at k pc s)" by (rule inserting_shape [OF d(9) shape_pc(1)]) simp
qed

lemma mt_good_drop_base:
  assumes "mt_inv s" and "mt_base s = Leaving p"
  shows "mt_good {p} (s\<lparr>mt_base := Base_Out\<rparr>)"
proof (rule mt_good_pc [OF assms(1) [unfolded mt_inv_def] shape_pc(2) view_pc(2)])
  note d = mt_goodD [OF assms(1) [unfolded mt_inv_def]]
  show "held {p} (s\<lparr>mt_base := Base_Out\<rparr>)"
    using d(8) assms(2) by (auto simp: held_def fd_of_def)
  show "inserting_ok (s\<lparr>mt_base := Base_Out\<rparr>)" by (simp add: inserting_ok_def)
qed

lemma server_inv_fds:
  assumes "server_inv others s" and "\<And>i x. sv_heap s i = Some x \<Longrightarrow> conn_fd x \<in> fds"
    and "\<And>fd x. others fd = Some x \<Longrightarrow> fd \<notin> fds"
  shows "server_inv others (s\<lparr>sv_fds := fds\<rparr>)"
  using assms by (simp add: server_inv_def server_ok_def)

lemma mt_release_inv:
  assumes "mt_good {p} s"
  shows "mt_inv (mt_release p s)"
proof (cases "mt_owned p s \<or> mt_heap s p = None")
  case True
  then have e: "mt_release p s = s" by (auto simp: mt_release_def split: option.split)
  have "held {} s"
    using mt_goodD(8) [OF assms] True unfolding held_def mt_owned_iff fd_of_None [symmetric]
    by (metis option.sel option.discI singletonD)
  with assms show ?thesis unfolding e mt_inv_def mt_good_def by simp
next
  case False
  then obtain c where c: "mt_heap s p = Some c" and no: "\<not> mt_owned p s" by blast
  note d = mt_goodD [OF assms]
  let ?k = "mt_loop s p" and ?ep = "kernel_close (conn_fd c) (mt_pollers s (mt_loop s p))"
  let ?s = "s\<lparr>mt_heap := (mt_heap s)(p := None), mt_fds := mt_fds s - {conn_fd c},
      mt_pollers := (mt_pollers s)(?k := ?ep)\<rparr>"
  have e: "mt_release p s = ?s" using c no by (simp add: mt_release_def)
  have f: "fd_of ?s = (fd_of s)(p := None)" "erased_by ?s = erased_by s" "watch ?s = watch s"
    by (simp_all add: fd_of_def erased_by_def watch_def fun_eq_iff)
  have fp: "fd_of s p = Some (conn_fd c)" using c by (rule fd_of_heap)
  have not: "\<not> base_holds (mt_base s) p" "p \<notin> erased_by s" "mt_connections s (conn_fd c) \<noteq> Some p"
    using no fp by (auto simp: mt_owned_iff)
  have k: "?k \<in> io_loops s" using d(4) [OF fp] .
  have views: "server_inv (watch s j) (view j ?s)" if "j \<in> io_loops s" for j
  proof (cases "j = ?k")
    case True
    have "\<not> owned p (view ?k s)"
      using c not(3) by (auto simp: owned_def view_def split: option.split)
    then have r: "release p (view ?k s) = (view ?k s)\<lparr>sv_heap := (sv_heap (view ?k s))(p := None),
        sv_fds := mt_fds s - {conn_fd c}, sv_epoller := ?ep\<rparr>"
      using c by (simp add: release_def view_def)
    have "server_inv (watch s j) (release p (view ?k s))"
      using d(3) [OF k] True by (simp add: server_inv_release)
    then show ?thesis
      unfolding r by (rule server_inv_cong) (auto simp: view_def True loop_pool_ctor_def fun_eq_iff split: option.split)
  next
    case False
    have v: "view j ?s = (view j s)\<lparr>sv_fds := mt_fds s - {conn_fd c}\<rparr>"
      using False by (auto simp: view_def fun_eq_iff split: option.split)
    note dj = server_invD [OF d(3) [OF that]]
    show ?thesis
      unfolding v
    proof (rule server_inv_fds [OF d(3) [OF that]])
      show "conn_fd x \<in> mt_fds s - {conn_fd c}" if x: "sv_heap (view j s) i = Some x" for i x
      proof -
        from x have i: "mt_loop s i = j" "mt_heap s i = Some x" by (simp_all add: view_def split: if_splits)
        then have "i \<noteq> p" using False by blast
        then have "conn_fd x \<noteq> conn_fd c" using d(5) fd_of_heap [OF i(2)] fp by metis
        moreover have "conn_fd x \<in> mt_fds s" using dj(2) [OF x] by (simp add: view_def)
        ultimately show ?thesis by simp
      qed
      show "fd \<notin> mt_fds s - {conn_fd c}" if "watch s j fd = Some x" for fd x
        using dj(6) [OF that] by (simp add: view_def)
    qed
  qed
  have "held {} ?s" using d(8) not fp unfolding held_def f by (auto simp: fd_of_def)
  moreover have "inserting_ok ?s" 
    using d(9) fp by (cases "mt_base s") (auto simp: inserting_ok_def f)
  moreover have "mt_connections s fd = Some i \<Longrightarrow> i \<noteq> p" for fd i
    using d(6) [of fd i] not(3) fp by auto
  ultimately show ?thesis
    using d(1,2,4-7) views unfolding e mt_inv_def mt_good_def f by auto
qed

subsection \<open>Steps\<close>

lemma framed_switch: "framed t (on_channel enableReading t)"
  by (rule framed_update [where g = set_reading]) (auto simp: enableReading_def set_reading_def)

lemma framed_state:
  "framed t (on_conn (\<lambda>c. c\<lparr>c_state := st\<rparr>) t)"
  "framed t (on_conn (\<lambda>c. c\<lparr>c_channel := disableAll (c_channel c)\<rparr>) t)"
  by (rule framed_conn; simp add: conn_fd_def same_setup_def same_callbacks_iff bufs_ok_def disableAll_def)+

lemma read_event_framed:
  assumes "read_event k t = Inr (x, t')" and "reads_ok k (c_inputBuffer (tw_conn t))"
  shows "framed t t'"
proof -
  from assms(1) obtain n err b where r: "readFromFd k (c_inputBuffer (tw_conn t)) = Inr (n, err, b)"
    and t': "t' = on_conn (\<lambda>c. c\<lparr>c_inputBuffer := b\<rparr>) t
      \<or> (\<exists>f ev. fire f ev (on_conn (\<lambda>c. c\<lparr>c_inputBuffer := b\<rparr>) t) = Inr t')"
    by (auto simp: read_event_def bind_ok_Inr_iff Let_def split: if_splits; blast)
  have "framed t (on_conn (\<lambda>c. c\<lparr>c_inputBuffer := b\<rparr>) t)"
    by (rule framed_input) (rule readFromFd_inv [OF assms(2) r])
  with t' show ?thesis by (blast intro: framed_trans framed_fire)
qed

lemma base_accepts_inv:
  assumes "base_accepts oid uninit localr fd peer s = Inr s'" and "mt_inv s" and "mt_base s = Base_Out"
    and "fresh oid fd s"
  shows "mt_inv s'"
proof -
  note d = mt_goodD [OF assms(2) [unfolded mt_inv_def]]
  let ?p = "mt_pool s"
  let ?l = "el_loops ?p ! el_currentIndex ?p"
    and ?q = "?p\<lparr>el_currentIndex := (el_currentIndex ?p + 1) mod length (el_loops ?p)\<rparr>"
    and ?c = "tcp_ctor oid fd (addr_of_sockaddr (getLocalAddr localr)) peer uninit"
  have s': "s' = s\<lparr>mt_pool := ?q, mt_fds := insert fd (mt_fds s), mt_made := mt_made s @ [(oid, ?l)],
      mt_base := Inserting oid ?c ?l\<rparr>"
    using assms(1) getNextLoop_step [OF d(1,2)] by (simp add: base_accepts_def)
  have c: "conn_fd ?c = fd" by (simp add: conn_fd_def tcp_ctor_def new_channel_def)
  have l: "?l \<in> io_loops s" using d(2) by simp
  have f: "fd_of s' = fd_of s" "watch s' = watch s" "io_loops s' = io_loops s" "erased_by s' = erased_by s"
    by (simp_all add: s' fd_of_def watch_def erased_by_def fun_eq_iff)
  have v: "view k s' = (view k s)\<lparr>sv_fds := insert fd (mt_fds s)\<rparr>" for k
    by (auto simp: view_def s' fun_eq_iff split: option.split)
  have views: "server_inv (watch s k) (view k s')" if "k \<in> io_loops s" for k
    unfolding v
  proof (rule server_inv_fds [OF d(3) [OF that]])
    note dk = server_invD [OF d(3) [OF that]]
    show "conn_fd x \<in> insert fd (mt_fds s)" if "sv_heap (view k s) i = Some x" for i x
      using dk(2) [OF that] by (simp add: view_def)
    show "g \<notin> insert fd (mt_fds s)" if w: "watch s k g = Some x" for g x
    proof -
      have "g \<notin> mt_fds s" using dk(6) [OF w] by (simp add: view_def)
      moreover have "g \<noteq> fd" using w assms(4) \<open>k \<in> io_loops s\<close> by (auto simp: watch_def fresh_def split: if_splits)
      ultimately show ?thesis by simp
    qed
  qed
  have nofd: "fd_of s i \<noteq> Some fd" for i
  proof
    assume "fd_of s i = Some fd"
    then obtain x where x: "mt_heap s i = Some x" "conn_fd x = fd" by (auto simp: fd_of_def)
    have k: "mt_loop s i \<in> io_loops s" using d(4) \<open>fd_of s i = Some fd\<close> by blast
    have "sv_heap (view (mt_loop s i) s) i = Some x" using x by (simp add: view_def)
    from server_invD(2) [OF d(3) [OF k] this] x(2) assms(4) show False by (simp add: view_def fresh_def)
  qed
  have "held {} s'" using d(8) assms(3) unfolding held_def f by (simp add: s')
  moreover have "inserting_ok s'"
    using assms(4) nofd l c by (auto simp: inserting_ok_def s' fresh_def fd_of_def)
  ultimately show ?thesis
    unfolding mt_inv_def mt_good_def f using d views by (auto simp: s')
qed

lemma base_insert_inv:
  assumes "mt_base s = Inserting oid conn l" and "base_step (Inserting oid conn l) s = Inr s'" and "mt_inv s"
  shows "mt_inv s'"
proof -
  note d = mt_goodD [OF assms(3) [unfolded mt_inv_def]]
  define c where "c = conn\<lparr>c_has_connection := True, c_has_message := mt_has_message s,
      c_has_writeComplete := mt_has_writeComplete s, c_has_close := True\<rparr>"
  from d(9) assms(1) have i: "mt_heap s oid = None" "oid \<notin> io_loops s" "l \<in> io_loops s"
      "conn_fd conn \<in> mt_fds s" "\<And>i. fd_of s i \<noteq> Some (conn_fd conn)" "\<And>k. k \<in> io_loops s \<Longrightarrow> conn_fd conn \<noteq> mt_wake s k"
    and "\<exists>fd la pa u. conn = tcp_ctor oid fd la pa u"
    by (auto simp: inserting_ok_def)
  then obtain fd la pa u where conn: "conn = tcp_ctor oid fd la pa u" by blast
  have c: "conn_fd c = conn_fd conn" "server_conn oid c"
    using d(7) by (simp_all add: c_def conn conn_fd_def tcp_ctor_def server_conn_def new_channel_def new_buffer_inv)
  have s': "s' = s\<lparr>mt_connections := (mt_connections s)(conn_fd c := Some oid),
      mt_heap := (mt_heap s)(oid := Some c), mt_loop := (mt_loop s)(oid := l),
      mt_wire := (mt_wire s)(oid := []), mt_base := Enabling oid\<rparr>"
    using assms(2) c(1) by (simp add: c_def)
  have f: "fd_of s' = (fd_of s)(oid := Some (conn_fd c))" "watch s' = watch s" "io_loops s' = io_loops s"
      "erased_by s' = erased_by s"
    by (auto simp: s' fd_of_def watch_def erased_by_def fun_eq_iff)
  have free: "mt_connections s (conn_fd c) = None"
    using d(6) [of "conn_fd c"] i(5) c(1) by (cases "mt_connections s (conn_fd c)") auto
  have old: "mt_connections s g \<noteq> Some oid" for g using d(6) [of g oid] i(1) by (auto simp: fd_of_def)
  have vl: "server_inv (watch s l) (view l s')"
  proof -
    have "server_inv (watch s l) (add_connection oid c (view l s))"
    proof (rule server_inv_add [OF d(3) [OF i(3)] _ _ _ _ c(2)])
      show "sv_heap (view l s) oid = None" using i(1) by (simp add: view_def)
      show "conn_fd x \<noteq> conn_fd c" if "sv_heap (view l s) j = Some x" for j x
        using that i(5) [of j] c(1) by (auto simp: view_def fd_of_def split: if_splits)
      show "watch s l (conn_fd c) = None" using i(6) [OF i(3)] c(1) by (simp add: watch_def)
      show "oid \<notin> addresses (watch s l)" using i(2,3) by (auto simp: addresses_watch)
    qed
    then show ?thesis
      by (rule server_inv_cong)
        (use old free c(1) i(4) in \<open>auto simp: view_def add_connection_def s' loop_pool_ctor_def fun_eq_iff
          split: option.split\<close>)
  qed
  have vk: "view k s' = view k s" if "k \<noteq> l" for k
    using that i(1) old free by (auto simp: view_def s' fun_eq_iff split: option.split)
  have views: "server_inv (watch s k) (view k s')" if "k \<in> io_loops s" for k
    using vl vk d(3) [OF that] by (cases "k = l") simp_all
  have "held {} s'" using d(8) assms(1) i(1,5) c(1) unfolding held_def f by (auto simp: s' fd_of_def)
  moreover have "inserting_ok s'" by (simp add: inserting_ok_def s')
  ultimately show ?thesis
    unfolding mt_inv_def mt_good_def f using d(1,2,4-7) views i(3,5) c(1) old by (auto simp: s')
qed

lemma base_run_inv:
  assumes "bind_ok (mt_run t f oid s) (\<lambda>s1. Inr (s1\<lparr>mt_base := b\<rparr>)) = Inr s'" and "mt_inv s"
    and "\<And>w w'. f w = Inr w' \<Longrightarrow> framed w w'"
    and "\<And>i. base_holds b i = base_holds (mt_base s) i" and "\<And>x c l. b \<noteq> Inserting x c l"
  shows "mt_inv s'"
proof -
  from assms(1) obtain s1 where s1: "mt_run t f oid s = Inr s1" and s': "s' = s1\<lparr>mt_base := b\<rparr>"
    by (auto simp: bind_ok_Inr_iff)
  have "mt_inv s1 \<and> mt_base s1 = mt_base s"
    using mt_run_inv [OF s1 assms(2)] assms(3) by blast
  then show ?thesis unfolding s' by (intro mt_inv_base) (simp_all add: assms(4,5))
qed

lemma base_step_inv:
  assumes "base_step (mt_base s) s = Inr s'" and "mt_inv s"
  shows "mt_inv s'"
proof (cases "mt_base s")
  case Base_Out
  with assms show ?thesis by simp
next
  case (Inserting oid conn l)
  with base_insert_inv [OF Inserting _ assms(2)] assms(1) show ?thesis by simp
next
  case (Enabling oid)
  show ?thesis
    by (rule base_run_inv [OF _ assms(2)]) (use Enabling assms(1) framed_switch in auto)
next
  case (Enabled oid)
  show ?thesis
    by (rule base_run_inv [OF _ assms(2)]) (use Enabled assms(1) framed_state in auto)
next
  case (Stated oid)
  show ?thesis
    by (rule base_run_inv [OF _ assms(2)]) (use Stated assms(1) framed_fire in auto)
next
  case (Leaving oid)
  with assms(1) have "s' = mt_release oid (s\<lparr>mt_base := Base_Out\<rparr>)" by simp
  with mt_release_inv [OF mt_good_drop_base [OF assms(2) Leaving]] show ?thesis by simp
qed

text \<open>A thread of a loop, at a point where it erases nothing.\<close>

lemma io_run_inv:
  assumes "bind_ok (mt_run k f oid s) (\<lambda>s1. Inr (io_at k pc s1)) = Inr s'" and "mt_inv s"
    and "\<And>w w'. f w = Inr w' \<Longrightarrow> framed w w'"
    and "\<And>i. \<not> erases (mt_io s k) i" and "\<And>i. \<not> erases pc i"
  shows "mt_inv s'"
proof -
  from assms(1) obtain s1 where s1: "mt_run k f oid s = Inr s1" and s': "s' = io_at k pc s1"
    by (auto simp: bind_ok_Inr_iff)
  have "mt_inv s1 \<and> mt_io s1 = mt_io s"
    using mt_run_inv [OF s1 assms(2)] assms(3) by blast
  then show ?thesis unfolding s' by (intro mt_inv_io) (simp_all add: assms(4,5))
qed

lemma after_test_erases [simp]: "\<not> erases (after_test p ts ps) i"
  by (simp add: after_test_def)

lemma io_callback_inv:
  assumes "io_callback k kr wr cb p ts ps s = Inr s'" and "mt_inv s"
    and "\<And>i. \<not> erases (mt_io s k) i" and "\<And>c. mt_heap s p = Some c \<Longrightarrow> reads_ok kr (c_inputBuffer c)"
  shows "mt_inv s'"
proof (cases cb)
  case Conn_handleRead
  with assms(1) obtain x s1 where s1: "mt_on k (read_event kr) p s = Inr (x, s1)"
    and s': "s' = io_at k (if x then Io_Closing Close_Disable p ts ps else after_test p ts ps) s1"
    by (auto simp: bind_ok_Inr_iff)
  have "mt_inv s1 \<and> same_shape s1 s \<and> mt_base s1 = mt_base s \<and> mt_io s1 = mt_io s"
    by (rule mt_on_inv [OF s1 assms(2)]) (use read_event_framed assms(4) in blast)
  then show ?thesis unfolding s' by (intro mt_inv_io) (simp_all add: assms(3))
next
  case Conn_handleWrite
  show ?thesis
    by (rule io_run_inv [OF _ assms(2)]) (use Conn_handleWrite assms(1,3) framed_handleWrite in auto)
next
  case Conn_handleClose
  with assms(1) have "s' = io_at k (Io_Closing Close_Disable p ts ps) s" by simp
  then show ?thesis using assms(2,3) by (auto intro: mt_inv_io)
qed

lemma close_step_inv:
  assumes "close_step k pc p ts ps s = Inr s'" and "mt_inv s" and "mt_io s k = Io_Closing pc p ts ps"
  shows "mt_inv s'"
proof (cases pc)
  case Close_Disable
  show ?thesis
    by (rule io_run_inv [OF _ assms(2)]) (use Close_Disable assms(1,3) framed_state in auto)
next
  case Close_State
  show ?thesis
    by (rule io_run_inv [OF _ assms(2)]) (use Close_State assms(1,3) framed_state in auto)
next
  case Close_Call
  show ?thesis
    by (rule io_run_inv [OF _ assms(2)]) (use Close_Call assms(1,3) framed_fire in auto)
next
  case Close_Erase
  with assms(1) obtain s1 where s1: "mt_run k (\<lambda>w. fire (c_has_close (tw_conn w)) Ev_Close w) p s = Inr s1"
    and s': "s' = io_at k (Io_Closing Erasing p ts ps) s1"
    by (auto simp: bind_ok_Inr_iff)
  have i: "mt_inv s1 \<and> same_shape s1 s \<and> mt_base s1 = mt_base s \<and> mt_io s1 = mt_io s"
    using mt_run_inv [OF s1 assms(2)] framed_fire by blast
  have "mt_heap s1 p \<noteq> None" using mt_run_alive [OF s1] heap_None_shape [of s1 s p] i by simp
  with i show ?thesis unfolding s' using assms(3) Close_Erase by (intro mt_inv_erasing) auto
next
  case Erasing
  with assms(1) obtain c where c: "mt_heap s p = Some c"
    and s': "s' = mt_release p (io_at k (after_test p ts ps)
      (s\<lparr>mt_connections := (mt_connections s)(conn_fd c := None)\<rparr>))"
    by (auto split: option.splits)
  have "mt_good {p} (io_at k (after_test p ts ps) (s\<lparr>mt_connections := (mt_connections s)(conn_fd c := None)\<rparr>))"
    by (rule mt_good_drop_io [OF mt_good_erase [OF assms(2) c]]) (use assms(3) Erasing in auto)
  then show ?thesis unfolding s' by (rule mt_release_inv)
qed

lemma io_step_inv:
  assumes "io_step k kr wr (mt_io s k) s = Inr s'" and "mt_inv s" and "read_fits kr (mt_io s k) s"
  shows "mt_inv s'"
proof (cases "mt_io s k")
  case Io_Polling
  with assms(1,2) show ?thesis by simp
next
  case (Io_Active ps)
  show ?thesis
  proof (cases ps)
    case Nil
    with Io_Active assms(1) have "s' = io_at k Io_Polling s" by simp
    then show ?thesis using assms(2) Io_Active by (auto intro: mt_inv_io)
  next
    case (Cons p qs)
    with Io_Active assms(1) have s': "s' = io_at k (if p = k then Io_Active qs
        else Io_Event p [Test_Close, Test_Error, Test_Read, Test_Write] qs) s" by simp
    show ?thesis unfolding s' using Io_Active by (intro mt_inv_io [OF assms(2)]) simp
  qed
next
  case (Io_Event p tests ps)
  have none: "\<not> erases (mt_io s k) i" for i using Io_Event by simp
  show ?thesis
  proof (cases tests)
    case Nil
    with Io_Event assms(1) have "s' = io_at k (Io_Active ps) s" by simp
    then show ?thesis using assms(2) none by (auto intro: mt_inv_io)
  next
    case (Cons t ts)
    with Io_Event assms(1) obtain c where c: "mt_heap s p = Some c"
      and e: "s' = io_at k (after_test p ts ps) s \<or> (\<exists>cb. io_callback k kr wr cb p ts ps s = Inr s')"
      by (auto split: option.splits if_splits)
    have fit: "reads_ok kr (c_inputBuffer x)" if "mt_heap s p = Some x" for x
      using assms(3) Io_Event that by (simp add: read_fits_def)
    from e show ?thesis
    proof
      assume "s' = io_at k (after_test p ts ps) s"
      then show ?thesis using assms(2) none by (auto intro: mt_inv_io)
    next
      assume "\<exists>cb. io_callback k kr wr cb p ts ps s = Inr s'"
      then show ?thesis using io_callback_inv [OF _ assms(2) none fit] by blast
    qed
  qed
next
  case (Io_Closing pc p ts ps)
  with assms(1) have "close_step k pc p ts ps s = Inr s'" by simp
  from close_step_inv [OF this assms(2) Io_Closing] show ?thesis .
qed

text \<open>What a poll does: events stored in living connections, and the event array.\<close>

lemma mt_mark_inv:
  assumes "mt_mark k p e s = Inr s'" and "mt_inv s"
  shows "mt_inv s' \<and> mt_pollers s' = mt_pollers s \<and> mt_io s' = mt_io s \<and> mt_pool s' = mt_pool s"
proof (cases "p = k")
  case True
  with assms show ?thesis by (simp add: mt_mark_def)
next
  case False
  with assms(1) obtain c where c: "mt_heap s p = Some c"
    and s': "s' = s\<lparr>mt_heap := (mt_heap s)(p := Some (c\<lparr>c_channel := setREvents e (c_channel c)\<rparr>))\<rparr>"
    by (auto simp: mt_mark_def split: option.splits)
  note d = mt_goodD [OF assms(2) [unfolded mt_inv_def]]
  let ?c = "c\<lparr>c_channel := setREvents e (c_channel c)\<rparr>"
  have shape: "same_shape s' s"
    using c by (auto simp: s' same_shape_def fd_of_def conn_fd_def setREvents_def fun_eq_iff)
  have v: "view j s' = (if j = mt_loop s p
      then (view j s)\<lparr>sv_heap := (sv_heap (view j s))(p := Some ?c)\<rparr> else view j s)" for j
    using c by (auto simp: view_def s' fun_eq_iff split: option.split)
  have "server_inv (watch s j) (view j s')" if "j \<in> io_loops s" for j
  proof (cases "j = mt_loop s p")
    case True
    have "sv_heap (view j s) p = Some c" using True c by (simp add: view_def)
    from server_inv_revents [OF d(3) [OF that] this] show ?thesis unfolding v using True by simp
  qed (use d(3) [OF that] v in simp)
  moreover have "held {} s'" by (rule held_shape [OF d(8) shape]) (simp_all add: s' erased_by_def)
  moreover have "inserting_ok s'" by (rule inserting_shape [OF d(9) shape]) (simp add: s')
  ultimately have "mt_good {} s'" by (intro mt_good_shape [OF assms(2) [unfolded mt_inv_def] shape])
  then show ?thesis by (simp add: mt_inv_def s')
qed

lemma poll_capacity:
  assumes "poll mark w s ep = Inr (ps, s1, ep1)"
  shows "ep_interest ep1 = ep_interest ep \<and> ep_deny ep1 = ep_deny ep"
  using assms by (auto simp: poll_def bind_ok_Inr_iff split: wait_result.splits if_splits)

lemma mt_poll_marked:
  assumes "poll mark w s ep = Inr (ps, s1, ep1)"
  shows "s1 = s \<or> (\<exists>es qs. mark_ready mark es s = Inr (qs, s1))"
  using assms by (auto simp: poll_def bind_ok_Inr_iff split: wait_result.splits if_splits; blast)

lemma mt_poll_inv:
  assumes "poll (mt_mark k) w s (mt_pollers s k) = Inr (ps, s1, ep)" and "mt_inv s" and "mt_io s k = Io_Polling"
  shows "mt_inv (io_at k (Io_Active ps) (s1\<lparr>mt_pollers := (mt_pollers s1)(k := ep)\<rparr>))"
proof -
  let ?P = "\<lambda>t. mt_inv t \<and> mt_pollers t = mt_pollers s \<and> mt_io t = mt_io s"
  have step: "?P t'" if "mt_mark k p e t = Inr t'" "?P t" for p e t t'
    using mt_mark_inv [OF that(1)] that(2) by simp
  have P: "?P s1"
    using mt_poll_marked [OF assms(1)]
  proof
    assume "\<exists>es qs. mark_ready (mt_mark k) es s = Inr (qs, s1)"
    then obtain es qs where "mark_ready (mt_mark k) es s = Inr (qs, s1)" by blast
    then show ?thesis
      by (rule mark_ready_inv [where P = ?P and mark = "mt_mark k", rotated]) (use step assms(2) in blast)+
  qed (use assms(2) in simp)
  note d = mt_goodD [OF conjunct1 [OF P, unfolded mt_inv_def]]
  let ?t = "s1\<lparr>mt_pollers := (mt_pollers s1)(k := ep)\<rparr>"
  have ep: "ep_interest ep = ep_interest (mt_pollers s1 k)" "ep_deny ep = ep_deny (mt_pollers s1 k)"
    using poll_capacity [OF assms(1)] P by simp_all
  have shape: "same_shape ?t s1" by (simp add: same_shape_def fd_of_def fun_eq_iff)
  have "server_inv (watch s1 j) (view j ?t)" if "j \<in> io_loops s1" for j
    by (rule server_inv_cong [OF d(3) [OF that]])
      (use ep in \<open>auto simp: view_def loop_pool_ctor_def fun_eq_iff split: option.split\<close>)
  moreover have "held {} ?t" by (rule held_shape [OF d(8) shape]) (simp_all add: erased_by_def)
  moreover have "inserting_ok ?t" by (rule inserting_shape [OF d(9) shape]) simp
  ultimately have "mt_good {} ?t" by (rule mt_good_shape [OF conjunct1 [OF P, unfolded mt_inv_def] shape])
  then show ?thesis using P assms(3) by (intro mt_inv_io) (simp_all add: mt_inv_def)
qed

lemma mt_do_inv: "mt_do m s = Some (Inr s') \<Longrightarrow> mt_inv s \<Longrightarrow> mt_inv s'"
proof (induction m s rule: mt_do.induct)
  case (1 oid uninit localr fd peer s)
  then show ?case by (auto intro: base_accepts_inv split: if_splits)
next
  case (2 s)
  then show ?case by (auto intro: base_step_inv split: if_splits)
next
  case (3 k w s)
  then show ?case by (auto simp: bind_ok_Inr_iff intro: mt_poll_inv split: if_splits)
next
  case (4 k kr wr s)
  then show ?case by (auto intro: io_step_inv split: if_splits)
qed

lemma loop_ctor_poller:
  assumes "loop_ctor False k epfd evfd = Inr l"
  shows "ep_interest (lo_poller l) = (\<lambda>_. None)(evfd := Some (READ, k)) \<and> \<not> ep_deny (lo_poller l)"
  using assms
  by (auto simp: loop_ctor_def new_epoller_def enableReading_def updateChannel_def controlEpoll_def epoll_ctl_def
      set_reading_def new_channel_def NONE_def Let_def bind_ok_Inr_iff split: if_splits prod.splits)

lemma mt_start_pool:
  assumes "mt_start s"
  shows "el_loops (mt_pool s) \<noteq> [] \<and> el_currentIndex (mt_pool s) = 0"
proof -
  from assms obtain base num made has_cb where n: "0 < num"
    and p: "fst (loop_pool_start made has_cb (loop_pool_ctor base num)) = mt_pool s"
    unfolding mt_start_def by blast
  show ?thesis unfolding p [symmetric] using n by (simp add: loop_pool_start_def loop_pool_ctor_def Let_def)
qed

lemma mt_start_inv:
  assumes "mt_start s"
  shows "mt_inv s"
proof -
  note pool = mt_start_pool [OF assms]
  have st: "mt_connections s = (\<lambda>_. None)" "mt_heap s = (\<lambda>_. None)" "mt_fds s = {}" "mt_has_message s"
      "mt_base s = Base_Out" "mt_io s = (\<lambda>_. Io_Polling)"
    using assms by (simp_all add: mt_start_def)
  have f: "fd_of s = (\<lambda>_. None)" "erased_by s = {}" by (simp_all add: fd_of_def erased_by_def st fun_eq_iff)
  have "server_inv (watch s k) (view k s)" if k: "k \<in> io_loops s" for k
  proof -
    from assms k obtain epfd l where "loop_ctor False k epfd (mt_wake s k) = Inr l" "mt_pollers s k = lo_poller l"
      unfolding mt_start_def by blast
    with loop_ctor_poller [of k epfd "mt_wake s k" l] show ?thesis
      by (auto simp: server_inv_def server_ok_def view_def watch_def st loop_pool_ctor_def split: if_splits)
  qed
  then show ?thesis
    using pool by (simp add: mt_inv_def mt_good_def held_def inserting_ok_def f st)
qed

interpretation mts: state_invariant mt_start mt_step mt_inv
proof unfold_locales
  show "mt_inv s" if "mt_start s" for s using that by (rule mt_start_inv)
  show "mt_inv t" if "mt_step s t" and "mt_inv s" for s t
    using that by (auto elim!: mt_stepE intro: mt_do_inv)
qed

subsection \<open>Statements and operations\<close>

lemma established_statements:
  "bind_ok (base_step (Enabling oid) s) (\<lambda>s1. bind_ok (base_step (Enabled oid) s1) (base_step (Stated oid))) =
    bind_ok (mt_run (el_baseLoop (mt_pool s)) established oid s) (\<lambda>s1. Inr (s1\<lparr>mt_base := Leaving oid\<rparr>))"
  by (cases "mt_heap s oid")
    (auto simp: mt_run_def mt_on_def established_def on_conn_def on_channel_def fire_def Let_def case_prod_beta)

lemma handleClose_statements:
  "bind_ok (close_step k Close_Disable p ts ps s) (\<lambda>s1. bind_ok (close_step k Close_State p ts ps s1) (\<lambda>s2.
     bind_ok (close_step k Close_Call p ts ps s2) (close_step k Close_Erase p ts ps))) =
    bind_ok (mt_run k conn_handleClose p s) (\<lambda>s1. Inr (io_at k (Io_Closing Erasing p ts ps) s1))"
  by (cases "mt_heap s p")
    (auto simp: mt_run_def mt_on_def conn_handleClose_def disconnect_def on_conn_def fire_def io_at_def Let_def)

lemma handleRead_statements:
  "conn_handleRead kr w = bind_ok (read_event kr w) (\<lambda>(closes, w1). if closes then conn_handleClose w1 else Inr w1)"
  by (auto simp: conn_handleRead_def read_event_def Let_def bind_ok_assoc intro!: bind_ok_cong)

subsection \<open>The choice of the loops\<close>

definition robin_inv :: "threaded \<Rightarrow> bool" where
  "robin_inv s \<longleftrightarrow> (let L = el_loops (mt_pool s); n = length (mt_made s)
     in L \<noteq> [] \<and> distinct L \<and> el_currentIndex (mt_pool s) = n mod length L
       \<and> map snd (mt_made s) = map (\<lambda>i. L ! (i mod length L)) [0..<n])"

text \<open>
  Every living connection is in the loop that was chosen when it was made, and the one about
  to enter the map will be.
\<close>

definition given_inv :: "threaded \<Rightarrow> bool" where
  "given_inv s \<longleftrightarrow> (\<forall>oid. mt_heap s oid \<noteq> None \<longrightarrow> map_of (rev (mt_made s)) oid = Some (mt_loop s oid))
     \<and> (case mt_base s of Inserting oid c l \<Rightarrow> map_of (rev (mt_made s)) oid = Some l | _ \<Rightarrow> True)"

text \<open>What every other statement keeps: no connection is made, and none changes its loop.\<close>

definition keeps :: "threaded \<Rightarrow> threaded \<Rightarrow> bool" where
  "keeps s' s \<longleftrightarrow> mt_pool s' = mt_pool s \<and> mt_made s' = mt_made s \<and> mt_loop s' = mt_loop s
     \<and> (\<forall>i. mt_heap s i = None \<longrightarrow> mt_heap s' i = None)
     \<and> (mt_base s' = mt_base s \<or> (\<forall>oid c l. mt_base s' \<noteq> Inserting oid c l))"

lemma keeps_trans: "keeps s2 s1 \<Longrightarrow> keeps s1 s \<Longrightarrow> keeps s2 s"
  unfolding keeps_def by metis

lemma keeps_refl [simp]: "keeps s s"
  by (simp add: keeps_def)

lemma robin_keeps: "keeps s' s \<Longrightarrow> robin_inv s \<Longrightarrow> robin_inv s'"
  by (simp add: robin_inv_def keeps_def)

lemma given_keeps:
  assumes "keeps s' s" and "given_inv s"
  shows "given_inv s'"
proof -
  have "case mt_base s' of Inserting oid c l \<Rightarrow> map_of (rev (mt_made s')) oid = Some l | _ \<Rightarrow> True"
    using assms by (cases "mt_base s'") (auto simp: given_inv_def keeps_def split: base_pc.splits)
  moreover have "map_of (rev (mt_made s')) oid = Some (mt_loop s' oid)" if "mt_heap s' oid \<noteq> None" for oid
    using assms that unfolding given_inv_def keeps_def by metis
  ultimately show ?thesis by (simp add: given_inv_def)
qed

lemma mt_on_keeps: "mt_on t f oid s = Inr (x, s') \<Longrightarrow> keeps s' s"
  by (erule mt_onE) (auto simp: keeps_def)

lemma mt_run_keeps: "mt_run t f oid s = Inr s' \<Longrightarrow> keeps s' s"
  by (auto simp: mt_run_def bind_ok_Inr_iff dest: mt_on_keeps)

lemma mt_release_keeps: "keeps (mt_release p s) s"
  by (simp add: mt_release_def keeps_def split: option.split)

lemma io_at_keeps [simp]: "keeps (io_at k pc s) s"
  by (simp add: io_at_def keeps_def)

lemma run_at_keeps: "mt_run t f oid s = Inr s1 \<Longrightarrow> keeps (io_at k pc s1) s"
  by (rule keeps_trans [OF io_at_keeps mt_run_keeps])

lemma base_step_keeps:
  assumes "base_step pc s = Inr s'" and "\<And>oid c l. pc \<noteq> Inserting oid c l"
  shows "keeps s' s"
proof -
  have b: "keeps (s1\<lparr>mt_base := pc'\<rparr>) s" if "keeps s1 s" "\<And>oid c l. pc' \<noteq> Inserting oid c l" for s1 pc'
    using that by (auto simp: keeps_def)
  show ?thesis
  proof (cases pc)
    case (Leaving oid)
    then have "s' = mt_release oid (s\<lparr>mt_base := Base_Out\<rparr>)" using assms(1) by simp
    then show ?thesis using keeps_trans [OF mt_release_keeps b [OF keeps_refl]] by simp
  qed (use assms in \<open>auto simp: bind_ok_Inr_iff intro!: b dest: mt_run_keeps\<close>)
qed

lemma io_callback_keeps: "io_callback k kr wr cb p ts ps s = Inr s' \<Longrightarrow> keeps s' s"
  by (cases cb)
    (auto simp: bind_ok_Inr_iff intro: run_at_keeps keeps_trans [OF io_at_keeps mt_on_keeps])

lemma close_step_keeps:
  assumes "close_step k pc p ts ps s = Inr s'"
  shows "keeps s' s"
proof (cases pc)
  case Erasing
  then obtain c where s': "s' = mt_release p (io_at k (after_test p ts ps)
      (s\<lparr>mt_connections := (mt_connections s)(conn_fd c := None)\<rparr>))"
    using assms by (auto split: option.splits)
  have "keeps (s\<lparr>mt_connections := (mt_connections s)(conn_fd c := None)\<rparr>) s" by (simp add: keeps_def)
  then show ?thesis unfolding s' by (blast intro: keeps_trans mt_release_keeps io_at_keeps)
qed (use assms in \<open>auto simp: bind_ok_Inr_iff intro: run_at_keeps\<close>)

lemma io_step_keeps: "io_step k kr wr pc s = Inr s' \<Longrightarrow> keeps s' s"
  by (induction k kr wr pc s rule: io_step.induct)
    (auto split: option.splits if_splits dest: io_callback_keeps close_step_keeps)

lemma mt_mark_keeps: "mt_mark k p e s = Inr s' \<Longrightarrow> keeps s' s"
  by (auto simp: mt_mark_def keeps_def split: if_splits option.splits)

lemma mt_poll_keeps:
  assumes "poll (mt_mark k) w s ep = Inr (ps, s1, ep1)"
  shows "keeps s1 s"
  using mt_poll_marked [OF assms]
proof
  assume "\<exists>es qs. mark_ready (mt_mark k) es s = Inr (qs, s1)"
  then obtain es qs where m: "mark_ready (mt_mark k) es s = Inr (qs, s1)" by blast
  show ?thesis
    by (rule mark_ready_inv [where P = "\<lambda>t. keeps t s", OF _ m])
      (blast intro: keeps_trans mt_mark_keeps, simp)
qed simp

text \<open>The two steps that make a connection.\<close>

lemma robin_accepts:
  assumes "base_accepts oid uninit localr fd peer s = Inr s'" and "robin_inv s"
  shows "robin_inv s'"
proof -
  let ?L = "el_loops (mt_pool s)" and ?n = "length (mt_made s)"
  have i: "?L \<noteq> []" "distinct ?L" "el_currentIndex (mt_pool s) = ?n mod length ?L"
      "map snd (mt_made s) = map (\<lambda>i. ?L ! (i mod length ?L)) [0..<?n]"
    using assms(2) by (simp_all add: robin_inv_def Let_def)
  then have "el_currentIndex (mt_pool s) < length ?L" by simp
  from getNextLoop_step [OF i(1) this] assms(1) i(3) have
      "mt_made s' = mt_made s @ [(oid, ?L ! (?n mod length ?L))]" "el_loops (mt_pool s') = ?L"
      "el_currentIndex (mt_pool s') = (?n mod length ?L + 1) mod length ?L"
    by (auto simp: base_accepts_def)
  with i show ?thesis
    by (simp add: robin_inv_def Let_def mod_Suc_eq)
qed

lemma given_accepts:
  assumes "base_accepts oid uninit localr fd peer s = Inr s'" and "given_inv s" and "mt_heap s oid = None"
  shows "given_inv s'"
  using assms by (auto simp: base_accepts_def bind_ok_Inr_iff given_inv_def)

lemma inserting_chosen:
  assumes "base_step (Inserting oid c l) s = Inr s'"
  shows "robin_inv s \<Longrightarrow> robin_inv s'"
    and "given_inv s \<Longrightarrow> mt_base s = Inserting oid c l \<Longrightarrow> given_inv s'"
  using assms by (auto simp: robin_inv_def given_inv_def)

lemma chosen_do:
  assumes "mt_do m s = Some (Inr s')" and "robin_inv s \<and> given_inv s"
  shows "robin_inv s' \<and> given_inv s'"
  using assms
proof (induction m s rule: mt_do.induct)
  case (1 oid uninit localr fd peer s)
  then show ?case by (auto simp: fresh_def intro: robin_accepts given_accepts split: if_splits)
next
  case (2 s)
  then have b: "base_step (mt_base s) s = Inr s'" by (simp split: if_splits)
  show ?case
  proof (cases "\<exists>oid c l. mt_base s = Inserting oid c l")
    case True
    with b inserting_chosen 2(2) show ?thesis by metis
  next
    case False
    then have "keeps s' s" by (intro base_step_keeps [OF b]) simp
    with 2(2) robin_keeps given_keeps show ?thesis by blast
  qed
next
  case (3 k w s)
  then obtain ps s1 ep where p: "poll (mt_mark k) w s (mt_pollers s k) = Inr (ps, s1, ep)"
    and s': "s' = io_at k (Io_Active ps) (s1\<lparr>mt_pollers := (mt_pollers s1)(k := ep)\<rparr>)"
    by (auto simp: bind_ok_Inr_iff split: if_splits)
  have "keeps s' s" using mt_poll_keeps [OF p] by (simp add: s' io_at_def keeps_def)
  with 3(2) robin_keeps given_keeps show ?case by blast
next
  case (4 k kr wr s)
  then have "io_step k kr wr (mt_io s k) s = Inr s'" by (simp split: if_splits)
  from io_step_keeps [OF this] 4(2) robin_keeps given_keeps show ?case by blast
qed

interpretation chosen: state_invariant mt_start mt_step "\<lambda>s. robin_inv s \<and> given_inv s"
proof unfold_locales
  show "robin_inv s \<and> given_inv s" if "mt_start s" for s
    using that mt_start_pool [OF that] by (simp add: robin_inv_def given_inv_def mt_start_def)
  show "robin_inv t \<and> given_inv t" if "mt_step s t" and "robin_inv s \<and> given_inv s" for s t
    using that by (auto elim!: mt_stepE dest: chosen_do)
qed

text \<open>How often a residue is hit by the first \<open>m\<close> numbers.\<close>

lemma residues:
  assumes "0 < n" and "j < n"
  shows "count_list (map (\<lambda>i. i mod n) [0..<m]) j = m div n + (if j < m mod n then 1 else 0)"
proof (induction m)
  case (Suc m)
  have "count_list (map (\<lambda>i. i mod n) [0..<Suc m]) j
      = m div n + (if j < m mod n then 1 else 0) + (if m mod n = j then 1 else 0)"
    using Suc by simp
  moreover have "Suc m div n = (if Suc m mod n = 0 then Suc (m div n) else m div n)" by (rule div_Suc)
  moreover have "Suc m mod n = (if Suc (m mod n) = n then 0 else Suc (m mod n))" by (rule mod_Suc)
  ultimately show ?case using assms mod_less_divisor [OF assms(1), of m] by (auto split: if_splits)
qed simp

lemma count_nth:
  assumes "distinct L" and "j < length L" and "\<forall>i \<in> set xs. i < length L"
  shows "count_list (map (\<lambda>i. L ! i) xs) (L ! j) = count_list xs j"
  using assms(3) by (induction xs) (use assms(1,2) in \<open>auto simp: nth_eq_iff_index_eq\<close>)

lemma robin_count:
  assumes "robin_inv s" and "k \<in> io_loops s"
  shows "count_list (map snd (mt_made s)) k \<in> {length (mt_made s) div length (el_loops (mt_pool s)),
    Suc (length (mt_made s) div length (el_loops (mt_pool s)))}"
proof -
  let ?L = "el_loops (mt_pool s)" and ?m = "length (mt_made s)"
  have i: "?L \<noteq> []" "distinct ?L" and m: "map snd (mt_made s) = map (\<lambda>i. ?L ! (i mod length ?L)) [0..<?m]"
    using assms(1) by (simp_all add: robin_inv_def Let_def)
  from assms(2) obtain j where j: "j < length ?L" "?L ! j = k" by (auto simp: in_set_conv_nth)
  let ?is = "map (\<lambda>i. i mod length ?L) [0..<?m]"
  have l: "0 < length ?L" using i(1) by simp
  have "map snd (mt_made s) = map (\<lambda>i. ?L ! i) ?is" by (subst m) (simp add: comp_def)
  then have "count_list (map snd (mt_made s)) k = count_list (map (\<lambda>i. ?L ! i) ?is) (?L ! j)" using j(2) by simp
  also have "\<dots> = count_list ?is j" by (rule count_nth [OF i(2) j(1)]) (use l in auto)
  also have "\<dots> = ?m div length ?L + (if j < ?m mod length ?L then 1 else 0)" by (rule residues [OF l j(1)])
  finally show ?thesis by simp
qed

subsection \<open>Interleavings\<close>

definition mt_next :: "mt_move \<Rightarrow> threaded \<Rightarrow> threaded option" where
  "mt_next m s = (case mt_do m s of Some (Inr s') \<Rightarrow> Some s' | _ \<Rightarrow> None)"

lemma mt_next_iff: "mt_next m s = Some s' \<longleftrightarrow> mt_do m s = Some (Inr s')"
  by (auto simp: mt_next_def split: option.splits sum.splits)

lemma mt_run_reach:
  "schedule mt_next ms s = Some s' \<Longrightarrow> reach mt_start mt_step s \<Longrightarrow> reach mt_start mt_step s'"
  by (rule schedule_reach [where move = mt_next]) (auto simp: mt_next_iff intro: mt_stepI)

text \<open>
  Both threads inside an access to the map, and the base thread with a connection its loop
  polls already although its callback has not run.
\<close>

definition map_race :: "threaded \<Rightarrow> bool" where
  "map_race s \<longleftrightarrow> (case mt_base s of Inserting oid c l \<Rightarrow> True | _ \<Rightarrow> False)
     \<and> (\<exists>k \<in> io_loops s. case mt_io s k of Io_Closing Erasing p ts ps \<Rightarrow> True | _ \<Rightarrow> False)"

definition announced_late :: "nat \<Rightarrow> nat \<Rightarrow> threaded \<Rightarrow> bool" where
  "announced_late k oid s \<longleftrightarrow> mt_base s = Enabled oid \<and> mt_loop s oid = k \<and> mt_io s k = Io_Polling
     \<and> (\<exists>fd x. ep_interest (mt_pollers s k) fd = Some (x, oid))"

text \<open>Answers of the kernel that read nothing.\<close>

definition no_read :: "int \<Rightarrow> read_result" where
  "no_read = (\<lambda>_. Read_Fail EAGAIN)"

lemma no_read_fits [simp]: "read_fits no_read pc s"
  by (simp add: read_fits_def no_read_def reads_ok_def readv_within_def split: option.split)

lemma race_ready:
  assumes "mt_inv s" and "mt_base s = Base_Out" and "k \<in> io_loops s"
    and "mt_io s k = Io_Closing Close_Erase p ts ps" and "mt_heap s p \<noteq> None" and "fresh oid fd s"
  shows "\<exists>s'. schedule mt_next [Base_Accepts oid uninit localr fd peer, Io_Steps k no_read wr] s = Some s' \<and> map_race s'"
proof -
  note d = mt_goodD [OF assms(1) [unfolded mt_inv_def]]
  from assms(5) obtain c where c: "mt_heap s p = Some c" by blast
  have k: "mt_loop s p \<in> io_loops s" using d(4) [OF fd_of_heap [OF c]] .
  have "sv_heap (view (mt_loop s p) s) p = Some c" using c by (simp add: view_def)
  from server_invD(3) [OF d(3) [OF k] this] have "c_has_close c" by (simp add: server_conn_def)
  then show ?thesis
    using assms(2-6) c getNextLoop_step [OF d(1,2)]
    by (simp add: mt_next_def base_accepts_def mt_run_def mt_on_def fire_def map_race_def io_at_def)
      (rule bexI [of _ k], simp_all)
qed

lemma announced_alive:
  assumes "mt_inv s" and "announced_late k oid s"
  shows "\<exists>c. mt_heap s oid = Some c \<and> server_conn oid c \<and> k \<in> io_loops s \<and> oid \<noteq> k"
proof -
  note d = mt_goodD [OF assms(1) [unfolded mt_inv_def]]
  have h: "mt_base s = Enabled oid" "mt_loop s oid = k" using assms(2) by (simp_all add: announced_late_def)
  have "fd_of s oid \<noteq> None" using d(8) h(1) by (simp add: held_def)
  then obtain c where c: "mt_heap s oid = Some c" by auto
  have k: "k \<in> io_loops s" using d(4) [OF fd_of_heap [OF c]] h(2) by simp
  have v: "sv_heap (view k s) oid = Some c" using c h(2) by (simp add: view_def)
  note dk = server_invD [OF d(3) [OF k]]
  show ?thesis using c k dk(3) [OF v] dk(7) [OF v] by (auto simp: addresses_watch)
qed

text \<open>A poll that reports one connection.\<close>

lemma mt_poll_one:
  assumes "k \<in> io_loops s" and "mt_io s k = Io_Polling" and "mt_heap s oid = Some c" and "oid \<noteq> k"
    and "\<exists>fd x. ep_interest (mt_pollers s k) fd = Some (x, oid)"
  shows "\<exists>ep. ep_interest ep = ep_interest (mt_pollers s k)
    \<and> mt_next (Io_Polls k (Wait_Ready [(oid, e)])) s = Some (s\<lparr>
      mt_heap := (mt_heap s)(oid := Some (c\<lparr>c_channel := setREvents e (c_channel c)\<rparr>)),
      mt_pollers := (mt_pollers s)(k := ep), mt_io := (mt_io s)(k := Io_Active [oid])\<rparr>)"
proof -
  let ?ep = "if 1 = ep_capacity (mt_pollers s k)
    then (mt_pollers s k)\<lparr>ep_capacity := ep_capacity (mt_pollers s k) * 2\<rparr> else mt_pollers s k"
  have "ep_interest ?ep = ep_interest (mt_pollers s k)" by simp
  moreover have "mt_next (Io_Polls k (Wait_Ready [(oid, e)])) s = Some (s\<lparr>
      mt_heap := (mt_heap s)(oid := Some (c\<lparr>c_channel := setREvents e (c_channel c)\<rparr>)),
      mt_pollers := (mt_pollers s)(k := ?ep), mt_io := (mt_io s)(k := Io_Active [oid])\<rparr>)"
    using assms by (simp add: mt_next_def poll_def mt_mark_def io_at_def)
  ultimately show ?thesis by blast
qed

lemma early_tests:
  "read_test POLLIN" "\<not> close_test POLLIN" "\<not> error_test POLLIN"
  "close_test POLLHUP" "\<not> error_test POLLHUP" "\<not> read_test POLLHUP" "\<not> write_test POLLHUP"
  by (simp_all add: close_test_def error_test_def read_test_def write_test_def has_event_def poll_bits)

lemma early_message:
  assumes "mt_inv s" and "announced_late k oid s" and "mt_heap s oid = Some c"
    and "reads_ok kr (c_inputBuffer c)" and "kr (iov_capacity (c_inputBuffer c)) = Read_Bytes bs" and "bs \<noteq> []"
  shows "\<exists>s'. schedule mt_next (Io_Polls k (Wait_Ready [(oid, POLLIN)]) # replicate 4 (Io_Steps k kr wr)) s = Some s'
    \<and> mt_base s' = Enabled oid
    \<and> mt_log s' = mt_log s @ [(k, oid, Ev_Message (content (c_inputBuffer c) @ bs))]"
proof -
  have h: "mt_base s = Enabled oid" "mt_loop s oid = k" "mt_io s k = Io_Polling"
      "\<exists>fd x. ep_interest (mt_pollers s k) fd = Some (x, oid)"
    using assms(2) by (simp_all add: announced_late_def)
  from announced_alive [OF assms(1,2)] assms(3) have sc: "server_conn oid c" and k: "k \<in> io_loops s" "oid \<noteq> k"
    by auto
  then have cb: "ch_readCallback (c_channel c) = Some Conn_handleRead" "c_has_message c" "buf_inv (c_inputBuffer c)"
    by (simp_all add: server_conn_def)
  from assms(4,5) have "buf_room (c_inputBuffer c) (length bs)" "readv_within kr" by (simp_all add: reads_ok_def)
  from readFromFd_ok [where kernel_readv = kr, OF cb(3) this(1) assms(5) this(2)] obtain b where
      b: "readFromFd kr (c_inputBuffer c) = Inr (int (length bs), None, b)" "buf_inv b"
        "content b = content (c_inputBuffer c) @ bs"
    by blast
  have r: "readable_bytes b = Inr (content (c_inputBuffer c) @ bs)"
    using readable_bytes_ok [OF b(2)] b(3) by simp
  obtain ep where p: "mt_next (Io_Polls k (Wait_Ready [(oid, POLLIN)])) s = Some (s\<lparr>
      mt_heap := (mt_heap s)(oid := Some (c\<lparr>c_channel := setREvents POLLIN (c_channel c)\<rparr>)),
      mt_pollers := (mt_pollers s)(k := ep), mt_io := (mt_io s)(k := Io_Active [oid])\<rparr>)"
    using mt_poll_one [OF k(1) h(3) assms(3) k(2) h(4)] by blast
  show ?thesis
    unfolding schedule.simps p option.case
    using assms(4,6) k cb h(1,2) b(1) r
    by (simp add: numeral_eq_Suc mt_next_def read_fits_def setREvents_def early_tests io_at_def after_test_def
        mt_on_def read_event_def on_conn_def fire_def)
qed

text \<open>The statements of \<open>handleClose\<close> up to the erased entry, when another owner remains.\<close>

lemma close_phase:
  assumes "k \<in> io_loops s" and "mt_io s k = Io_Closing Close_Disable p ts ps" and "mt_heap s p = Some c"
    and "c_has_connection c" and "c_has_close c" and "base_holds (mt_base s) p"
  shows "schedule mt_next (replicate 5 (Io_Steps k no_read wr)) s = Some (s\<lparr>
    mt_heap := (mt_heap s)(p := Some (c\<lparr>c_channel := disableAll (c_channel c), c_state := DISCONNECTED\<rparr>)),
    mt_connections := (mt_connections s)(conn_fd c := None), mt_io := (mt_io s)(k := after_test p ts ps),
    mt_log := mt_log s @ [(k, p, Ev_Connection DISCONNECTED), (k, p, Ev_Close)]\<rparr>)"
  using assms
  by (simp add: numeral_eq_Suc mt_next_def io_at_def mt_run_def mt_on_def on_conn_def fire_def
      mt_release_def mt_owned_def disableAll_def conn_fd_def)

lemma early_close:
  assumes "mt_inv s" and "announced_late k oid s" and "mt_heap s oid = Some c"
    and "mt_connections s (conn_fd c) = Some oid"
    and "\<forall>j \<in> io_loops s. io_subject (mt_io s j) \<noteq> Some oid"
  shows "\<exists>s'. schedule mt_next (Io_Polls k (Wait_Ready [(oid, POLLHUP)])
      # replicate 10 (Io_Steps k no_read wr) @ replicate 3 Base_Steps) s = Some s'
    \<and> mt_log s' = mt_log s @ [(k, oid, Ev_Connection DISCONNECTED), (k, oid, Ev_Close),
        (el_baseLoop (mt_pool s), oid, Ev_Connection CONNECTED)]
    \<and> mt_base s' = Base_Out \<and> mt_heap s' oid = None \<and> mt_connections s' (conn_fd c) = None"
proof -
  have h: "mt_base s = Enabled oid" "mt_loop s oid = k" "mt_io s k = Io_Polling"
      "\<exists>fd x. ep_interest (mt_pollers s k) fd = Some (x, oid)"
    using assms(2) by (simp_all add: announced_late_def)
  from announced_alive [OF assms(1,2)] assms(3) have sc: "server_conn oid c" and k: "k \<in> io_loops s" "oid \<noteq> k"
    by auto
  then have cb: "ch_closeCallback (c_channel c) = Some Conn_handleClose" "c_has_connection c" "c_has_close c"
    by (simp_all add: server_conn_def)
  let ?c = "c\<lparr>c_channel := setREvents POLLHUP (c_channel c)\<rparr>" and ?S = "Io_Steps k no_read wr"
  obtain ep where p: "mt_next (Io_Polls k (Wait_Ready [(oid, POLLHUP)])) s = Some (s\<lparr>
      mt_heap := (mt_heap s)(oid := Some ?c), mt_pollers := (mt_pollers s)(k := ep),
      mt_io := (mt_io s)(k := Io_Active [oid])\<rparr>)"
    using mt_poll_one [OF k(1) h(3) assms(3) k(2) h(4)] by blast
  let ?s1 = "s\<lparr>mt_heap := (mt_heap s)(oid := Some ?c), mt_pollers := (mt_pollers s)(k := ep),
      mt_io := (mt_io s)(k := Io_Active [oid])\<rparr>"
  let ?ts = "[Test_Error, Test_Read, Test_Write]"
  let ?s2 = "?s1\<lparr>mt_io := (mt_io s)(k := Io_Closing Close_Disable oid ?ts [])\<rparr>"
  have r2: "schedule mt_next (replicate 2 ?S) ?s1 = Some ?s2"
    using k cb by (simp add: numeral_eq_Suc mt_next_def io_at_def setREvents_def early_tests)
  let ?c3 = "?c\<lparr>c_channel := disableAll (c_channel ?c), c_state := DISCONNECTED\<rparr>"
  let ?s3 = "?s2\<lparr>mt_heap := (mt_heap ?s2)(oid := Some ?c3),
    mt_connections := (mt_connections ?s2)(conn_fd ?c := None), mt_io := (mt_io ?s2)(k := after_test oid ?ts []),
    mt_log := mt_log ?s2 @ [(k, oid, Ev_Connection DISCONNECTED), (k, oid, Ev_Close)]\<rparr>"
  have r3: "schedule mt_next (replicate 5 ?S) ?s2 = Some ?s3"
    by (rule close_phase) (use k cb h(1) in simp_all)
  let ?s4 = "?s3\<lparr>mt_io := (mt_io s)(k := Io_Active [])\<rparr>"
  have r4: "schedule mt_next (replicate 3 ?S) ?s3 = Some ?s4"
    using k by (simp add: numeral_eq_Suc mt_next_def io_at_def setREvents_def disableAll_def early_tests after_test_def)
  have free: "\<not> (\<exists>j \<in> io_loops s. erases (((mt_io s)(k := Io_Active [])) j) oid)"
  proof
    assume "\<exists>j \<in> io_loops s. erases (((mt_io s)(k := Io_Active [])) j) oid"
    then obtain j where j: "j \<in> io_loops s" "erases (mt_io s j) oid" by (auto split: if_splits)
    then have "io_subject (mt_io s j) = Some oid" by (cases "(mt_io s j, oid)" rule: erases.cases) auto
    with assms(5) j(1) show False by blast
  qed
  have "\<exists>s'. schedule mt_next (replicate 3 Base_Steps) ?s4 = Some s'
    \<and> mt_log s' = mt_log s @ [(k, oid, Ev_Connection DISCONNECTED), (k, oid, Ev_Close),
        (el_baseLoop (mt_pool s), oid, Ev_Connection CONNECTED)]
    \<and> mt_base s' = Base_Out \<and> mt_heap s' oid = None \<and> mt_connections s' (conn_fd c) = None"
    using h(1) cb free
    by (simp add: numeral_eq_Suc mt_next_def mt_run_def mt_on_def on_conn_def fire_def mt_release_def mt_owned_def
        conn_fd_def setREvents_def disableAll_def)
  moreover have "replicate 10 ?S = replicate 2 ?S @ replicate 5 ?S @ replicate 3 ?S"
    by (simp add: numeral_eq_Suc)
  ultimately show ?thesis
    using p r2 r3 r4 by (simp only: schedule.simps schedule_append option.case append.assoc)
qed

text \<open>The loop of the next connection; a client accepted, up to the second statement of \<open>established\<close>.\<close>

definition next_loop :: "threaded \<Rightarrow> nat" where
  "next_loop s = el_loops (mt_pool s) ! el_currentIndex (mt_pool s)"

definition accept_moves :: "nat \<Rightarrow> int \<Rightarrow> sockaddr_in option \<Rightarrow> int \<Rightarrow> sockaddr_in \<Rightarrow> mt_move list" where
  "accept_moves oid uninit localr fd peer = [Base_Accepts oid uninit localr fd peer, Base_Steps, Base_Steps]"

lemma fresh_interest:
  assumes "mt_inv s" and "fresh oid fd s" and "k \<in> io_loops s"
  shows "ep_interest (mt_pollers s k) fd = None"
proof (rule ccontr)
  note d = mt_goodD [OF assms(1) [unfolded mt_inv_def]]
  assume "ep_interest (mt_pollers s k) fd \<noteq> None"
  then obtain e p where "ep_interest (sv_epoller (view k s)) fd = Some (e, p)" by (auto simp: view_def)
  moreover have "watch s k fd = None" using assms(2,3) by (auto simp: watch_def fresh_def)
  ultimately obtain c where "sv_heap (view k s) p = Some c" "conn_fd c = fd"
    using server_invD(5) [OF d(3) [OF assms(3)]] by blast
  with server_invD(2) [OF d(3) [OF assms(3)]] have "fd \<in> mt_fds s" by (auto simp: view_def)
  with assms(2) show False by (simp add: fresh_def)
qed

lemma accepted:
  assumes "mt_inv s" and "mt_base s = Base_Out" and "fresh oid fd s" and "mt_io s (next_loop s) = Io_Polling"
  shows "\<exists>s' c. schedule mt_next (accept_moves oid uninit localr fd peer) s = Some s'
    \<and> announced_late (next_loop s) oid s' \<and> mt_heap s' = (mt_heap s)(oid := Some c) \<and> c_inputBuffer c = new_buffer 1024
    \<and> conn_fd c = fd \<and> mt_connections s' fd = Some oid \<and> mt_io s' = mt_io s \<and> mt_log s' = mt_log s
    \<and> mt_fds s' = insert fd (mt_fds s) \<and> mt_wake s' = mt_wake s \<and> mt_made s' = mt_made s @ [(oid, next_loop s)]
    \<and> el_baseLoop (mt_pool s') = el_baseLoop (mt_pool s) \<and> el_loops (mt_pool s') = el_loops (mt_pool s)"
proof -
  note d = mt_goodD [OF assms(1) [unfolded mt_inv_def]]
  let ?k = "next_loop s"
  have k: "?k \<in> io_loops s" using d(2) by (simp add: next_loop_def)
  have none: "ep_interest (mt_pollers s ?k) fd = None" by (rule fresh_interest [OF assms(1,3) k])
  have deny: "\<not> ep_deny (mt_pollers s ?k)" using server_invD(8) [OF d(3) [OF k]] by (simp add: view_def)
  show ?thesis
    using assms(2-4) getNextLoop_step [OF d(1,2)] none deny
    unfolding accept_moves_def
    by (simp add: mt_next_def base_accepts_def mt_run_def mt_on_def announced_late_def next_loop_def [symmetric]
        tcp_ctor_def conn_fd_def new_channel_def on_channel_def enableReading_def set_reading_def updateChannel_def
        controlEpoll_def epoll_ctl_def Let_def)
      (rule conjI, rule exI [of _ fd], simp, rule exI, rule conjI, rule refl, simp)
qed

text \<open>The loop closes a connection up to its map entry while the base thread establishes it.\<close>

lemma closes_meanwhile:
  assumes "mt_inv s" and "announced_late k oid s" and "mt_heap s oid = Some c"
    and "mt_connections s (conn_fd c) = Some oid"
  shows "\<exists>s' ts ps. schedule mt_next (Io_Polls k (Wait_Ready [(oid, POLLHUP)])
      # replicate 5 (Io_Steps k no_read wr) @ replicate 3 Base_Steps) s = Some s'
    \<and> mt_base s' = Base_Out \<and> mt_io s' k = Io_Closing Close_Erase oid ts ps \<and> mt_heap s' oid \<noteq> None
    \<and> (\<forall>i. mt_heap s i = None \<longrightarrow> mt_heap s' i = None) \<and> mt_fds s' = mt_fds s \<and> mt_wake s' = mt_wake s
    \<and> el_loops (mt_pool s') = el_loops (mt_pool s)"
proof -
  have h: "mt_base s = Enabled oid" "mt_loop s oid = k" "mt_io s k = Io_Polling"
      "\<exists>fd x. ep_interest (mt_pollers s k) fd = Some (x, oid)"
    using assms(2) by (simp_all add: announced_late_def)
  from announced_alive [OF assms(1,2)] assms(3) have sc: "server_conn oid c" and k: "k \<in> io_loops s" "oid \<noteq> k"
    by auto
  then have cb: "ch_closeCallback (c_channel c) = Some Conn_handleClose" "c_has_connection c" "c_has_close c"
    by (simp_all add: server_conn_def)
  obtain ep where p: "mt_next (Io_Polls k (Wait_Ready [(oid, POLLHUP)])) s = Some (s\<lparr>
      mt_heap := (mt_heap s)(oid := Some (c\<lparr>c_channel := setREvents POLLHUP (c_channel c)\<rparr>)),
      mt_pollers := (mt_pollers s)(k := ep), mt_io := (mt_io s)(k := Io_Active [oid])\<rparr>)"
    using mt_poll_one [OF k(1) h(3) assms(3) k(2) h(4)] by blast
  show ?thesis
    unfolding schedule.simps p option.case
    using k cb h(1,2) assms(3,4)
    by (simp add: numeral_eq_Suc mt_next_def setREvents_def early_tests io_at_def after_test_def disableAll_def
        mt_run_def mt_on_def on_conn_def fire_def mt_release_def mt_owned_def conn_fd_def)
qed

text \<open>The invariant, as it reads for pollers, connections and the map.\<close>

lemma mt_inv_interest:
  assumes "mt_inv s" and "k \<in> io_loops s" and "ep_interest (mt_pollers s k) fd = Some (e, p)"
  shows "fd = mt_wake s k \<and> (e, p) = (READ, k) \<or> (\<exists>c. mt_heap s p = Some c \<and> mt_loop s p = k \<and> conn_fd c = fd)"
proof -
  note d = server_invD [OF mt_goodD(3) [OF assms(1) [unfolded mt_inv_def] assms(2)]]
  have i: "ep_interest (sv_epoller (view k s)) fd = Some (e, p)" using assms(3) by (simp add: view_def)
  show ?thesis
  proof (cases "fd = mt_wake s k")
    case True
    with d(6) [of fd "(READ, k)"] i show ?thesis by (simp add: watch_def)
  next
    case False
    with d(5) [of fd e p] i show ?thesis by (auto simp: watch_def view_def split: if_splits)
  qed
qed

lemma mt_inv_owned:
  assumes "mt_inv s" and "mt_heap s oid \<noteq> None"
  shows "mt_loop s oid \<in> io_loops s \<and> mt_owned oid s"
proof -
  note d = mt_goodD [OF assms(1) [unfolded mt_inv_def]]
  from assms(2) obtain c where "fd_of s oid = Some (conn_fd c)" using fd_of_heap by blast
  with d(4,8) show ?thesis by (auto simp: mt_owned_iff held_def)
qed

lemma mt_inv_map:
  assumes "mt_inv s" and "mt_connections s fd = Some oid"
  shows "\<exists>c. mt_heap s oid = Some c \<and> conn_fd c = fd"
  using mt_goodD(6) [OF assms(1) [unfolded mt_inv_def] assms(2)] by (auto simp: fd_of_def)

text \<open>A first read of at most 1024 bytes fits the empty input buffer.\<close>

definition reads_bytes :: "byte list \<Rightarrow> int \<Rightarrow> read_result" where
  "reads_bytes bs = (\<lambda>n. Read_Bytes (take (nat n) bs))"

lemma first_read:
  assumes "length bs \<le> 1024"
  shows "reads_ok (reads_bytes bs) (new_buffer 1024)"
    and "reads_bytes bs (iov_capacity (new_buffer 1024)) = Read_Bytes bs"
  using assms by (auto simp: reads_bytes_def reads_ok_def readv_within_def buf_room_def new_buffer_def buf_consts
      iov_capacity_def writableBytes_def buf_size_def sizeof_extrabuf_def cint)

section \<open>Examples\<close>

text \<open>A base loop at address 40 and two extra loops, at addresses 50 and 51, with eventfds 150 and 151.\<close>

definition ex_loop :: "nat \<Rightarrow> loop_object outcome" where
  "ex_loop k = loop_ctor False k (int k) (int k + 100)"

definition ex_threads :: threaded where
  "ex_threads = \<lparr>mt_connections = (\<lambda>_. None), mt_heap = (\<lambda>_. None), mt_loop = (\<lambda>_. 0),
     mt_pollers = (\<lambda>k. lo_poller (projr (ex_loop k))), mt_wake = (\<lambda>k. int k + 100),
     mt_pool = fst (loop_pool_start (\<lambda>i. 50 + i) False (loop_pool_ctor 40 2)), mt_fds = {},
     mt_has_message = True, mt_has_writeComplete = False, mt_base = Base_Out, mt_io = (\<lambda>_. Io_Polling),
     mt_wire = (\<lambda>_. []), mt_made = [], mt_log = []\<rparr>"

lemma ex_threads_pool:
  "el_loops (mt_pool ex_threads) = [50, 51]" "el_baseLoop (mt_pool ex_threads) = 40"
  "el_currentIndex (mt_pool ex_threads) = 0"
  by (simp_all add: ex_threads_def loop_pool_start_def loop_pool_ctor_def Let_def numeral_2_eq_2)

lemma ex_loop_ctor: "loop_ctor False k (int k) (int k + 100) = Inr (projr (ex_loop k))"
  by (simp add: ex_loop_def loop_ctor_def new_epoller_def Let_def split: prod.split)

lemma ex_threads_start: "mt_start ex_threads"
proof -
  have "fst (loop_pool_start (\<lambda>i. 50 + i) False (loop_pool_ctor 40 2)) = mt_pool ex_threads"
    by (simp add: ex_threads_def)
  then have "\<exists>base num made has_cb. 0 < num
      \<and> fst (loop_pool_start made has_cb (loop_pool_ctor base num)) = mt_pool ex_threads"
    using zero_less_numeral by blast
  moreover have "mt_pollers ex_threads k = lo_poller (projr (ex_loop k))" "mt_wake ex_threads k = int k + 100" for k
    by (simp_all add: ex_threads_def)
  ultimately show ?thesis
    unfolding mt_start_def ex_threads_pool using ex_loop_ctor [of 50] ex_loop_ctor [of 51]
    by (auto simp: ex_threads_def)
qed

text \<open>A client accepted there: connection 3 on descriptor 7, announced by the base thread after one more statement.\<close>

definition ex_accepted :: threaded where
  "ex_accepted = the (schedule mt_next (accept_moves 3 0 None 7 zero_addr) ex_threads)"

lemma ex_threads_reach: "reach mt_start mt_step ex_threads"
  using ex_threads_start by (rule reach_start)

lemma ex_threads_next: "next_loop ex_threads = 50"
  by (simp add: next_loop_def ex_threads_pool)

lemma ex_threads_fresh: "fresh 3 7 ex_threads" "fresh 9 8 ex_threads"
  by (simp_all add: fresh_def ex_threads_pool) (simp_all add: ex_threads_def)

lemma ex_threads_idle: "mt_base ex_threads = Base_Out" "mt_io ex_threads k = Io_Polling"
  by (simp_all add: ex_threads_def)

lemma ex_accepted_eq:
  "\<exists>c. schedule mt_next (accept_moves 3 0 None 7 zero_addr) ex_threads = Some ex_accepted
    \<and> announced_late 50 3 ex_accepted \<and> mt_heap ex_accepted = [3 \<mapsto> c] \<and> c_inputBuffer c = new_buffer 1024
    \<and> conn_fd c = 7 \<and> mt_connections ex_accepted 7 = Some 3 \<and> mt_io ex_accepted = (\<lambda>_. Io_Polling)
    \<and> mt_log ex_accepted = [] \<and> mt_made ex_accepted = [(3, 50)] \<and> el_loops (mt_pool ex_accepted) = [50, 51]"
proof -
  have "mt_inv ex_threads" by (rule mts.reach_inv [OF ex_threads_reach])
  from accepted [where oid = 3 and fd = 7 and uninit = 0 and localr = None and peer = zero_addr, OF this]
  obtain s' c where a: "schedule mt_next (accept_moves 3 0 None 7 zero_addr) ex_threads = Some s'"
      "announced_late 50 3 s'" "mt_heap s' = (mt_heap ex_threads)(3 \<mapsto> c)" "c_inputBuffer c = new_buffer 1024"
      "conn_fd c = 7" "mt_connections s' 7 = Some 3" "mt_io s' = mt_io ex_threads" "mt_log s' = mt_log ex_threads"
      "mt_made s' = mt_made ex_threads @ [(3, 50)]" "el_loops (mt_pool s') = [50, 51]"
    using ex_threads_fresh(1) ex_threads_idle ex_threads_next ex_threads_pool(1) by auto
  moreover have "s' = ex_accepted" using a(1) by (simp add: ex_accepted_def)
  ultimately show ?thesis by (auto simp: ex_threads_def)
qed

lemma ex_accepted_reach: "reach mt_start mt_step ex_accepted"
  using ex_accepted_eq mt_run_reach [OF _ ex_threads_reach] by blast

section \<open>Properties\<close>

text \<open>
  C5. In every reachable state of the server with extra threads, whatever the interleaving of the
  statements: each entry of a loop's poller is that of its own eventfd or of a living connection
  of that loop with that descriptor, so that the kernel never returns a dangling pointer; each
  entry of the map names a living connection with the descriptor it is stored under; and each
  living connection belongs to a loop of the pool and has an owner.
\<close>

theorem threads_safe:
  assumes "reach mt_start mt_step s"
  shows "(\<forall>k \<in> io_loops s. \<forall>fd e p. ep_interest (mt_pollers s k) fd = Some (e, p) \<longrightarrow>
      fd = mt_wake s k \<and> (e, p) = (READ, k)
      \<or> (\<exists>c. mt_heap s p = Some c \<and> mt_loop s p = k \<and> conn_fd c = fd))
    \<and> (\<forall>fd oid. mt_connections s fd = Some oid \<longrightarrow> (\<exists>c. mt_heap s oid = Some c \<and> conn_fd c = fd))
    \<and> (\<forall>oid. mt_heap s oid \<noteq> None \<longrightarrow> mt_loop s oid \<in> io_loops s \<and> mt_owned oid s)"
proof -
  have inv: "mt_inv s" by (rule mts.reach_inv [OF assms])
  show ?thesis using mt_inv_interest [OF inv] mt_inv_owned [OF inv] mt_inv_map [OF inv] by blast
qed

theorem threads_safe_witness:
  "(\<exists>c. mt_heap ex_accepted 3 = Some c \<and> conn_fd c = 7) \<and> mt_owned 3 ex_accepted"
  using threads_safe [OF ex_accepted_reach] ex_accepted_eq by auto


text \<open>
  C6. The map of connections is not protected: from every reachable state in which the base thread is
  idle, the loop that is next polls, and two clients come, there is a schedule of both threads
  after which the base thread is inside the assignment that adds a connection to the map while
  the thread of the loop is inside the call that erases one from it.
\<close>

theorem unlocked_map_race:
  assumes "reach mt_start mt_step s" and "mt_base s = Base_Out" and "mt_io s (next_loop s) = Io_Polling"
    and "fresh oid fd s" and "fresh oid' fd' s" and "oid \<noteq> oid'" and "fd \<noteq> fd'"
  shows "\<exists>ms s'. schedule mt_next ms s = Some s' \<and> map_race s'"
proof -
  let ?k = "next_loop s" and ?moves = "accept_moves oid 0 None fd zero_addr"
  have inv: "mt_inv s" by (rule mts.reach_inv [OF assms(1)])
  from accepted [where uninit = 0 and localr = None and peer = zero_addr, OF inv assms(2,4,3)]
  obtain s1 c where a: "schedule mt_next ?moves s = Some s1"
      "announced_late ?k oid s1" "mt_heap s1 = (mt_heap s)(oid \<mapsto> c)" "conn_fd c = fd"
      "mt_connections s1 fd = Some oid" "mt_fds s1 = insert fd (mt_fds s)" "mt_wake s1 = mt_wake s"
      "io_loops s1 = io_loops s" by auto
  have r1: "reach mt_start mt_step s1" by (rule mt_run_reach [OF a(1) assms(1)])
  have h1: "mt_heap s1 oid = Some c" "mt_connections s1 (conn_fd c) = Some oid" using a(3-5) by simp_all
  have k: "?k \<in> io_loops s1" using announced_alive [OF mts.reach_inv [OF r1] a(2)] by blast
  from closes_meanwhile [OF mts.reach_inv [OF r1] a(2) h1]
  obtain s2 ts ps ms2 where b: "schedule mt_next ms2 s1 = Some s2" "mt_base s2 = Base_Out"
      "mt_io s2 ?k = Io_Closing Close_Erase oid ts ps" "mt_heap s2 oid \<noteq> None"
      "\<forall>i. mt_heap s1 i = None \<longrightarrow> mt_heap s2 i = None" "mt_fds s2 = mt_fds s1" "mt_wake s2 = mt_wake s1"
      "io_loops s2 = io_loops s1" by metis
  have inv2: "mt_inv s2" by (rule mts.reach_inv [OF mt_run_reach [OF b(1) r1]])
  have "fresh oid' fd' s2" using assms(5-7) a(3,6-8) b(5-8) by (simp add: fresh_def)
  with race_ready [OF inv2 b(2) _ b(3,4)] k b(8)
  obtain ms3 s3 where "schedule mt_next ms3 s2 = Some s3" "map_race s3" by metis
  then have "schedule mt_next (?moves @ ms2 @ ms3) s = Some s3" using a(1) b(1) by (simp add: schedule_append)
  with \<open>map_race s3\<close> show ?thesis by blast
qed

theorem unlocked_map_race_witness:
  "\<exists>ms s'. schedule mt_next ms ex_threads = Some s' \<and> map_race s'"
  by (rule unlocked_map_race [OF ex_threads_reach, where oid = 3 and fd = 7 and oid' = 9 and fd' = 8])
    (simp_all add: ex_threads_idle ex_threads_fresh)


text \<open>
  C7. Callbacks out of order: the base thread runs \<open>established\<close> of a connection another thread
  serves. From every reachable state with an idle base thread and the next loop in its poll,
  there is a schedule in which the message callback of a new client runs and the connection is
  still to be announced; and one in which the connection is closed before it is announced: its
  callback is told DISCONNECTED, the close callback runs and then the base thread reports
  CONNECTED, after which the object is gone.
\<close>

theorem callbacks_out_of_order:
  assumes "reach mt_start mt_step s" and "mt_base s = Base_Out" and "mt_io s (next_loop s) = Io_Polling"
    and "fresh oid fd s" and "\<forall>j \<in> io_loops s. io_subject (mt_io s j) \<noteq> Some oid"
    and "bs \<noteq> []" and "length bs \<le> 1024"
  shows "(\<exists>ms s'. schedule mt_next ms s = Some s' \<and> mt_base s' = Enabled oid
      \<and> mt_log s' = mt_log s @ [(next_loop s, oid, Ev_Message bs)])
    \<and> (\<exists>ms s'. schedule mt_next ms s = Some s' \<and> mt_heap s' oid = None
      \<and> mt_log s' = mt_log s @ [(next_loop s, oid, Ev_Connection DISCONNECTED), (next_loop s, oid, Ev_Close),
          (el_baseLoop (mt_pool s), oid, Ev_Connection CONNECTED)])"
proof -
  let ?k = "next_loop s" and ?moves = "accept_moves oid 0 None fd zero_addr"
  have inv: "mt_inv s" by (rule mts.reach_inv [OF assms(1)])
  from accepted [where uninit = 0 and localr = None and peer = zero_addr, OF inv assms(2,4,3)]
  obtain s1 c where a: "schedule mt_next ?moves s = Some s1" "announced_late ?k oid s1"
      "mt_heap s1 = (mt_heap s)(oid \<mapsto> c)" "c_inputBuffer c = new_buffer 1024" "conn_fd c = fd"
      "mt_connections s1 fd = Some oid" "mt_io s1 = mt_io s" "mt_log s1 = mt_log s"
      "el_baseLoop (mt_pool s1) = el_baseLoop (mt_pool s)" "io_loops s1 = io_loops s" by auto
  have h: "mt_heap s1 oid = Some c" "mt_connections s1 (conn_fd c) = Some oid"
      "\<forall>j \<in> io_loops s1. io_subject (mt_io s1 j) \<noteq> Some oid" using a(3,5-7,10) assms(5) by simp_all
  have inv1: "mt_inv s1" by (rule mts.reach_inv [OF mt_run_reach [OF a(1) assms(1)]])
  note extend = schedule_append [of mt_next ?moves _ s, unfolded a(1), simplified]
  have "\<exists>s' ms. schedule mt_next ms s1 = Some s' \<and> mt_base s' = Enabled oid
      \<and> mt_log s' = mt_log s @ [(?k, oid, Ev_Message bs)]"
    using early_message [OF inv1 a(2) h(1), of "reads_bytes bs" bs "Wrote 0"]
    unfolding a(4,8) new_buffer_content append_Nil using first_read [OF assms(7)] assms(6) by blast
  moreover have "\<exists>s' ms. schedule mt_next ms s1 = Some s' \<and> mt_heap s' oid = None
      \<and> mt_log s' = mt_log s @ [(?k, oid, Ev_Connection DISCONNECTED), (?k, oid, Ev_Close),
          (el_baseLoop (mt_pool s), oid, Ev_Connection CONNECTED)]"
    using early_close [OF inv1 a(2) h, of "Wrote 0"] unfolding a(8,9) by blast
  ultimately show ?thesis using extend by metis
qed


theorem callbacks_out_of_order_witness:
  "\<exists>ms s'. schedule mt_next ms ex_threads = Some s' \<and> mt_heap s' 3 = None
      \<and> mt_log s' = [(50, 3, Ev_Connection DISCONNECTED), (50, 3, Ev_Close), (40, 3, Ev_Connection CONNECTED)]"
  using callbacks_out_of_order [OF ex_threads_reach, where oid = 3 and fd = 7 and bs = "[1]"]
  by (simp add: ex_threads_idle ex_threads_fresh ex_threads_next ex_threads_pool) (simp add: ex_threads_def)

text \<open>
  C36. The connections made are balanced: in every reachable state of the server with extra
  threads, the loops chosen by \<open>newConnection\<close> for the connections made so far (those closed
  since included) are those of the pool in turn, their numbers for any two loops differ by at
  most one, and every connection that lives is in the loop that was chosen when it was made.
  Of the connections still open nothing is said about the balance: closing one does not
  change the turn.
\<close>

theorem loops_balanced:
  assumes "reach mt_start mt_step s" and "j \<in> io_loops s" and "k \<in> io_loops s"
  shows "map snd (mt_made s)
      = map (\<lambda>i. el_loops (mt_pool s) ! (i mod length (el_loops (mt_pool s)))) [0..<length (mt_made s)]
    \<and> count_list (map snd (mt_made s)) j \<le> count_list (map snd (mt_made s)) k + 1
    \<and> (\<forall>oid. mt_heap s oid \<noteq> None \<longrightarrow> map_of (rev (mt_made s)) oid = Some (mt_loop s oid))"
proof -
  have inv: "robin_inv s" and "given_inv s" using chosen.reach_inv [OF assms(1)] by blast+
  then show ?thesis
    using robin_count [OF inv assms(2)] robin_count [OF inv assms(3)]
    by (auto simp: robin_inv_def given_inv_def Let_def)
qed

theorem loops_balanced_witness:
  "mt_loop ex_accepted 3 = 50 \<and> count_list (map snd (mt_made ex_accepted)) 50 = 1
    \<and> count_list (map snd (mt_made ex_accepted)) 50 \<le> count_list (map snd (mt_made ex_accepted)) 51 + 1"
proof -
  have e: "el_loops (mt_pool ex_accepted) = [50, 51]" "mt_heap ex_accepted 3 \<noteq> None"
      "mt_made ex_accepted = [(3, 50)]"
    using ex_accepted_eq by auto
  have "map_of (rev (mt_made ex_accepted)) 3 = Some (mt_loop ex_accepted 3)
      \<and> count_list (map snd (mt_made ex_accepted)) 50 \<le> count_list (map snd (mt_made ex_accepted)) 51 + 1"
    using loops_balanced [OF ex_accepted_reach, of 50 51] e(1,2) by auto
  then show ?thesis by (simp add: e(3))
qed

end
