(* ===== verification/Send_Threads.thy ===== *)
theory Send_Threads
  imports Tcp_Connection "HOL-Library.Multiset" "HOL-Library.Sublist"
begin

text \<open>
  \<open>TcpConnection::send\<close> called by several threads. The function takes no lock and does not hand
  the message to the loop of the connection, so the two halves of \<open>send\<close>, the direct write and
  the queueing of what remains, interleave with those of other threads and with the write
  events of the loop. Each half, and each write event, is one step; what two threads do at the
  same time inside one half (a data race on the buffer) is left out.
\<close>

section \<open>Definitions\<close>

text \<open>A thread outside \<open>send\<close>, or between its halves, with the locals \<open>written\<close>, \<open>remain\<close>, \<open>hasError\<close>.\<close>

datatype send_pc =
    Send_Idle
  | Send_Rest "byte list" int int bool

text \<open>
  \<open>sd_sent\<close> records the messages of the calls that wrote at once, in the order of the writes;
  the other calls drop their message.
\<close>

record sending =
  sd_world :: tcp_world
  sd_pcs :: "nat \<Rightarrow> send_pc"
  sd_sent :: "byte list list"

datatype send_move =
    Send_Writes nat write_result "byte list"
  | Send_Queues nat
  | Loop_Writes write_result

fun send_do :: "send_move \<Rightarrow> sending \<Rightarrow> sending outcome option" where
  "send_do (Send_Writes t wr m) s =
     (if sd_pcs s t = Send_Idle
      then Some (bind_ok (send_direct wr m (to_int32 (int (length m))) (sd_world s)) (\<lambda>(written, remain, hasError, w).
        Inr (s\<lparr>sd_world := w, sd_pcs := (sd_pcs s)(t := Send_Rest m written remain hasError),
               sd_sent := sd_sent s @ (if accepts wr m (sd_world s) = [] then [] else [m])\<rparr>)))
      else None)"
| "send_do (Send_Queues t) s =
     (case sd_pcs s t of
        Send_Idle \<Rightarrow> None
      | Send_Rest m written remain hasError \<Rightarrow>
          Some (bind_ok (send_queue m written remain hasError (sd_world s)) (\<lambda>w.
            Inr (s\<lparr>sd_world := w, sd_pcs := (sd_pcs s)(t := Send_Idle)\<rparr>))))"
| "send_do (Loop_Writes wr) s =
     Some (bind_ok (conn_handleWrite wr (sd_world s)) (\<lambda>w. Inr (s\<lparr>sd_world := w\<rparr>)))"

text \<open>The kernel keeps its contract, and the messages and the queue stay within an \<open>int\<close>.\<close>

fun send_ok_move :: "send_move \<Rightarrow> sending \<Rightarrow> bool" where
  "send_ok_move (Send_Writes t wr m) s \<longleftrightarrow> int (length m) < 2147483648 \<and> write_within wr (length m)"
| "send_ok_move (Send_Queues t) s \<longleftrightarrow>
     (case sd_pcs s t of Send_Idle \<Rightarrow> True
      | Send_Rest m k r e \<Rightarrow> buf_room (c_outputBuffer (tw_conn (sd_world s))) (length m))"
| "send_ok_move (Loop_Writes wr) s \<longleftrightarrow> write_within wr (length (outq (sd_world s)))"

definition send_next :: "send_move \<Rightarrow> sending \<Rightarrow> sending option" where
  "send_next m s = (if send_ok_move m s then (case send_do m s of Some (Inr s') \<Rightarrow> Some s' | _ \<Rightarrow> None) else None)"

inductive send_step :: "sending \<Rightarrow> sending \<Rightarrow> bool" where
  send_stepI: "send_next m s = Some s' \<Longrightarrow> send_step s s'"

inductive_cases send_stepE: "send_step s s'"

definition send_start :: "sending \<Rightarrow> bool" where
  "send_start s \<longleftrightarrow> tcp_inv (sd_world s) \<and> high_water_safe (tw_conn (sd_world s)) \<and> outq (sd_world s) = []
     \<and> tw_wire (sd_world s) = [] \<and> sd_pcs s = (\<lambda>_. Send_Idle) \<and> sd_sent s = []"

section \<open>Lemmas\<close>

text \<open>The stream, and what the threads between the halves of \<open>send\<close> are still to queue.\<close>

definition stream_of :: "sending \<Rightarrow> byte list" where
  "stream_of s = tw_wire (sd_world s) @ outq (sd_world s)"

fun unsent :: "send_pc \<Rightarrow> byte list" where
  "unsent Send_Idle = []"
| "unsent (Send_Rest m k r e) = (if r > 0 then drop (nat k) m else [])"

text \<open>
  What the locals of a thread can be: nothing is left to queue, or a message of which the first
  bytes are in the stream already and the others are to be appended.
\<close>

fun rest_ok :: "byte list \<Rightarrow> send_pc \<Rightarrow> bool" where
  "rest_ok str Send_Idle \<longleftrightarrow> True"
| "rest_ok str (Send_Rest m k r e) \<longleftrightarrow> r \<le> 0
     \<or> (\<not> e \<and> 0 \<le> k \<and> k + r = int (length m) \<and> subseq (take (nat k) m) str)"

text \<open>What all threads are still to queue; only finitely many have something.\<close>

definition pending :: "(nat \<Rightarrow> send_pc) \<Rightarrow> byte multiset" where
  "pending f = (\<Sum>u | unsent (f u) \<noteq> []. mset (unsent (f u)))"

text \<open>Every message sent is in the stream, in order, or a thread holds what is missing at its end.\<close>

definition send_inv :: "sending \<Rightarrow> bool" where
  "send_inv s \<longleftrightarrow> tcp_inv (sd_world s) \<and> high_water_safe (tw_conn (sd_world s)) \<and> finite {u. unsent (sd_pcs s u) \<noteq> []}
     \<and> (\<forall>t. rest_ok (stream_of s) (sd_pcs s t))
     \<and> mset (stream_of s) + pending (sd_pcs s) = mset (concat (sd_sent s))
     \<and> (\<forall>m \<in> set (sd_sent s). subseq m (stream_of s) \<or> (\<exists>t k r e. sd_pcs s t = Send_Rest m k r e \<and> r > 0))"

lemma rest_ok_append: "rest_ok str pc \<Longrightarrow> rest_ok (str @ xs) pc"
  by (cases pc) (auto intro: subseq_append')


text \<open>What is pending when one thread moves.\<close>

lemma pending_over:
  assumes "finite A" and "{u. unsent (f u) \<noteq> []} \<subseteq> A"
  shows "pending f = (\<Sum>u\<in>A. mset (unsent (f u)))"
  unfolding pending_def using assms by (intro sum.mono_neutral_left) auto

lemma pending_update:
  assumes "finite {u. unsent (f u) \<noteq> []}"
  shows "finite {u. unsent ((f(t := pc)) u) \<noteq> []}"
    and "pending (f(t := pc)) + mset (unsent (f t)) = pending f + mset (unsent pc)"
proof -
  let ?A = "insert t {u. unsent (f u) \<noteq> []}"
  have sub: "{u. unsent ((f(t := pc)) u) \<noteq> []} \<subseteq> ?A" by auto
  have fin: "finite ?A" using assms by simp
  show "finite {u. unsent ((f(t := pc)) u) \<noteq> []}" using sub fin by (rule finite_subset)
  have "pending (f(t := pc)) = mset (unsent pc) + (\<Sum>u\<in>?A - {t}. mset (unsent ((f(t := pc)) u)))"
    unfolding pending_over [OF fin sub] sum.remove [OF fin insertI1] by simp
  moreover have "(\<Sum>u\<in>?A - {t}. mset (unsent ((f(t := pc)) u))) = (\<Sum>u\<in>?A - {t}. mset (unsent (f u)))"
    by (rule sum.cong) auto
  moreover have "pending f = mset (unsent (f t)) + (\<Sum>u\<in>?A - {t}. mset (unsent (f u)))"
    unfolding pending_over [OF fin subset_insertI] sum.remove [OF fin insertI1] by simp
  ultimately show "pending (f(t := pc)) + mset (unsent (f t)) = pending f + mset (unsent pc)"
    by (simp add: ac_simps)
qed

text \<open>The direct write: nothing happens, or the message is new in the stream up to its rest.\<close>

lemma send_direct_cases:
  assumes "tcp_inv w" and "int (length m) < 2147483648" and "write_within wr (length m)"
  obtains k r e w' where "send_direct wr m (to_int32 (int (length m))) w = Inr (k, r, e, w')"
    and "tw_conn w' = tw_conn w" and "tw_epoller w' = tw_epoller w" and "r \<le> 0"
    and "tw_wire w' = tw_wire w" and "accepts wr m w = []"
  | k w' where "wr = Wrote k" and "outq w = []" and "accepts wr m w = m" and "k \<le> length m"
    and "send_direct wr m (to_int32 (int (length m))) w = Inr (int k, int (length m - k), False, w')"
    and "tw_conn w' = tw_conn w" and "tw_epoller w' = tw_epoller w" and "tw_wire w' = tw_wire w @ take k m"
proof -
  have len: "to_int32 (int (length m)) = int (length m)" using assms(2) by (simp add: cint)
  show thesis
  proof (cases "outq w = []")
    case False
    then show thesis using that(1) send_direct_busy [OF assms(1)] by (simp add: accepts_def)
  next
    case True
    note d = send_direct_idle [OF assms(1) True, of "int (length m)" m wr]
    show thesis
    proof (cases wr)
      case (Write_Errno e)
      then show thesis using that(1) d len by (simp add: accepts_def)
    next
      case (Wrote k)
      with assms(3) have "k \<le> length m" by (simp add: write_within_def)
      then show thesis using that(2) d len True Wrote by (simp add: accepts_def of_nat_diff)
    qed
  qed
qed


text \<open>
  A step of thread \<open>t\<close> that appends \<open>xs\<close> to the stream and sends the messages \<open>ms\<close>: what it had
  left is in the stream now, and what it leaves is what is missing of the new messages.
\<close>

lemma send_inv_move:
  assumes "send_inv s" and "tcp_inv (sd_world s')" and "high_water_safe (tw_conn (sd_world s'))"
    and str: "stream_of s' = stream_of s @ xs" and pcs: "sd_pcs s' = (sd_pcs s)(t := pc)"
    and sent: "sd_sent s' = sd_sent s @ ms" and "rest_ok (stream_of s') pc"
    and bytes: "mset xs + mset (unsent pc) = mset (unsent (sd_pcs s t)) + mset (concat ms)"
    and old: "\<And>m k r e. sd_pcs s t = Send_Rest m k r e \<Longrightarrow> r > 0 \<Longrightarrow> subseq m (stream_of s')"
    and new: "\<And>m. m \<in> set ms \<Longrightarrow> subseq m (stream_of s') \<or> (\<exists>k r e. pc = Send_Rest m k r e \<and> r > 0)"
  shows "send_inv s'"
proof -
  have fin: "finite {u. unsent (sd_pcs s u) \<noteq> []}"
    and ok: "\<And>u. rest_ok (stream_of s) (sd_pcs s u)"
    and ms: "mset (stream_of s) + pending (sd_pcs s) = mset (concat (sd_sent s))"
    and sub: "\<And>m. m \<in> set (sd_sent s) \<Longrightarrow>
        subseq m (stream_of s) \<or> (\<exists>t k r e. sd_pcs s t = Send_Rest m k r e \<and> r > 0)"
    using assms(1) by (auto simp: send_inv_def)
  note p = pending_update [OF fin, of t pc]
  have "rest_ok (stream_of s') (sd_pcs s' u)" for u
    using rest_ok_append [OF ok [of u], of xs] assms(7) by (simp add: pcs str)
  moreover have "mset (stream_of s') + pending (sd_pcs s') = mset (concat (sd_sent s'))"
  proof -
    have "mset (stream_of s') + pending (sd_pcs s') + mset (unsent (sd_pcs s t))
        = mset (stream_of s) + mset xs + (pending (sd_pcs s) + mset (unsent pc))"
      using p(2) by (simp add: str pcs ac_simps)
    also have "\<dots> = mset (concat (sd_sent s')) + mset (unsent (sd_pcs s t))"
      using bytes ms by (simp add: sent ac_simps)
    finally show ?thesis by simp
  qed
  moreover have "subseq m (stream_of s') \<or> (\<exists>u k r e. sd_pcs s' u = Send_Rest m k r e \<and> r > 0)"
    if "m \<in> set (sd_sent s')" for m
  proof (cases "m \<in> set ms")
    case True
    with new [OF True] show ?thesis using pcs by (metis fun_upd_same)
  next
    case False
    with that have "m \<in> set (sd_sent s)" by (simp add: sent)
    from sub [OF this] show ?thesis
    proof
      assume "subseq m (stream_of s)"
      then show ?thesis unfolding str by (blast intro: subseq_append')
    next
      assume "\<exists>u k r e. sd_pcs s u = Send_Rest m k r e \<and> r > 0"
      then obtain u k r e where u: "sd_pcs s u = Send_Rest m k r e" "r > 0" by blast
      show ?thesis
      proof (cases "u = t")
        case True
        with old u show ?thesis by blast
      next
        case False
        then have "sd_pcs s' u = Send_Rest m k r e" using u(1) by (simp add: pcs)
        with u(2) show ?thesis by blast
      qed
    qed
  qed
  ultimately show ?thesis using assms(2,3) p(1) pcs by (simp add: send_inv_def)
qed

lemma send_writes_inv:
  assumes "send_inv s" and "send_next (Send_Writes t wr m) s = Some s'"
  shows "send_inv s'"
proof -
  let ?w = "sd_world s"
  from assms(2) have c: "int (length m) < 2147483648" "write_within wr (length m)" and idle: "sd_pcs s t = Send_Idle"
    by (auto simp: send_next_def split: if_splits)
  have i: "tcp_inv ?w" "high_water_safe (tw_conn ?w)" using assms(1) by (simp_all add: send_inv_def)
  show ?thesis
  proof (rule send_direct_cases [OF i(1) c])
    fix k r e w'
    assume d: "send_direct wr m (to_int32 (int (length m))) ?w = Inr (k, r, e, w')" "tw_conn w' = tw_conn ?w"
      "tw_epoller w' = tw_epoller ?w" "r \<le> 0" "tw_wire w' = tw_wire ?w" "accepts wr m ?w = []"
    then have "s' = s\<lparr>sd_world := w', sd_pcs := (sd_pcs s)(t := Send_Rest m k r e)\<rparr>"
      using assms(2) idle by (simp add: send_next_def split: if_splits)
    then show ?thesis
      using i d idle tcp_inv_cong [OF d(2,3)]
      by (intro send_inv_move [where s' = s' and xs = "[]" and ms = "[]" and t = t and pc = "Send_Rest m k r e", OF assms(1)])
        (simp_all add: stream_of_def)
  next
    fix k w'
    assume d: "wr = Wrote k" "outq ?w = []" "accepts wr m ?w = m" "k \<le> length m"
      "send_direct wr m (to_int32 (int (length m))) ?w = Inr (int k, int (length m - k), False, w')"
      "tw_conn w' = tw_conn ?w" "tw_epoller w' = tw_epoller ?w" "tw_wire w' = tw_wire ?w @ take k m"
    let ?pc = "Send_Rest m (int k) (int (length m - k)) False" and ?ms = "if m = [] then [] else [m]"
    have s': "s' = s\<lparr>sd_world := w', sd_pcs := (sd_pcs s)(t := ?pc), sd_sent := sd_sent s @ ?ms\<rparr>"
      using assms(2) d idle by (simp add: send_next_def split: if_splits)
    have str: "stream_of s' = stream_of s @ take k m" using d by (simp add: s' stream_of_def)
    have sub: "subseq (take k m) (stream_of s')" unfolding str by (simp add: list_emb_append2)
    have split: "mset (take k m) + mset (unsent ?pc) = mset m"
      using d(4) unfolding mset_append [symmetric] by (simp add: mset_append [symmetric] del: mset_append)
    show ?thesis
      by (rule send_inv_move [where s' = s', OF assms(1) _ _ str, where t = t and pc = ?pc and ms = ?ms])
        (use i d idle sub split tcp_inv_cong [OF d(6,7)] in \<open>auto simp: s' split: if_splits\<close>)
  qed
qed

text \<open>A call takes its message or drops it whole.\<close>

lemma send_call_takes:
  assumes "send_inv s" and "send_next (Send_Writes t wr m) s = Some s'"
  shows "if m \<noteq> [] \<and> outq (sd_world s) = [] \<and> (\<exists>k. wr = Wrote k) then sd_sent s' = sd_sent s @ [m]
    else sd_sent s' = sd_sent s \<and> unsent (sd_pcs s' t) = [] \<and> stream_of s' = stream_of s"
proof -
  let ?w = "sd_world s"
  from assms(2) have c: "int (length m) < 2147483648" "write_within wr (length m)" and idle: "sd_pcs s t = Send_Idle"
    by (auto simp: send_next_def split: if_splits)
  have i: "tcp_inv ?w" using assms(1) by (simp add: send_inv_def)
  show ?thesis
  proof (rule send_direct_cases [OF i c])
    fix k r e w'
    assume d: "send_direct wr m (to_int32 (int (length m))) ?w = Inr (k, r, e, w')" "tw_conn w' = tw_conn ?w"
      "tw_epoller w' = tw_epoller ?w" "r \<le> 0" "tw_wire w' = tw_wire ?w" "accepts wr m ?w = []"
    then have "s' = s\<lparr>sd_world := w', sd_pcs := (sd_pcs s)(t := Send_Rest m k r e)\<rparr>"
      using assms(2) idle by (simp add: send_next_def split: if_splits)
    with d show ?thesis by (auto simp: stream_of_def accepts_def)
  next
    fix k w'
    assume d: "wr = Wrote k" "outq ?w = []" "accepts wr m ?w = m" "k \<le> length m"
      "send_direct wr m (to_int32 (int (length m))) ?w = Inr (int k, int (length m - k), False, w')"
      "tw_conn w' = tw_conn ?w" "tw_epoller w' = tw_epoller ?w" "tw_wire w' = tw_wire ?w @ take k m"
    then show ?thesis
      using assms(2) idle by (auto simp: send_next_def stream_of_def split: if_splits)
  qed
qed

lemma send_queues_inv:
  assumes "send_inv s" and "send_next (Send_Queues t) s = Some s'"
  shows "send_inv s'"
proof (cases "sd_pcs s t")
  case Send_Idle
  then show ?thesis using assms(2) by (simp add: send_next_def)
next
  case (Send_Rest m k r e)
  let ?w = "sd_world s"
  have i: "tcp_inv ?w" "high_water_safe (tw_conn ?w)" and ok: "rest_ok (stream_of s) (Send_Rest m k r e)"
    using assms(1) Send_Rest by (auto simp: send_inv_def dest: spec [of _ t])
  show ?thesis
  proof (cases "r \<le> 0")
    case True
    then have "s' = s\<lparr>sd_pcs := (sd_pcs s)(t := Send_Idle)\<rparr>"
      using assms(2) Send_Rest by (simp add: send_next_def send_queue_nothing split: if_splits)
    then show ?thesis
      using i True Send_Rest
      by (intro send_inv_move [where s' = s' and xs = "[]" and ms = "[]" and t = t and pc = Send_Idle, OF assms(1)])
        (auto simp: stream_of_def)
  next
    case False
    with ok have o: "\<not> e" "0 \<le> k" "k + r = int (length m)" "subseq (take (nat k) m) (stream_of s)" by simp_all
    have n: "0 < nat r" "nat k + nat r = length m" using o False by simp_all
    have "buf_room (c_outputBuffer (tw_conn ?w)) (length m)"
      using assms(2) Send_Rest by (auto simp: send_next_def split: if_splits)
    then have "buf_room (c_outputBuffer (tw_conn ?w)) (nat r)" using n(2) by (auto simp: buf_room_def)
    from send_queue_ok [OF i n this] o False obtain w' where w': "send_queue m k r e ?w = Inr w'" "tcp_inv w'"
        "same_setup (tw_conn w') (tw_conn ?w)" "outq w' = outq ?w @ drop (nat k) m" "tw_wire w' = tw_wire ?w"
      by auto
    have s': "s' = s\<lparr>sd_world := w', sd_pcs := (sd_pcs s)(t := Send_Idle)\<rparr>"
      using assms(2) Send_Rest w'(1) by (simp add: send_next_def split: if_splits)
    have str: "stream_of s' = stream_of s @ drop (nat k) m" using w'(4,5) by (simp add: s' stream_of_def)
    have whole: "subseq m (stream_of s')"
      using list_emb_append_mono [OF o(4) subseq_order.order_refl [of "drop (nat k) m"]] by (simp add: str)
    show ?thesis
      by (rule send_inv_move [where s' = s', OF assms(1) _ _ str, where t = t and pc = Send_Idle and ms = "[]"])
        (use w'(2,3) high_water_same [OF w'(3) i(2)] whole Send_Rest False in \<open>auto simp: s'\<close>)
  qed
qed

lemma loop_writes_inv:
  assumes "send_inv s" and "send_next (Loop_Writes wr) s = Some s'"
  shows "send_inv s'"
proof -
  let ?w = "sd_world s"
  have i: "tcp_inv ?w" "high_water_safe (tw_conn ?w)" using assms(1) by (simp_all add: send_inv_def)
  have "write_within wr (length (outq ?w))" using assms(2) by (auto simp: send_next_def split: if_splits)
  from handleWrite_ok [OF i(1) this] obtain w' where w': "conn_handleWrite wr ?w = Inr w'" "tcp_inv w'"
      "same_setup (tw_conn w') (tw_conn ?w)" "tw_wire w' @ outq w' = tw_wire ?w @ outq ?w"
    by blast
  then have "s' = s\<lparr>sd_world := w'\<rparr>" using assms(2) by (simp add: send_next_def split: if_splits)
  then show ?thesis
    using assms(1) w' high_water_same [OF w'(3) i(2)] by (simp add: send_inv_def stream_of_def)
qed

interpretation sends: state_invariant send_start send_step send_inv
proof unfold_locales
  show "send_inv s" if "send_start s" for s
    using that by (simp add: send_start_def send_inv_def stream_of_def pending_def)
  show "send_inv s'" if "send_step s s'" and "send_inv s" for s s'
    using that(1)
  proof (rule send_stepE)
    fix m assume "send_next m s = Some s'"
    then show ?thesis
      using that(2) send_writes_inv send_queues_inv loop_writes_inv by (cases m) blast+
  qed
qed

lemma send_reach:
  "schedule send_next ms s = Some s' \<Longrightarrow> reach send_start send_step s \<Longrightarrow> reach send_start send_step s'"
  by (rule schedule_reach [where move = send_next]) (auto intro: send_stepI)


text \<open>The direct write and the queueing of what it left, as moves.\<close>

lemma writes_partly:
  assumes "send_inv s" and "outq (sd_world s) = []" and "sd_pcs s t = Send_Idle"
    and "int (length m) < 2147483648" and "k \<le> length m" and "m \<noteq> []"
  shows "\<exists>w. send_next (Send_Writes t (Wrote k) m) s = Some (s\<lparr>sd_world := w,
      sd_pcs := (sd_pcs s)(t := Send_Rest m (int k) (int (length m - k)) False), sd_sent := sd_sent s @ [m]\<rparr>)
    \<and> tw_conn w = tw_conn (sd_world s) \<and> tw_wire w = tw_wire (sd_world s) @ take k m"
proof -
  let ?w = "sd_world s"
  have i: "tcp_inv ?w" using assms(1) by (simp add: send_inv_def)
  have wr: "write_within (Wrote k) (length m)" using assms(5) by (simp add: write_within_def)
  show ?thesis
    by (rule send_direct_cases [OF i assms(4) wr])
      (use assms(2,3,4,6) wr in \<open>auto simp: send_next_def accepts_def\<close>)
qed

lemma queues_rest:
  assumes "send_inv s" and "sd_pcs s t = Send_Rest m (int k) (int (length m - k)) False" and "k \<le> length m"
    and "buf_room (c_outputBuffer (tw_conn (sd_world s))) (length m)"
  shows "\<exists>w. send_next (Send_Queues t) s = Some (s\<lparr>sd_world := w, sd_pcs := (sd_pcs s)(t := Send_Idle)\<rparr>)
    \<and> stream_of (s\<lparr>sd_world := w\<rparr>) = stream_of s @ drop k m \<and> (k = length m \<longrightarrow> w = sd_world s)"
proof (cases "k = length m")
  case True
  then show ?thesis using assms(2,4) by (simp add: send_next_def send_queue_nothing stream_of_def)
next
  case False
  have i: "tcp_inv (sd_world s)" "high_water_safe (tw_conn (sd_world s))" using assms(1) by (simp_all add: send_inv_def)
  have n: "0 < length m - k" "k + (length m - k) = length m" using False assms(3) by simp_all
  have "buf_room (c_outputBuffer (tw_conn (sd_world s))) (length m - k)" using assms(4) by (simp add: buf_room_def)
  from send_queue_ok [OF i n this] show ?thesis
    using assms(2,4) False by (auto simp: send_next_def stream_of_def)
qed

text \<open>One message written partly, another whole, and then the rest of the first queued.\<close>

lemma sends_mixed:
  assumes "reach send_start send_step s" and "outq (sd_world s) = []"
    and "sd_pcs s t = Send_Idle" and "sd_pcs s u = Send_Idle" and "t \<noteq> u"
    and "k < length m" and "m' \<noteq> []" and "int (length m') < 2147483648" and "int (length m) < 2147483648"
    and "buf_room (c_outputBuffer (tw_conn (sd_world s))) (length m)"
    and "buf_room (c_outputBuffer (tw_conn (sd_world s))) (length m')"
  shows "\<exists>s'. schedule send_next [Send_Writes t (Wrote k) m, Send_Writes u (Wrote (length m')) m',
        Send_Queues u, Send_Queues t] s = Some s' \<and> sd_pcs s' = sd_pcs s
    \<and> sd_sent s' = sd_sent s @ [m, m']
    \<and> tw_wire (sd_world s') @ outq (sd_world s') = tw_wire (sd_world s) @ take k m @ m' @ drop k m"
proof -
  let ?rest = "\<lambda>m k. Send_Rest m (int k) (int (length m - k)) False"
  have i0: "send_inv s" by (rule sends.reach_inv [OF assms(1)])
  have k: "k \<le> length m" "m \<noteq> []" using assms(6) by auto
  from writes_partly [OF i0 assms(2,3,9) k] obtain w1 where w1:
      "send_next (Send_Writes t (Wrote k) m) s = Some (s\<lparr>sd_world := w1,
        sd_pcs := (sd_pcs s)(t := ?rest m k), sd_sent := sd_sent s @ [m]\<rparr>)"
      "tw_conn w1 = tw_conn (sd_world s)" "tw_wire w1 = tw_wire (sd_world s) @ take k m" by blast
  let ?s1 = "s\<lparr>sd_world := w1, sd_pcs := (sd_pcs s)(t := ?rest m k), sd_sent := sd_sent s @ [m]\<rparr>"
  have i1: "send_inv ?s1" by (rule send_writes_inv [OF i0 w1(1)])
  have "outq (sd_world ?s1) = []" "sd_pcs ?s1 u = Send_Idle" using assms(2,4,5) w1(2) by simp_all
  from writes_partly [OF i1 this assms(8) order_refl assms(7)] obtain w2 where w2:
      "send_next (Send_Writes u (Wrote (length m')) m') ?s1 = Some (?s1\<lparr>sd_world := w2,
        sd_pcs := (sd_pcs ?s1)(u := ?rest m' (length m')), sd_sent := sd_sent ?s1 @ [m']\<rparr>)"
      "tw_conn w2 = tw_conn w1" "tw_wire w2 = tw_wire w1 @ m'" by auto
  let ?s2 = "?s1\<lparr>sd_world := w2, sd_pcs := (sd_pcs ?s1)(u := ?rest m' (length m')), sd_sent := sd_sent ?s1 @ [m']\<rparr>"
  have i2: "send_inv ?s2" by (rule send_writes_inv [OF i1 w2(1)])
  from queues_rest [OF i2, of u m' "length m'"] assms(11) w1(2) w2(2)
  have w3: "send_next (Send_Queues u) ?s2 = Some (?s2\<lparr>sd_pcs := (sd_pcs ?s2)(u := Send_Idle)\<rparr>)"
    by auto
  let ?s3 = "?s2\<lparr>sd_pcs := (sd_pcs ?s2)(u := Send_Idle)\<rparr>"
  have i3: "send_inv ?s3" by (rule send_queues_inv [OF i2 w3])
  from queues_rest [OF i3, of t m k] assms(5,10) k(1) w1(2) w2(2) obtain w4 where w4:
      "send_next (Send_Queues t) ?s3 = Some (?s3\<lparr>sd_world := w4, sd_pcs := (sd_pcs ?s3)(t := Send_Idle)\<rparr>)"
      "stream_of (?s3\<lparr>sd_world := w4\<rparr>) = stream_of ?s3 @ drop k m" by auto
  have "(sd_pcs ?s3)(t := Send_Idle) = sd_pcs s" using assms(3,4) by auto
  moreover have "stream_of ?s3 = tw_wire (sd_world s) @ take k m @ m'"
    using w1(2,3) w2(2,3) assms(2) by (simp add: stream_of_def)
  ultimately show ?thesis
    using w1(1) w2(1) w3 w4 by (simp add: stream_of_def)
qed

section \<open>Examples\<close>

definition ex_sending :: sending where
  "ex_sending = \<lparr>sd_world = example_world, sd_pcs = (\<lambda>_. Send_Idle), sd_sent = []\<rparr>"

lemma ex_sending_facts:
  "outq (sd_world ex_sending) = []" "tw_wire (sd_world ex_sending) = []" "sd_pcs ex_sending t = Send_Idle"
  "sd_sent ex_sending = []" "n \<le> 1000 \<Longrightarrow> buf_room (c_outputBuffer (tw_conn (sd_world ex_sending))) n"
  by (simp_all add: ex_sending_def example_world_outq example_world_wire)

lemma ex_sending_reach: "reach send_start send_step ex_sending"
  by (rule reach_start) (simp add: send_start_def ex_sending_def example_world_inv example_world_safe
      example_world_outq example_world_wire)

section \<open>Properties\<close>

text \<open>
  C10. For a connection whose high-water mark is zero or has a callback, and a kernel that takes
  no more than it is given: whatever the interleaving of the halves of \<open>send\<close> of any threads
  with the write events of the loop (each half one atomic step), of the messages that were
  taken nothing is lost or duplicated: in every reachable state the bytes on the wire, those queued, and those that the
  threads inside \<open>send\<close> are still to queue are the bytes of the messages taken. Each of these
  is in the stream, in its own order, unless a thread inside \<open>send\<close> holds its rest; writability
  is watched exactly while something is queued. A call takes its message if it is not empty,
  nothing is queued and the kernel does not fail; otherwise it drops it whole, with no trace in
  the stream or for the second half.
\<close>

theorem sends_conserved:
  assumes "reach send_start send_step s"
  shows "mset (tw_wire (sd_world s) @ outq (sd_world s)) + pending (sd_pcs s) = mset (concat (sd_sent s))
    \<and> (\<forall>m \<in> set (sd_sent s). subseq m (tw_wire (sd_world s) @ outq (sd_world s))
        \<or> (\<exists>t k r e. sd_pcs s t = Send_Rest m k r e \<and> r > 0))
    \<and> (hasWrite (c_channel (tw_conn (sd_world s))) \<longleftrightarrow> outq (sd_world s) \<noteq> [])
    \<and> (\<forall>t wr m s'. send_next (Send_Writes t wr m) s = Some s' \<longrightarrow>
        (if m \<noteq> [] \<and> outq (sd_world s) = [] \<and> (\<exists>k. wr = Wrote k) then sd_sent s' = sd_sent s @ [m]
         else sd_sent s' = sd_sent s \<and> unsent (sd_pcs s' t) = []
           \<and> tw_wire (sd_world s') @ outq (sd_world s') = tw_wire (sd_world s) @ outq (sd_world s)))"
proof -
  have inv: "send_inv s" by (rule sends.reach_inv [OF assms])
  then have w: "hasWrite (c_channel (tw_conn (sd_world s))) \<longleftrightarrow> outq (sd_world s) \<noteq> []"
    using tcp_invD(5) by (simp add: send_inv_def)
  note calls = send_call_takes [OF inv, unfolded stream_of_def]
  show ?thesis
    using inv [unfolded send_inv_def stream_of_def] w
    by (intro conjI allI impI) (rule calls | blast)+
qed

theorem sends_conserved_witness:
  "\<exists>s' :: sending. sd_sent s' = [[1, 2, 3], [8, 9]]
    \<and> mset (tw_wire (sd_world s') @ outq (sd_world s')) = mset [1, 2, 3, 8, 9]"
proof -
  obtain ms s' where s': "schedule send_next ms ex_sending = Some s'" "sd_pcs s' = sd_pcs ex_sending"
      "sd_sent s' = [[1, 2, 3], [8, 9]]"
    using sends_mixed [OF ex_sending_reach, of 0 1 1 "[1, 2, 3]" "[8, 9]"]
    by (auto simp: ex_sending_facts simp del: schedule.simps)
  have "\<forall>t. sd_pcs s' t = Send_Idle" using s'(2) by (simp add: ex_sending_facts)
  then have "pending (sd_pcs s') = {#}" by (simp add: pending_def)
  with sends_conserved [OF send_reach [OF s'(1) ex_sending_reach], THEN conjunct1]
  have "mset (tw_wire (sd_world s') @ outq (sd_world s')) = mset [1, 2, 3, 8, 9]"
    by (simp only: s'(3)) simp
  with s'(3) show ?thesis by blast
qed

text \<open>
  C11. But not in one piece: from every reachable state with nothing queued and two threads outside
  \<open>send\<close>, if the kernel takes only the first \<open>k\<close> bytes of one message, the other thread can write
  its whole message directly before the rest of the first is queued, and the stream carries the
  second message inside the first.
\<close>

theorem concurrent_sends_mix:
  assumes "reach send_start send_step s" and "outq (sd_world s) = []"
    and "sd_pcs s t = Send_Idle" and "sd_pcs s u = Send_Idle" and "t \<noteq> u"
    and "k < length m" and "m' \<noteq> []" and "int (length m') < 2147483648" and "int (length m) < 2147483648"
    and "buf_room (c_outputBuffer (tw_conn (sd_world s))) (length m)"
    and "buf_room (c_outputBuffer (tw_conn (sd_world s))) (length m')"
  shows "\<exists>s'. schedule send_next [Send_Writes t (Wrote k) m, Send_Writes u (Wrote (length m')) m',
        Send_Queues u, Send_Queues t] s = Some s' \<and> sd_pcs s' = sd_pcs s
    \<and> sd_sent s' = sd_sent s @ [m, m']
    \<and> tw_wire (sd_world s') @ outq (sd_world s') = tw_wire (sd_world s) @ take k m @ m' @ drop k m"
  by (rule sends_mixed) (rule assms)+

theorem concurrent_sends_mix_witness:
  "\<exists>s'. schedule send_next [Send_Writes 0 (Wrote 1) [1, 2, 3], Send_Writes 1 (Wrote 2) [8, 9], Send_Queues 1,
      Send_Queues 0] ex_sending = Some s' \<and> tw_wire (sd_world s') @ outq (sd_world s') = [1, 8, 9, 2, 3]"
  using concurrent_sends_mix [OF ex_sending_reach, of 0 1 1 "[1, 2, 3]" "[8, 9]"]
  by (auto simp: ex_sending_facts numeral_2_eq_2 simp del: schedule.simps)

end
