(* ===== verification/Logging.thy ===== *)
theory Logging
  imports Log_Stream
begin

text \<open>
  \<open>base/Logging.h\<close> and \<open>base/Logging.cpp\<close>: the log levels and the filter of the
  \<open>LOG_*\<close> macros, the header a \<open>Logging\<close> object puts in front of the message, and the
  destructor that hands the line to the output function and aborts on \<open>FATAL\<close>. The output
  and flush functions are fields of the state, as they are global function pointers in the
  source; they act on a world of type \<open>'w\<close>.
\<close>

section \<open>Definitions\<close>

subsection \<open>Levels\<close>

datatype log_level = TRACE | DEBUG | INFO | WARNING | ERROR | FATAL | NUM_LOG_LEVELS

fun level_rank :: "log_level \<Rightarrow> nat" where
  "level_rank TRACE = 0"
| "level_rank DEBUG = 1"
| "level_rank INFO = 2"
| "level_rank WARNING = 3"
| "level_rank ERROR = 4"
| "level_rank FATAL = 5"
| "level_rank NUM_LOG_LEVELS = 6"

lemma level_rank_inject [simp]: "level_rank a = level_rank b \<longleftrightarrow> a = b"
  by (cases a; cases b) simp_all

text \<open>The enumerators compare as the integers they are.\<close>

instantiation log_level :: linorder
begin

definition less_eq_log_level :: "log_level \<Rightarrow> log_level \<Rightarrow> bool" where
  "less_eq_log_level a b \<longleftrightarrow> level_rank a \<le> level_rank b"

definition less_log_level :: "log_level \<Rightarrow> log_level \<Rightarrow> bool" where
  "less_log_level a b \<longleftrightarrow> level_rank a < level_rank b"

instance
  by standard (auto simp: less_eq_log_level_def less_log_level_def)

end

fun logLevelName :: "log_level \<Rightarrow> string outcome" where
  "logLevelName TRACE = Inr ''TRACE ''"
| "logLevelName DEBUG = Inr ''DEBUG ''"
| "logLevelName INFO = Inr ''INFO  ''"
| "logLevelName WARNING = Inr ''WARNING  ''"
| "logLevelName ERROR = Inr ''ERROR ''"
| "logLevelName FATAL = Inr ''FATAL ''"
| "logLevelName NUM_LOG_LEVELS = Inl Out_Of_Bounds"

subsection \<open>Time stamp\<close>

text \<open>The fields of \<open>struct tm\<close> and \<open>struct timeb\<close> that are printed.\<close>

record tm_fields =
  tm_year :: int
  tm_mon :: int
  tm_mday :: int
  tm_hour :: int
  tm_min :: int
  tm_sec :: int
  millitm :: int

text \<open>\<open>%<w>d\<close> pads with blanks, \<open>%0<w>d\<close> with zeros after the sign.\<close>

definition fmt_d :: "nat \<Rightarrow> int \<Rightarrow> string" where
  "fmt_d w v = replicate (w - length (decimal v)) (CHR '' '') @ decimal v"

definition fmt_0d :: "nat \<Rightarrow> int \<Rightarrow> string" where
  "fmt_0d w v =
     (if v < 0 then ''-'' else '''')
       @ replicate (w - length (decimal v)) (CHR ''0'') @ decimal \<bar>v\<bar>"

definition now :: "tm_fields \<Rightarrow> string" where
  "now tm = take 24
     (fmt_d 4 (tm_year tm + 1900) @ ''-'' @ fmt_0d 2 (tm_mon tm + 1) @ ''-'' @ fmt_0d 2 (tm_mday tm)
      @ '' '' @ fmt_0d 2 (tm_hour tm) @ '':'' @ fmt_0d 2 (tm_min tm) @ '':'' @ fmt_0d 2 (tm_sec tm)
      @ ''.'' @ fmt_0d 3 (millitm tm))"

subsection \<open>Global state\<close>

record 'w log_globals =
  g_logLevel :: log_level
  g_output :: "string \<Rightarrow> 'w \<Rightarrow> 'w"
  g_flush :: "'w \<Rightarrow> 'w"

text \<open>
  The functions in place at the start write to \<open>stdout\<close>, whose buffer the library empties
  on \<open>fflush\<close>.
\<close>

record stdout =
  out_pending :: string
  out_written :: string

definition defaultOutput :: "string \<Rightarrow> stdout \<Rightarrow> stdout" where
  "defaultOutput msg out = out\<lparr>out_pending := out_pending out @ msg\<rparr>"

definition defaultFlush :: "stdout \<Rightarrow> stdout" where
  "defaultFlush out = \<lparr>out_pending = [], out_written = out_written out @ out_pending out\<rparr>"

definition default_globals :: "stdout log_globals" where
  "default_globals = \<lparr>g_logLevel = TRACE, g_output = defaultOutput, g_flush = defaultFlush\<rparr>"

definition setLogLevel :: "log_level \<Rightarrow> 'w log_globals \<Rightarrow> 'w log_globals" where
  "setLogLevel level g = g\<lparr>g_logLevel := level\<rparr>"

definition setOutput :: "(string \<Rightarrow> 'w \<Rightarrow> 'w) \<Rightarrow> 'w log_globals \<Rightarrow> 'w log_globals" where
  "setOutput func g = g\<lparr>g_output := func\<rparr>"

definition setFlush :: "('w \<Rightarrow> 'w) \<Rightarrow> 'w log_globals \<Rightarrow> 'w log_globals" where
  "setFlush func g = g\<lparr>g_flush := func\<rparr>"

subsection \<open>One log statement\<close>

text \<open>A log statement returns to its caller, or the process aborts; either leaves a world.\<close>

datatype 'w log_exit = Returns 'w | Aborts 'w

text \<open>Where a statement stands in the source, and the time it runs at.\<close>

record log_site =
  site_now :: tm_fields
  site_file :: string
  site_line :: int
  site_func :: string

definition header_items :: "log_site \<Rightarrow> string \<Rightarrow> 'd item list" where
  "header_items s name =
     [Item_String (now (site_now s)), Item_Char (CHR ''-''), Item_Cstr (Some name),
      Item_Char (CHR ''-''), Item_String (site_file s), Item_Char (CHR ''-''),
      Item_Int (site_line s), Item_Char (CHR ''-''), Item_String (site_func s),
      Item_Char (CHR ''-'')]"

definition logging_ctor ::
  "('d \<Rightarrow> string) \<Rightarrow> string \<Rightarrow> log_site \<Rightarrow> log_level \<Rightarrow> fixed_buffer outcome" where
  "logging_ctor fmt uninit s level =
     bind_ok (logLevelName level) (\<lambda>name.
       put_all (put_item fmt) (new_fixed_buffer uninit) (header_items s name))"

definition logging_dtor ::
  "'w log_globals \<Rightarrow> log_level \<Rightarrow> fixed_buffer \<Rightarrow> 'w \<Rightarrow> 'w log_exit outcome" where
  "logging_dtor g level b w =
     bind_ok (put_char b (CHR 0x0A)) (\<lambda>b1.
       let w1 = g_output g (fb_text b1) w
       in if level = FATAL then Inr (Aborts (g_flush g w1)) else Inr (Returns w1))"

text \<open>
  \<open>LOG_<level> << items\<close>: the macro's \<open>if\<close>, the temporary object, the operators, and the
  destructor at the end of the full expression. \<open>uninit\<close> is the content of the stack the
  object's array is created on.
\<close>

definition log_statement ::
  "('d \<Rightarrow> string) \<Rightarrow> string \<Rightarrow> 'w log_globals \<Rightarrow> log_site \<Rightarrow> log_level \<Rightarrow> 'd item list \<Rightarrow> 'w
    \<Rightarrow> 'w log_exit outcome" where
  "log_statement fmt uninit g s level items w =
     (if g_logLevel g \<le> level then
        bind_ok (logging_ctor fmt uninit s level) (\<lambda>b.
        bind_ok (put_all (put_item fmt) b items) (\<lambda>b1.
          logging_dtor g level b1 w))
      else Inr (Returns w))"

section \<open>Lemmas\<close>

lemma fb_text_new [simp]: "fb_text (new_fixed_buffer m) = []"
  by (simp add: fb_text_def new_fixed_buffer_def)

lemma fb_inv_new [simp]: "fb_inv (new_fixed_buffer m)"
  by (simp add: fb_inv_def new_fixed_buffer_def)

lemma fb_buf_new [simp]: "fb_buf (new_fixed_buffer m) = m"
  by (simp add: new_fixed_buffer_def)

lemma length_logLevelName: "logLevelName l = Inr name \<Longrightarrow> length name \<le> 9"
  by (cases l) auto

lemma logLevelName_ok: "level \<noteq> NUM_LOG_LEVELS \<Longrightarrow> \<exists>name. logLevelName level = Inr name"
  by (cases level) auto

text \<open>The values a statement's items must have for the operators to be defined on them.\<close>

definition site_good :: "log_site \<Rightarrow> bool" where
  "site_good s \<longleftrightarrow> length (site_file s) < 2147483648 \<and> length (site_func s) < 2147483648
     \<and> int64_range (site_line s)"

lemma header_good:
  "site_good s \<Longrightarrow> length name \<le> 9 \<Longrightarrow> \<forall>i \<in> set (header_items s name). item_good fmt i"
  by (auto simp: header_items_def site_good_def now_def)

text \<open>
  The text of a statement: its items and the newline, each followed by a blank. The whole
  is put by one \<open>put_all\<close>, so the facts on sequences of items apply to it.
\<close>

definition line_items :: "log_site \<Rightarrow> string \<Rightarrow> 'd item list \<Rightarrow> 'd item list" where
  "line_items s name items = header_items s name @ items @ [Item_Char (CHR 0x0A)]"

lemma log_statement_put_all:
  assumes "g_logLevel g \<le> level" and "logLevelName level = Inr name"
  shows "log_statement fmt uninit g s level items w =
    bind_ok (put_all (put_item fmt) (new_fixed_buffer uninit) (line_items s name items)) (\<lambda>b.
      Inr (if level = FATAL then Aborts (g_flush g (g_output g (fb_text b) w))
           else Returns (g_output g (fb_text b) w)))"
proof -
  have "bind_ok (put_char b c) f = bind_ok (put_all (put_item fmt) b [Item_Char c]) f"
    for b c and f :: "fixed_buffer \<Rightarrow> 'x outcome"
    by (simp add: bind_ok_assoc)
  then show ?thesis
    using assms
    by (simp add: log_statement_def logging_ctor_def logging_dtor_def line_items_def
        put_all_append bind_ok_assoc Let_def if_distrib [of Inr])
qed


lemma line_good:
  "site_good s \<Longrightarrow> logLevelName level = Inr name \<Longrightarrow> \<forall>i \<in> set items. item_good fmt i \<Longrightarrow>
    \<forall>i \<in> set (line_items s name items). item_good fmt i"
  using header_good [of s name fmt] length_logLevelName [of level name]
  by (auto simp: line_items_def)

lemma line_items_text:
  "concat (map (\<lambda>i. spaced (item_stored fmt i)) (line_items s name items)) =
    concat (map spaced ([now (site_now s), ''-'', name, ''-'', site_file s, ''-'',
        decimal (site_line s), ''-'', site_func s, ''-''] @ map (item_stored fmt) items))
      @ [CHR 0x0A, CHR '' '']"
  by (simp add: line_items_def header_items_def spaced_def comp_def)

lemma log_statement_output:
  assumes "g_logLevel g \<le> level" and "level \<noteq> NUM_LOG_LEVELS" and "site_good s"
    and "\<forall>i \<in> set items. item_good fmt i" and "length uninit = kSmallSize"
  shows "\<exists>text. length text \<le> kSmallSize \<and> log_statement fmt uninit g s level items w
    = Inr (if level = FATAL then Aborts (g_flush g (g_output g text w))
           else Returns (g_output g text w))"
proof -
  obtain name where name: "logLevelName level = Inr name"
    using logLevelName_ok [OF assms(2)] by blast
  obtain b where b: "put_all (put_item fmt) (new_fixed_buffer uninit) (line_items s name items) = Inr b"
      "fb_inv b" "length (fb_buf b) = kSmallSize"
    using put_all_items [OF fb_inv_new line_good [OF assms(3) name assms(4)], of uninit]
      assms(5) by auto
  show ?thesis
  proof (intro exI conjI)
    show "length (fb_text b) \<le> kSmallSize" using fb.body_bound [OF b(2)] b(3) by simp
  qed (simp only: log_statement_put_all [OF assms(1) name] b(1) bind_ok.simps)
qed

lemma log_statement_text:
  assumes "g_logLevel g \<le> level" and "logLevelName level = Inr name" and "site_good s"
    and "\<forall>i \<in> set items. item_good fmt i" and "level \<noteq> FATAL" and "length uninit = kSmallSize"
    and "sum_list (map item_need (line_items s name items)) \<le> kSmallSize"
  shows "log_statement fmt uninit g s level items w
    = Inr (Returns (g_output g
        (concat (map spaced ([now (site_now s), ''-'', name, ''-'', site_file s, ''-'',
            decimal (site_line s), ''-'', site_func s, ''-''] @ map (item_stored fmt) items))
          @ [CHR 0x0A, CHR '' '']) w))"
proof -
  obtain b where "put_all (put_item fmt) (new_fixed_buffer uninit) (line_items s name items) = Inr b"
    and "fb_text b = concat (map (\<lambda>i. spaced (item_stored fmt i)) (line_items s name items))"
    using stream.put_all_fits [OF fb_inv_new line_good [OF assms(3,2,4)], of uninit] assms(6,7)
    by auto
  with assms(5) show ?thesis
    by (simp only: log_statement_put_all [OF assms(1,2)] line_items_text bind_ok.simps if_False)
qed

subsection \<open>Time stamp\<close>

lemma length_positional_exact:
  "n < 10 ^ k \<Longrightarrow> 0 < k \<Longrightarrow> length (positional decDigits n) \<le> k"
  using length_positional [of decDigits k n] by simp

lemma positional_4:
  assumes "1000 \<le> n" and "n < 10000"
  shows "length (positional decDigits n) = 4"
proof -
  have "\<not> n < 10" "\<not> n div 10 < 10" "\<not> n div 10 div 10 < 10" "n div 10 div 10 div 10 < 10"
    using assms by (simp_all add: div_mult2_eq [symmetric] less_mult_imp_div_less not_less
        less_eq_div_iff_mult_less_eq)
  then show ?thesis
    by (simp add: positional.simps [of decDigits n] positional.simps [of decDigits "n div 10"]
        positional.simps [of decDigits "n div 10 div 10"]
        positional.simps [of decDigits "n div 10 div 10 div 10"])
qed

lemma length_fmt_0d:
  assumes "0 \<le> v" and "v < 10 ^ w" and "0 < w"
  shows "length (fmt_0d w v) = w"
proof -
  have "nat v < 10 ^ w" using assms(1,2) by (simp add: nat_less_iff)
  then have "length (positional decDigits (nat v)) \<le> w"
    using assms(3) by (rule length_positional_exact)
  with assms(1) show ?thesis by (simp add: fmt_0d_def decimal_def)
qed

lemma read_base_zeros: "read_base 10 (replicate n (CHR ''0'') @ s) = read_base 10 s"
  by (induction n) (simp_all add: read_base_def digit_value_def)

lemma read_dec: "read_base 10 (positional decDigits n) = n"
  using read_positional [of decDigits n] digit_value_dec by simp

lemma read_fmt_0d: "0 \<le> v \<Longrightarrow> int (read_base 10 (fmt_0d w v)) = v"
  by (simp add: fmt_0d_def decimal_def read_base_zeros read_dec)

lemma fmt_d_4: "1000 \<le> v \<Longrightarrow> v < 10000 \<Longrightarrow> length (fmt_d 4 v) = 4 \<and> int (read_base 10 (fmt_d 4 v)) = v"
  using positional_4 [of "nat v"] by (simp add: fmt_d_def decimal_def read_dec)

section \<open>Properties\<close>

text \<open>
  One statement above the threshold, with well-formed operands: whatever its length, the
  process stays within the 4000-byte buffer and calls the output function exactly once, with
  a text of at most 4000 characters; then it aborts, after a flush, exactly when the level is
  \<open>FATAL\<close>, and returns otherwise.
\<close>

theorem log_statement_total:
  assumes "g_logLevel g \<le> level" and "level \<noteq> NUM_LOG_LEVELS" and "site_good s"
    and "\<forall>i \<in> set items. item_good fmt i" and "length uninit = kSmallSize"
  shows "\<exists>text. length text \<le> kSmallSize \<and> log_statement fmt uninit g s level items w
    = Inr (if level = FATAL then Aborts (g_flush g (g_output g text w))
           else Returns (g_output g text w))"
  by (rule log_statement_output [OF assms])

definition sample_site :: log_site where
  "sample_site = \<lparr>site_now = \<lparr>tm_year = 119, tm_mon = 0, tm_mday = 5, tm_hour = 8, tm_min = 48,
     tm_sec = 17, millitm = 67\<rparr>, site_file = ''a.cpp'', site_line = 35, site_func = ''f''\<rparr>"

definition sample_globals :: "string list log_globals" where
  "sample_globals = \<lparr>g_logLevel = TRACE, g_output = (\<lambda>t w. w @ [t]), g_flush = (\<lambda>w. w @ [''flush''])\<rparr>"

lemma sample_good: "site_good sample_site"
  by (simp add: site_good_def sample_site_def int64_range_def)

theorem log_statement_total_witness:
  "\<exists>text. length text \<le> kSmallSize
    \<and> log_statement sample_fmt (replicate kSmallSize NUL) sample_globals sample_site FATAL
        [Item_String ''x''] [] = Inr (Aborts [text, ''flush''])"
  using log_statement_total [of sample_globals FATAL sample_site "[Item_String ''x'']" sample_fmt
      "replicate kSmallSize NUL" "[]"]
  by (simp add: sample_good sample_globals_def less_eq_log_level_def)

text \<open>
  The line: when the operands fit, the output function receives the time stamp, the
  level, the file, the line and the function with dashes between them, then the operands and
  a newline, each followed by a blank, so the newline is not the last character.
\<close>

theorem log_line_text:
  assumes "g_logLevel g \<le> level" and "logLevelName level = Inr name" and "site_good s"
    and "\<forall>i \<in> set items. item_good fmt i" and "level \<noteq> FATAL" and "length uninit = kSmallSize"
    and "sum_list (map item_need (line_items s name items)) \<le> kSmallSize"
  shows "log_statement fmt uninit g s level items w
    = Inr (Returns (g_output g
        (concat (map spaced ([now (site_now s), ''-'', name, ''-'', site_file s, ''-'',
            decimal (site_line s), ''-'', site_func s, ''-''] @ map (item_stored fmt) items))
          @ [CHR 0x0A, CHR '' '']) w))"
  by (rule log_statement_text [OF assms])

theorem log_line_text_witness:
  "log_statement sample_fmt (replicate kSmallSize NUL) sample_globals sample_site INFO
      [Item_String ''hi''] []
   = Inr (Returns [''2019-01-05 08:48:17.067 - INFO   - a.cpp - 35 - f - hi '' @ [CHR 0x0A, CHR '' '']])"
proof -
  have n: "now (site_now sample_site) = ''2019-01-05 08:48:17.067''"
    by (simp add: now_def sample_site_def fmt_d_def fmt_0d_def decimal_def positional.simps decDigits_def)
  have l: "decimal 35 = ''35''"
    by (simp add: decimal_def positional.simps decDigits_def)
  have need: "sum_list (map item_need (line_items sample_site ''INFO  '' [Item_String ''hi'' :: int item]))
      \<le> kSmallSize"
    by (simp add: line_items_def header_items_def n) (simp add: sample_site_def kSmallSize_def)
  show ?thesis
    using log_line_text [of sample_globals INFO "''INFO  ''" sample_site "[Item_String ''hi'']"
        sample_fmt "replicate kSmallSize NUL" "[]", OF _ _ sample_good] need
    by (simp add: n) (simp add: sample_globals_def less_eq_log_level_def spaced_def sample_site_def l)
qed

text \<open>
  The filter: a statement below the threshold has no effect at all, and raising the
  threshold above \<open>FATAL\<close> silences even \<open>LOG_FATAL\<close>, which then does not abort.
\<close>

theorem log_filtered:
  assumes "level < g_logLevel g"
  shows "log_statement fmt uninit g s level items w = Inr (Returns w)"
  using assms by (simp add: log_statement_def not_le [symmetric])

theorem log_filtered_witness:
  "log_statement sample_fmt [] (setLogLevel NUM_LOG_LEVELS sample_globals) sample_site FATAL [] []
    = Inr (Returns [])"
  using log_filtered [of FATAL "setLogLevel NUM_LOG_LEVELS sample_globals"]
  by (simp add: setLogLevel_def sample_globals_def less_log_level_def)

text \<open>
  The time stamp of a date with a four-digit year is 23 characters, so the 24 that fit
  are enough, and its fields read back as the year, month, day, hour, minute, second and
  millisecond.
\<close>

theorem now_format:
  assumes "1000 \<le> tm_year t + 1900" and "tm_year t + 1900 < 10000"
    and "0 \<le> tm_mon t" and "tm_mon t < 12" and "0 \<le> tm_mday t" and "tm_mday t < 32"
    and "0 \<le> tm_hour t" and "tm_hour t < 24" and "0 \<le> tm_min t" and "tm_min t < 60"
    and "0 \<le> tm_sec t" and "tm_sec t < 62" and "0 \<le> millitm t" and "millitm t < 1000"
  shows "length (now t) = 23
    \<and> int (read_base 10 (segment (now t) 0 4)) = tm_year t + 1900
    \<and> int (read_base 10 (segment (now t) 5 2)) = tm_mon t + 1
    \<and> int (read_base 10 (segment (now t) 8 2)) = tm_mday t
    \<and> int (read_base 10 (segment (now t) 11 2)) = tm_hour t
    \<and> int (read_base 10 (segment (now t) 14 2)) = tm_min t
    \<and> int (read_base 10 (segment (now t) 17 2)) = tm_sec t
    \<and> int (read_base 10 (segment (now t) 20 3)) = millitm t"
  using assms fmt_d_4 [of "tm_year t + 1900"]
  by (simp add: now_def segment_def length_fmt_0d read_fmt_0d)

theorem now_format_witness: "int (read_base 10 (segment (now (site_now sample_site)) 20 3)) = 67"
  using now_format [of "site_now sample_site"] by (simp add: sample_site_def)

text \<open>
  With the functions in place at the start, a \<open>LOG_FATAL\<close> leaves nothing behind in the buffer
  of \<open>stdout\<close>: when the process aborts, everything logged so far and the line itself are
  written.
\<close>

theorem fatal_flushes:
  assumes "site_good s" and "\<forall>i \<in> set items. item_good fmt i" and "length uninit = kSmallSize"
  shows "\<exists>text. log_statement fmt uninit default_globals s FATAL items out
    = Inr (Aborts \<lparr>out_pending = [], out_written = out_written out @ out_pending out @ text\<rparr>)"
proof -
  have "g_logLevel default_globals \<le> FATAL" by (simp add: default_globals_def less_eq_log_level_def)
  from log_statement_output [OF this _ assms, of out] show ?thesis
    by (auto simp: default_globals_def defaultOutput_def defaultFlush_def)
qed

theorem fatal_flushes_witness:
  "\<exists>text. log_statement sample_fmt (replicate kSmallSize NUL) default_globals sample_site FATAL []
    \<lparr>out_pending = ''a'', out_written = ''''\<rparr> = Inr (Aborts \<lparr>out_pending = [], out_written = ''a'' @ text\<rparr>)"
  using fatal_flushes [OF sample_good, of "[]" sample_fmt "replicate kSmallSize NUL"
      "\<lparr>out_pending = ''a'', out_written = ''''\<rparr>"]
  by simp

end
