(* ===== verification/Server_Log.thy ===== *)
theory Server_Log
  imports Logging Tcp_Connection
begin

text \<open>
  The lines \<open>net/TcpServer.cpp\<close> writes to the log: the default connection callback, and the
  last statement of \<open>newConnection\<close>. \<open>port\<close> returns an unsigned short and \<open>ip\<close> a string, so
  these are the operators the operands select.
\<close>

section \<open>Definitions\<close>

definition defaultConnectCallback :: "endian \<Rightarrow> tcp_conn \<Rightarrow> 'd item list" where
  "defaultConnectCallback e conn =
     [Item_Cstr (Some ''conn ''), Item_UShort (uint (addr_port e (c_localAddr conn))),
      Item_Cstr (Some (if isConnected conn then ''connected'' else ''disconnected''))]"

definition newConnection_items ::
  "(32 word \<Rightarrow> string) \<Rightarrow> endian \<Rightarrow> sockaddr_in \<Rightarrow> sockaddr_in \<Rightarrow> 'd item list" where
  "newConnection_items inet_ntop e clientAddr localAddr =
     [Item_Cstr (Some ''A client comes:''),
      Item_String (addr_ip inet_ntop clientAddr), Item_UShort (uint (addr_port e clientAddr)),
      Item_String (addr_ip inet_ntop localAddr), Item_UShort (uint (addr_port e localAddr))]"

section \<open>Lemmas\<close>

lemma port_range: "int64_range (uint (addr_port e a))"
proof -
  have "uint (addr_port e a) < 65536" using uint_lt2p [of "addr_port e a"] by simp
  moreover have "0 \<le> uint (addr_port e a)" by simp
  ultimately show ?thesis unfolding int64_range_def by linarith
qed

lemma server_items_good:
  "\<forall>i \<in> set (defaultConnectCallback e c). item_good fmt i"
  "\<forall>i \<in> set (newConnection_items ntop e a b). item_good fmt i"
  by (simp_all add: defaultConnectCallback_def newConnection_items_def port_range addr_ip_def min_def)

lemma header_need:
  assumes "length name \<le> 9"
  shows "sum_list (map item_need (line_items s name items))
    \<le> length (site_file s) + length (site_func s) + 82 + sum_list (map item_need items)"
  using assms by (simp add: line_items_def header_items_def now_def)

text \<open>Whatever \<open>inet_ntop\<close> writes into its 64 bytes, the lines fit.\<close>

lemma server_items_need:
  "sum_list (map item_need (defaultConnectCallback e c)) \<le> 208"
  "sum_list (map item_need (newConnection_items ntop e a b)) \<le> 208"
  by (simp_all add: defaultConnectCallback_def newConnection_items_def addr_ip_def)

lemma server_line:
  assumes "g_logLevel g \<le> INFO" and "site_good s" and "length (site_file s) + length (site_func s) \<le> 3700"
    and "length uninit = kSmallSize" and "\<forall>i \<in> set items. item_good fmt i"
    and "sum_list (map item_need items) \<le> 208"
  shows "log_statement fmt uninit g s INFO items w
    = Inr (Returns (g_output g
        (concat (map spaced ([now (site_now s), ''-'', ''INFO  '', ''-'', site_file s, ''-'',
            decimal (site_line s), ''-'', site_func s, ''-''] @ map (item_stored fmt) items))
          @ [CHR 0x0A, CHR '' '']) w))"
proof (rule log_statement_text)
  show "sum_list (map item_need (line_items s ''INFO  '' items)) \<le> kSmallSize"
    using header_need [of "''INFO  ''" s items] assms(3,6) by (simp add: kSmallSize_def)
qed (use assms in simp_all)

section \<open>Properties\<close>

text \<open>
  The server's own lines are never cut. For a source file and function whose names have at
  most 3700 characters, both statements write one whole line, with every operand in it, and
  return, whatever the addresses, the ports and the text \<open>inet_ntop\<close> gives.
\<close>

theorem server_lines_whole:
  assumes "g_logLevel g \<le> INFO" and "site_good s" and "length (site_file s) + length (site_func s) \<le> 3700"
    and "length uninit = kSmallSize"
    and "items = defaultConnectCallback e conn \<or> items = newConnection_items inet_ntop e clientAddr localAddr"
  shows "log_statement fmt uninit g s INFO items w
    = Inr (Returns (g_output g
        (concat (map spaced ([now (site_now s), ''-'', ''INFO  '', ''-'', site_file s, ''-'',
            decimal (site_line s), ''-'', site_func s, ''-''] @ map (item_stored fmt) items))
          @ [CHR 0x0A, CHR '' '']) w))"
proof (rule server_line [OF assms(1-4)])
  show "\<forall>i \<in> set items. item_good fmt i" "sum_list (map item_need items) \<le> 208"
    using assms(5) server_items_good server_items_need by blast+
qed

theorem server_lines_whole_witness:
  "log_statement sample_fmt (replicate kSmallSize NUL) sample_globals sample_site INFO
      (defaultConnectCallback Little (tcp_ctor 3 7 (addr_of_port Little 80) (addr_of_port Little 1024) 0)) []
   = Inr (Returns [''2019-01-05 08:48:17.067 - INFO   - a.cpp - 35 - f - conn  80 disconnected ''
       @ [CHR 0x0A, CHR '' '']])"
proof -
  let ?items = "defaultConnectCallback Little (tcp_ctor 3 7 (addr_of_port Little 80) (addr_of_port Little 1024) 0)
    :: int item list"
  have n: "now (site_now sample_site) = ''2019-01-05 08:48:17.067''"
    by (simp add: now_def sample_site_def fmt_d_def fmt_0d_def decimal_def positional.simps decDigits_def)
  have l: "decimal 35 = ''35''" by (simp add: decimal_def positional.simps decDigits_def)
  have i: "map (item_stored sample_fmt) ?items = [''conn '', ''80'', ''disconnected'']"
    by (simp add: defaultConnectCallback_def addr_port_def addr_of_port_def tcp_ctor_def isConnected_def
        ntohs_def htons_def betoh_htobe)
      (simp add: decimal_def positional.simps decDigits_def)
  have "log_statement sample_fmt (replicate kSmallSize NUL) sample_globals sample_site INFO ?items []
    = Inr (Returns (g_output sample_globals
        (concat (map spaced ([now (site_now sample_site), ''-'', ''INFO  '', ''-'', site_file sample_site, ''-'',
            decimal (site_line sample_site), ''-'', site_func sample_site, ''-''] @ map (item_stored sample_fmt) ?items))
          @ [CHR 0x0A, CHR '' '']) []))"
    by (rule server_lines_whole [OF _ sample_good _ _ disjI1 [OF refl]])
      (simp_all add: sample_globals_def less_eq_log_level_def sample_site_def)
  then show ?thesis unfolding i n by (simp add: sample_globals_def sample_site_def spaced_def l)
qed

end
