(* ===== verification/Acceptor.thy ===== *)
theory Acceptor
  imports Sockets Epoller
begin

text \<open>
  \<open>net/Acceptor.h\<close> and \<open>net/Acceptor.cpp\<close>: the listening socket and its channel. The results
  of the socket calls are arguments; what \<open>handleRead\<close> does with a new descriptor is a value.
\<close>

section \<open>Definitions\<close>

datatype acceptor_callback = Acceptor_handleRead

record acceptor =
  ac_fd :: int
  ac_addr :: nat
  ac_channel :: "acceptor_callback channel"
  ac_options :: socket_options
  ac_has_callback :: bool

definition default_options :: socket_options where
  "default_options = \<lparr>so_reuseaddr = False, so_reuseport = False, so_nodelay = False, so_keepalive = False\<rparr>"

text \<open>The constructor: \<open>addr\<close> is where the channel is allocated.\<close>

definition acceptor_ctor ::
  "sys_result \<Rightarrow> sys_result \<Rightarrow> sys_result \<Rightarrow> sys_result \<Rightarrow> nat \<Rightarrow> acceptor outcome" where
  "acceptor_ctor sock reuse1 reuse2 bound addr =
     bind_ok (createNonblockingSocket sock) (\<lambda>fd.
       let so = setReuseAddr reuse2 True (setReuseAddr reuse1 True default_options)
       in bind_ok (sockets_bind bound) (\<lambda>_.
            Inr \<lparr>ac_fd = fd, ac_addr = addr,
                 ac_channel = channel_setReadCallback Acceptor_handleRead (new_channel fd),
                 ac_options = so, ac_has_callback = False\<rparr>))"

definition setReadCallback :: "acceptor \<Rightarrow> acceptor" where
  "setReadCallback a = a\<lparr>ac_has_callback := True\<rparr>"

definition acceptor_listen :: "sys_result \<Rightarrow> acceptor \<Rightarrow> epoller \<Rightarrow> (acceptor \<times> epoller) outcome" where
  "acceptor_listen r a ep =
     bind_ok (sockets_listen r) (\<lambda>_.
       let (ch, ep1) = enableReading (ac_addr a) (ac_channel a) ep
       in Inr (a\<lparr>ac_channel := ch\<rparr>, ep1))"

datatype accept_action = Call_Back int sockaddr_in | Close_Client int | Log_Error

definition acceptor_handleRead :: "sys_result \<Rightarrow> sockaddr_in \<Rightarrow> acceptor \<Rightarrow> accept_action outcome" where
  "acceptor_handleRead r peer a =
     bind_ok (sockets_accept r peer) (\<lambda>(clientFd, clientAddr).
       Inr (if clientFd \<ge> 0
            then (if ac_has_callback a then Call_Back clientFd clientAddr else Close_Client clientFd)
            else Log_Error))"

text \<open>The destructor, with the destruction of the socket that follows.\<close>

definition acceptor_dtor :: "acceptor \<Rightarrow> epoller \<Rightarrow> int set \<Rightarrow> (epoller \<times> int set) outcome" where
  "acceptor_dtor a ep fds =
     (let (ch, ep1) = removeChannel (ac_addr a) (disableAll (ac_channel a)) ep
      in bind_ok (sockets_dtor (ac_fd a) fds) (\<lambda>fds1. Inr (kernel_close (ac_fd a) ep1, fds1)))"

section \<open>Properties\<close>

text \<open>
  An acceptor that listens has the kernel watch its descriptor for reading. It then answers
  every result of \<open>accept\<close>: a new descriptor is handed to the callback, or closed when there
  is none; a transient error (no connection any more, interrupted, or out of descriptors) is
  only logged; any other error aborts.
\<close>

theorem acceptor_serves:
  assumes "acceptor_ctor sock r1 r2 bound addr = Inr a" and "acceptor_listen lr a ep = Inr (a', ep')"
    and "\<not> ep_deny ep" and "ep_interest ep (ac_fd a) = None"
  shows "ep_interest ep' (ac_fd a') = Some (READ, addr)
    \<and> acceptor_handleRead r peer (setReadCallback a') =
      (case r of
         Sys_Ok fd \<Rightarrow> Inr (if 0 \<le> fd then Call_Back fd peer else Log_Error)
       | Sys_Err err \<Rightarrow> if accept_transient err then Inr Log_Error else Inl Aborted)
    \<and> acceptor_handleRead (Sys_Ok 5) peer a' = Inr (Close_Client 5)"
  using assms
  by (auto simp: acceptor_ctor_def acceptor_listen_def acceptor_handleRead_def sockets_accept_def
      createNonblockingSocket_def sockets_bind_def sockets_listen_def setReadCallback_def
      enableReading_def updateChannel_def controlEpoll_def epoll_ctl_def new_channel_def set_reading_def
      NONE_def Let_def split: sys_result.splits if_splits)

definition example_acceptor :: acceptor where
  "example_acceptor = projr (acceptor_ctor (Sys_Ok 4) (Sys_Ok 0) (Sys_Ok 0) (Sys_Ok 0) 3)"

theorem acceptor_serves_witness:
  "acceptor_handleRead (Sys_Err EMFILE) zero_addr
     (setReadCallback (fst (projr (acceptor_listen (Sys_Ok 0) example_acceptor example_epoller)))) = Inr Log_Error"
proof -
  have c: "acceptor_ctor (Sys_Ok 4) (Sys_Ok 0) (Sys_Ok 0) (Sys_Ok 0) 3 = Inr example_acceptor"
    by (simp add: example_acceptor_def acceptor_ctor_def createNonblockingSocket_def sockets_bind_def Let_def)
  have l: "acceptor_listen (Sys_Ok 0) example_acceptor example_epoller =
      Inr (fst (projr (acceptor_listen (Sys_Ok 0) example_acceptor example_epoller)),
           snd (projr (acceptor_listen (Sys_Ok 0) example_acceptor example_epoller)))"
    by (simp add: acceptor_listen_def sockets_listen_def Let_def split: prod.split)
  from acceptor_serves [OF c l, of "Sys_Err EMFILE" zero_addr] show ?thesis
    by (simp add: example_epoller_def accept_transient_def)
qed

text \<open>
  The acceptor asks for address reuse twice and never for port reuse: whatever the kernel
  answers, the listening socket does not share its port.
\<close>

theorem acceptor_never_reuses_port:
  assumes "acceptor_ctor sock r1 r2 bound addr = Inr a"
  shows "\<not> so_reuseport (ac_options a)
    \<and> ((\<exists>v. r1 = Sys_Ok v) \<longrightarrow> so_reuseaddr (ac_options a))"
  using assms
  by (auto simp: acceptor_ctor_def createNonblockingSocket_def sockets_bind_def setReuseAddr_def
      default_options_def Let_def split: sys_result.splits)

theorem acceptor_never_reuses_port_witness: "\<not> so_reuseport (ac_options example_acceptor)"
proof -
  have "acceptor_ctor (Sys_Ok 4) (Sys_Ok 0) (Sys_Ok 0) (Sys_Ok 0) 3 = Inr example_acceptor"
    by (simp add: example_acceptor_def acceptor_ctor_def createNonblockingSocket_def sockets_bind_def Let_def)
  from acceptor_never_reuses_port [OF this] show ?thesis by simp
qed

end
