(* ===== verification/Server_Loop.thy ===== *)
theory Server_Loop
  imports Server_Events Acceptor Event_Loop
begin

text \<open>
  The server at work: a \<open>TcpServer\<close> without extra threads and the \<open>EventLoop\<close> it runs in, put
  together from the models of their parts. One poller watches the channels of the loop's
  eventfd, of the acceptor and of the connections; a round of \<open>loop\<close> marks what the kernel
  reported in the channels, lets each handle its events, in order, and then runs the posted
  functors. Between two callbacks the user may keep and drop connections, send on them and take
  bytes off their input buffers. The kernel's
  and the allocator's answers come with each step.
\<close>

section \<open>Definitions\<close>

record 'f server_loop =
  sl_server :: server
  sl_acceptor :: acceptor
  sl_addr :: nat
  sl_wakeup :: "loop_callback channel"
  sl_loop :: "'f loop_state"
  sl_active :: "nat list"

subsection \<open>Construction and start\<close>

text \<open>
  The loop, then the server in it: \<open>socket\<close>, \<open>setsockopt\<close> (twice) and \<open>bind\<close> answer \<open>sock\<close>,
  \<open>reuse1\<close>, \<open>reuse2\<close> and \<open>bound\<close>; \<open>addr\<close> and \<open>aaddr\<close> are where the two channels are allocated.
\<close>

definition tcp_server_ctor ::
  "loop_object \<Rightarrow> sys_result \<Rightarrow> sys_result \<Rightarrow> sys_result \<Rightarrow> sys_result \<Rightarrow> nat \<Rightarrow> 'f server_loop outcome" where
  "tcp_server_ctor lo sock reuse1 reuse2 bound aaddr =
     bind_ok (acceptor_ctor sock reuse1 reuse2 bound aaddr) (\<lambda>a.
       Inr \<lparr>sl_server = server_ctor (lo_poller lo) (lo_addr lo), sl_acceptor = setReadCallback a,
            sl_addr = lo_addr lo, sl_wakeup = lo_wakeupChannel lo, sl_loop = loop_init, sl_active = []\<rparr>)"

text \<open>\<open>start\<close>: the pool (which has no threads) and \<open>listen\<close>, answered by \<open>listened\<close>.\<close>

definition tcp_server_start :: "sys_result \<Rightarrow> 'f server_loop \<Rightarrow> 'f server_loop outcome" where
  "tcp_server_start listened s =
     (let sv = sl_server s;
          (pool, called) = loop_pool_start (\<lambda>i. i) (sv_has_poolInit sv) (sv_pool sv)
      in bind_ok (acceptor_listen listened (sl_acceptor s) (sv_epoller sv)) (\<lambda>(a, ep).
           Inr (s\<lparr>sl_acceptor := a, sl_server := sv\<lparr>sv_pool := pool, sv_epoller := ep\<rparr>\<rparr>)))"

subsection \<open>The channels of the loop\<close>

text \<open>\<open>setREvents\<close> through a pointer the kernel returned.\<close>

definition mark_channel :: "nat \<Rightarrow> events \<Rightarrow> 'f server_loop \<Rightarrow> 'f server_loop outcome" where
  "mark_channel p e s =
     (if p = sl_addr s then Inr (s\<lparr>sl_wakeup := setREvents e (sl_wakeup s)\<rparr>)
      else if p = ac_addr (sl_acceptor s) then
        Inr (s\<lparr>sl_acceptor := (sl_acceptor s)\<lparr>ac_channel := setREvents e (ac_channel (sl_acceptor s))\<rparr>\<rparr>)
      else case sv_heap (sl_server s) p of
             None \<Rightarrow> Inl Use_After_Free
           | Some c \<Rightarrow>
               Inr (s\<lparr>sl_server := (sl_server s)\<lparr>sv_heap := (sv_heap (sl_server s))
                 (p := Some (c\<lparr>c_channel := setREvents e (c_channel c)\<rparr>))\<rparr>\<rparr>))"

text \<open>
  What the environment answers to a callback: \<open>readv\<close>, \<open>write\<close>, \<open>accept4\<close> with the peer's
  address, \<open>getsockname\<close>, and the allocator with the memory it returns.
\<close>

record answers =
  io_read :: "int \<Rightarrow> read_result"
  io_write :: write_result
  io_accept :: sys_result
  io_peer :: sockaddr_in
  io_local :: "sockaddr_in option"
  io_alloc :: nat
  io_uninit :: int

fun wakeup_call :: "loop_callback \<Rightarrow> 'f server_loop \<Rightarrow> 'f server_loop outcome" where
  "wakeup_call Loop_handleRead s =
     Inr (s\<lparr>sl_loop := (sl_loop s)\<lparr>lp_counter := loop_handleRead (lp_counter (sl_loop s))\<rparr>\<rparr>)"

text \<open>The acceptor's callback is \<open>TcpServer::newConnection\<close>.\<close>

fun acceptor_call :: "answers \<Rightarrow> acceptor_callback \<Rightarrow> 'f server_loop \<Rightarrow> 'f server_loop outcome" where
  "acceptor_call io Acceptor_handleRead s =
     bind_ok (acceptor_handleRead (io_accept io) (io_peer io) (sl_acceptor s)) (\<lambda>action.
       case action of
         Call_Back fd peer \<Rightarrow>
           bind_ok (newConnection (io_alloc io) (io_uninit io) (io_local io) fd peer (sl_server s)) (\<lambda>sv.
             Inr (s\<lparr>sl_server := sv\<rparr>))
       | Close_Client fd \<Rightarrow> Inr s
       | Log_Error \<Rightarrow> Inr s)"

text \<open>\<open>handleEvent\<close> of the active channel \<open>p\<close>.\<close>

definition handle_active :: "answers \<Rightarrow> nat \<Rightarrow> 'f server_loop \<Rightarrow> 'f server_loop outcome" where
  "handle_active io p s =
     (if p = sl_addr s then handleEvent (\<lambda>s. Some (sl_wakeup s)) wakeup_call s
      else if p = ac_addr (sl_acceptor s) then
        handleEvent (\<lambda>s. Some (ac_channel (sl_acceptor s))) (acceptor_call io) s
      else bind_ok (handleEvent (conn_channel p) (server_call (io_read io) (io_write io) p) (sl_server s))
             (\<lambda>sv. Inr (s\<lparr>sl_server := sv\<rparr>)))"

subsection \<open>Steps\<close>

text \<open>
  What the poller watches besides the connections, once the loop is constructed and the
  acceptor listens.
\<close>

definition entry :: "nat \<Rightarrow> 'c channel \<Rightarrow> (events \<times> nat) option" where
  "entry p ch = (if ch_state ch = ADDED then Some (ch_events ch, p) else None)"

definition others :: "'f server_loop \<Rightarrow> watched" where
  "others s = (\<lambda>fd. if fd = ch_fd (sl_wakeup s) then entry (sl_addr s) (sl_wakeup s)
     else if fd = ac_fd (sl_acceptor s) then entry (ac_addr (sl_acceptor s)) (ac_channel (sl_acceptor s))
     else None)"

text \<open>The kernel returns pointers of its list only.\<close>

fun kernel_reports :: "wait_result \<Rightarrow> 'f server_loop \<Rightarrow> bool" where
  "kernel_reports (Wait_Error err) s = True"
| "kernel_reports (Wait_Ready es) s =
     (\<forall>(p, e) \<in> set es. \<exists>fd x. ep_interest (sv_epoller (sl_server s)) fd = Some (x, p))"

text \<open>
  The contract of the answers: a read fits the input buffer, a write takes no more than is
  queued, \<open>accept4\<close> returns a descriptor that is not open, and the allocator then memory that
  is not in use.
\<close>

definition answers_ok :: "answers \<Rightarrow> nat \<Rightarrow> 'f server_loop \<Rightarrow> bool" where
  "answers_ok io p s \<longleftrightarrow> fits (io_read io) p (sl_server s)
     \<and> (\<forall>c. sv_heap (sl_server s) p = Some c \<longrightarrow> write_within (io_write io) (length (content (c_outputBuffer c))))
     \<and> (\<forall>fd. io_accept io = Sys_Ok fd \<longrightarrow>
          fd \<notin> sv_fds (sl_server s) \<and> fd \<noteq> ch_fd (sl_wakeup s) \<and> fd \<noteq> ac_fd (sl_acceptor s)
          \<and> sv_heap (sl_server s) (io_alloc io) = None
          \<and> io_alloc io \<noteq> sl_addr s \<and> io_alloc io \<noteq> ac_addr (sl_acceptor s))"

datatype 'f sl_move =
    Sl_Loop "'f loop_action"
  | Sl_Poll wait_result
  | Sl_Handle answers
  | Sl_Events_Done
  | Sl_Keep nat
  | Sl_Drop nat
  | Sl_Send nat write_result "byte list"
  | Sl_Retrieve nat nat

text \<open>The steps of the loop and of other threads that touch no channel.\<close>

fun quiet :: "'f loop_action \<Rightarrow> bool" where
  "quiet Poll_Returns = False"
| "quiet Wakeup_Event = False"
| "quiet Events_Done = False"
| "quiet m = True"

definition on_server :: "(server \<Rightarrow> server outcome) \<Rightarrow> 'f server_loop \<Rightarrow> 'f server_loop outcome" where
  "on_server f s = bind_ok (f (sl_server s)) (\<lambda>sv. Inr (s\<lparr>sl_server := sv\<rparr>))"

fun sl_do :: "'f sl_move \<Rightarrow> 'f server_loop \<Rightarrow> 'f server_loop outcome option" where
  "sl_do (Sl_Loop m) s =
     (if quiet m then map_option (\<lambda>l. Inr (s\<lparr>sl_loop := l\<rparr>)) (loop_do m (sl_loop s)) else None)"
| "sl_do (Sl_Poll w) s =
     (if lp_pc (sl_loop s) = Polling \<and> kernel_reports w s
      then Some (bind_ok (poll mark_channel w s (sv_epoller (sl_server s))) (\<lambda>(ps, s1, ep).
        Inr (s1\<lparr>sl_active := ps, sl_server := (sl_server s1)\<lparr>sv_epoller := ep\<rparr>,
                sl_loop := (sl_loop s1)\<lparr>lp_pc := Handling\<rparr>\<rparr>)))
      else None)"
| "sl_do (Sl_Handle io) s =
     (case sl_active s of
        [] \<Rightarrow> None
      | p # ps \<Rightarrow>
          if lp_pc (sl_loop s) = Handling \<and> answers_ok io p s
          then Some (handle_active io p (s\<lparr>sl_active := ps\<rparr>)) else None)"
| "sl_do Sl_Events_Done s =
     (if sl_active s = []
      then map_option (\<lambda>l. Inr (s\<lparr>sl_loop := l\<rparr>)) (loop_do Events_Done (sl_loop s)) else None)"
| "sl_do (Sl_Keep oid) s =
     (if own_thread (lp_pc (sl_loop s)) \<and> sv_heap (sl_server s) oid \<noteq> None
      then Some (on_server (\<lambda>sv. Inr (user_keeps oid sv)) s) else None)"
| "sl_do (Sl_Drop oid) s =
     (if own_thread (lp_pc (sl_loop s)) \<and> 0 < sv_users (sl_server s) oid
      then Some (on_server (\<lambda>sv. Inr (user_drops oid sv)) s) else None)"
| "sl_do (Sl_Send oid wr m) s =
     (case sv_heap (sl_server s) oid of
        None \<Rightarrow> None
      | Some c \<Rightarrow>
          if own_thread (lp_pc (sl_loop s)) \<and> buf_room (c_outputBuffer c) (length m)
          then Some (on_server (user_send wr m oid) s) else None)"
| "sl_do (Sl_Retrieve oid n) s =
     (if own_thread (lp_pc (sl_loop s)) \<and> sv_heap (sl_server s) oid \<noteq> None
      then Some (on_server (user_retrieve n oid) s) else None)"

inductive sl_step :: "'f server_loop \<Rightarrow> 'f server_loop \<Rightarrow> bool" where
  sl_stepI: "sl_do m s = Some (Inr s') \<Longrightarrow> sl_step s s'"

inductive_cases sl_stepE: "sl_step s s'"

text \<open>
  A program that constructed its loop and its server, set a message callback (and what other
  callbacks it likes) and started the server. The two channels lie at different addresses,
  and the kernel gave the eventfd and the socket different descriptors.
\<close>

definition sl_start :: "'f server_loop \<Rightarrow> bool" where
  "sl_start s \<longleftrightarrow> (\<exists>addr epfd evfd lo sock r1 r2 bound aaddr s0 sv lr.
     loop_ctor False addr epfd evfd = Inr lo
     \<and> tcp_server_ctor lo sock r1 r2 bound aaddr = Inr s0
     \<and> addr \<noteq> aaddr \<and> sock \<noteq> Sys_Ok evfd
     \<and> (\<exists>conn compl pool. sv = (sl_server s0)\<lparr>sv_default_connection := conn, sv_has_message := True,
          sv_has_writeComplete := compl, sv_has_poolInit := pool\<rparr>)
     \<and> tcp_server_start lr (s0\<lparr>sl_server := sv\<rparr>) = Inr s)"

subsection \<open>Destruction\<close>

text \<open>
  The end of the program: the server's destructor on its map (with the keys \<open>fds\<close>), then the
  acceptor's, then the loop's. \<open>open_fds\<close> are the descriptors that are open besides.
\<close>

definition program_exit :: "int list \<Rightarrow> int set \<Rightarrow> 'f server_loop \<Rightarrow> (epoller \<times> int set) outcome" where
  "program_exit fds open_fds s =
     bind_ok (server_dtor fds (sl_server s)) (\<lambda>sv.
     bind_ok (acceptor_dtor (sl_acceptor s) (sv_epoller sv) open_fds) (\<lambda>(ep, fds1).
       Inr (lo_poller (loop_dtor \<lparr>lo_addr = sl_addr s, lo_wakeupChannel = sl_wakeup s, lo_poller = ep\<rparr>), fds1)))"

section \<open>Lemmas\<close>

subsection \<open>What never changes\<close>

text \<open>The loop's own channel and the acceptor, but for the events reported last.\<close>

definition shell :: "'f server_loop \<Rightarrow> nat \<times> loop_callback channel \<times> acceptor" where
  "shell s = (sl_addr s, setREvents 0 (sl_wakeup s),
     (sl_acceptor s)\<lparr>ac_channel := setREvents 0 (ac_channel (sl_acceptor s))\<rparr>)"

definition reads_only :: "'c channel \<Rightarrow> 'c \<Rightarrow> bool" where
  "reads_only ch c \<longleftrightarrow> ch_state ch = ADDED \<and> ch_events ch = READ \<and> ch_readCallback ch = Some c
     \<and> ch_writeCallback ch = None \<and> ch_closeCallback ch = None \<and> ch_errorCallback ch = None"

definition sl_fixed :: "'f server_loop \<Rightarrow> bool" where
  "sl_fixed s \<longleftrightarrow> sl_addr s \<noteq> ac_addr (sl_acceptor s) \<and> ch_fd (sl_wakeup s) \<noteq> ac_fd (sl_acceptor s)
     \<and> ch_fd (ac_channel (sl_acceptor s)) = ac_fd (sl_acceptor s) \<and> ac_has_callback (sl_acceptor s)
     \<and> reads_only (sl_wakeup s) Loop_handleRead
     \<and> reads_only (ac_channel (sl_acceptor s)) Acceptor_handleRead"

lemma setREvents_0_eq:
  "setREvents 0 ch' = setREvents 0 ch \<Longrightarrow> ch_fd ch' = ch_fd ch \<and> ch_state ch' = ch_state ch
    \<and> ch_events ch' = ch_events ch \<and> ch_readCallback ch' = ch_readCallback ch
    \<and> ch_writeCallback ch' = ch_writeCallback ch \<and> ch_closeCallback ch' = ch_closeCallback ch
    \<and> ch_errorCallback ch' = ch_errorCallback ch"
  by (cases ch; cases ch') (simp add: setREvents_def)

lemma acceptor_eq:
  "(a' :: acceptor)\<lparr>ac_channel := x'\<rparr> = a\<lparr>ac_channel := x\<rparr> \<Longrightarrow> x' = x \<and> ac_fd a' = ac_fd a
    \<and> ac_addr a' = ac_addr a \<and> ac_has_callback a' = ac_has_callback a"
  by (cases a; cases a') simp

lemma shell_eq:
  fixes s s' :: "'f server_loop"
  assumes "shell s' = shell s"
  shows "sl_fixed s' = sl_fixed s" "others s' = others s" "sl_addr s' = sl_addr s"
    "ac_addr (sl_acceptor s') = ac_addr (sl_acceptor s)"
proof -
  from assms have a: "sl_addr s' = sl_addr s" and w: "setREvents 0 (sl_wakeup s') = setREvents 0 (sl_wakeup s)"
    and c: "(sl_acceptor s')\<lparr>ac_channel := setREvents 0 (ac_channel (sl_acceptor s'))\<rparr>
      = (sl_acceptor s)\<lparr>ac_channel := setREvents 0 (ac_channel (sl_acceptor s))\<rparr>"
    by (simp_all add: shell_def)
  note c = acceptor_eq [OF c]
  from c have "setREvents 0 (ac_channel (sl_acceptor s')) = setREvents 0 (ac_channel (sl_acceptor s))" by blast
  note eqs = a c setREvents_0_eq [OF w] setREvents_0_eq [OF this]
  show "sl_fixed s' = sl_fixed s" "others s' = others s" "sl_addr s' = sl_addr s"
      "ac_addr (sl_acceptor s') = ac_addr (sl_acceptor s)"
    using eqs by (simp_all add: sl_fixed_def reads_only_def others_def entry_def fun_eq_iff)
qed

lemma others_fixed:
  assumes "sl_fixed s"
  shows "others s fd = (if fd = ch_fd (sl_wakeup s) then Some (READ, sl_addr s)
    else if fd = ac_fd (sl_acceptor s) then Some (READ, ac_addr (sl_acceptor s)) else None)"
  using assms by (simp add: others_def entry_def sl_fixed_def reads_only_def)

lemma addresses_fixed:
  assumes "sl_fixed s"
  shows "addresses (others s) = {sl_addr s, ac_addr (sl_acceptor s)}"
proof -
  have "ch_fd (sl_wakeup s) \<noteq> ac_fd (sl_acceptor s)" using assms by (simp add: sl_fixed_def)
  then show ?thesis
    by (auto simp: addresses_def others_fixed [OF assms] intro: exI [of _ "ch_fd (sl_wakeup s)"]
        exI [of _ "ac_fd (sl_acceptor s)"] split: if_splits)
qed

subsection \<open>The three kinds of channels\<close>

lemma handle_wakeup:
  assumes "sl_fixed s" and "p = sl_addr s"
  shows "handle_active io p s = Inr (if read_test (ch_revents (sl_wakeup s))
    then s\<lparr>sl_loop := (sl_loop s)\<lparr>lp_counter := loop_handleRead (lp_counter (sl_loop s))\<rparr>\<rparr> else s)"
proof -
  have k: "keeps (\<lambda>s. Some (sl_wakeup s)) (wakeup_call :: loop_callback \<Rightarrow> 'a server_loop \<Rightarrow> _)"
    unfolding keeps_def
  proof (intro allI impI)
    fix c and s s' :: "'a server_loop" and ch
    assume "wakeup_call c s = Inr s'" and "Some (sl_wakeup s) = Some ch"
    then show "\<exists>ch'. Some (sl_wakeup s') = Some ch' \<and> same_dispatch ch' ch" by (cases c) auto
  qed
  have "due (sl_wakeup s) = (if read_test (ch_revents (sl_wakeup s)) then [Loop_handleRead] else [])"
    using assms(1) by (intro due_reader) (simp_all add: sl_fixed_def reads_only_def)
  with handleEvent_due [where obj = "\<lambda>s. Some (sl_wakeup s)" and s = s, OF k refl] assms(2) show ?thesis
    by (simp add: handle_active_def)
qed

lemma accepted_fd:
  "acceptor_handleRead r peer a = Inr (Call_Back fd who) \<Longrightarrow> r = Sys_Ok fd \<and> who = peer"
  by (auto simp: acceptor_handleRead_def sockets_accept_def bind_ok_Inr_iff
      split: sys_result.splits if_splits)

lemma acceptor_callE:
  assumes "acceptor_call io c s = Inr s'"
  obtains (same) "s' = s"
  | (new) fd sv where "io_accept io = Sys_Ok fd"
      and "newConnection (io_alloc io) (io_uninit io) (io_local io) fd (io_peer io) (sl_server s) = Inr sv" and "s' = s\<lparr>sl_server := sv\<rparr>"
proof -
  have c: "c = Acceptor_handleRead" by (cases c) simp
  from assms c obtain action where
      a: "acceptor_handleRead (io_accept io) (io_peer io) (sl_acceptor s) = Inr action"
    by (cases "acceptor_handleRead (io_accept io) (io_peer io) (sl_acceptor s)") simp_all
  show thesis
  proof (cases action)
    case (Call_Back fd peer)
    have peer: "peer = io_peer io" using accepted_fd a Call_Back by blast
    with Call_Back assms a c obtain sv where
        "newConnection (io_alloc io) (io_uninit io) (io_local io) fd (io_peer io) (sl_server s) = Inr sv"
        "s' = s\<lparr>sl_server := sv\<rparr>"
      by (auto simp: bind_ok_Inr_iff)
    moreover have "io_accept io = Sys_Ok fd" using accepted_fd a Call_Back by blast
    ultimately show thesis by (intro new)
  qed (use assms a c same in simp_all)
qed

lemma handle_acceptor:
  assumes "sl_fixed s" and "p = ac_addr (sl_acceptor s)"
  shows "handle_active io p s = (if read_test (ch_revents (ac_channel (sl_acceptor s)))
    then acceptor_call io Acceptor_handleRead s else Inr s)"
proof -
  have k: "keeps (\<lambda>s :: 'a server_loop. Some (ac_channel (sl_acceptor s))) (acceptor_call io)"
    unfolding keeps_def
  proof (intro allI impI)
    fix c and s s' :: "'a server_loop" and ch
    assume "acceptor_call io c s = Inr s'" and "Some (ac_channel (sl_acceptor s)) = Some ch"
    then show "\<exists>ch'. Some (ac_channel (sl_acceptor s')) = Some ch' \<and> same_dispatch ch' ch"
      using acceptor_callE by (cases c) (fastforce simp del: acceptor_call.simps)
  qed
  have "due (ac_channel (sl_acceptor s)) =
      (if read_test (ch_revents (ac_channel (sl_acceptor s))) then [Acceptor_handleRead] else [])"
    using assms(1) by (intro due_reader) (simp_all add: sl_fixed_def reads_only_def)
  with handleEvent_due [where obj = "\<lambda>s. Some (ac_channel (sl_acceptor s))" and s = s, OF k refl]
    assms show ?thesis
    by (simp add: handle_active_def sl_fixed_def del: acceptor_call.simps)
qed

subsection \<open>The invariant\<close>

definition sl_inv :: "'f server_loop \<Rightarrow> bool" where
  "sl_inv s \<longleftrightarrow> sl_fixed s \<and> server_good (others s) (sl_server s)"

lemma sl_inv_server:
  fixes s s' :: "'f server_loop"
  assumes "sl_inv s" and "shell s' = shell s" and "server_good (others s) (sl_server s')"
  shows "sl_inv s'"
  using assms shell_eq [OF assms(2)] by (simp add: sl_inv_def)

lemma sl_inv_same:
  fixes s s' :: "'f server_loop"
  assumes "sl_inv s" and "shell s' = shell s" and "sl_server s' = sl_server s"
  shows "sl_inv s'"
  using sl_inv_server [OF assms(1,2)] assms(1,3) by (simp add: sl_inv_def)

lemma setREvents_0 [simp]: "setREvents 0 (setREvents e ch) = setREvents 0 ch"
  by (simp add: setREvents_def)

lemma mark_channel_inv:
  assumes "mark_channel p e s = Inr s'" and "sl_inv s"
  shows "sl_inv s' \<and> sv_epoller (sl_server s') = sv_epoller (sl_server s) \<and> sl_loop s' = sl_loop s"
proof -
  consider (own) "p = sl_addr s" "s' = s\<lparr>sl_wakeup := setREvents e (sl_wakeup s)\<rparr>"
    | (acceptor) "s' = s\<lparr>sl_acceptor := (sl_acceptor s)\<lparr>ac_channel := setREvents e (ac_channel (sl_acceptor s))\<rparr>\<rparr>"
    | (conn) c where "sv_heap (sl_server s) p = Some c"
        "s' = s\<lparr>sl_server := (sl_server s)\<lparr>sv_heap := (sv_heap (sl_server s))
          (p := Some (c\<lparr>c_channel := setREvents e (c_channel c)\<rparr>))\<rparr>\<rparr>"
    using assms(1) by (auto simp: mark_channel_def split: if_splits option.splits)
  then show ?thesis
  proof cases
    case own
    then have "shell s' = shell s" by (simp add: shell_def)
    with own sl_inv_same [OF assms(2)] show ?thesis by simp
  next
    case acceptor
    then have "shell s' = shell s" by (simp add: shell_def)
    with acceptor sl_inv_same [OF assms(2)] show ?thesis by simp
  next
    case conn
    have g: "server_inv (others s) (sl_server s)" "no_leak (sl_server s)"
      using assms(2) by (simp_all add: sl_inv_def server_good_def)
    have "server_inv (others s) (sl_server s')"
      using server_inv_revents [OF g(1) conn(1)] conn(2) by simp
    moreover have "no_leak (sl_server s')"
    proof (rule no_leakI)
      fix i x
      assume i: "sv_heap (sl_server s') i = Some x"
      then obtain y where "sv_heap (sl_server s) i = Some y" "conn_fd x = conn_fd y"
        using conn by (auto simp: conn_fd_def setREvents_def split: if_splits)
      with no_leakD [OF g(2) this(1)] conn(2)
      show "0 < sv_users (sl_server s') i \<or> sv_connections (sl_server s') (conn_fd x) = Some i" by simp
    qed
    moreover have "shell s' = shell s" using conn(2) by (simp add: shell_def)
    ultimately show ?thesis
      using sl_inv_server [OF assms(2)] conn(2) by (simp add: server_good_def)
  qed
qed

lemma acceptor_call_inv:
  assumes "acceptor_call io c s = Inr s'" and "sl_inv s" and "answers_ok io p s"
  shows "sl_inv s'"
  using assms(1)
proof (cases rule: acceptor_callE)
  case same
  with assms(2) show ?thesis by simp
next
  case (new fd sv)
  have f: "sl_fixed s" and g: "server_good (others s) (sl_server s)" using assms(2) by (simp_all add: sl_inv_def)
  have "others s fd = None" "io_alloc io \<notin> addresses (others s)"
    using assms(3) new(1) others_fixed [OF f] addresses_fixed [OF f] by (simp_all add: answers_ok_def)
  with server_good_new [OF new(2) g] assms(3) new(1) have "server_good (others s) sv"
    by (simp add: answers_ok_def)
  with sl_inv_server [OF assms(2)] new(3) show ?thesis by (simp add: shell_def)
qed

lemma handle_active_inv:
  assumes "handle_active io p s = Inr s'" and "sl_inv s" and "answers_ok io p s"
  shows "sl_inv s'"
proof -
  have f: "sl_fixed s" using assms(2) by (simp add: sl_inv_def)
  consider (own) "p = sl_addr s" | (acceptor) "p = ac_addr (sl_acceptor s)"
    | (conn) "p \<noteq> sl_addr s" "p \<noteq> ac_addr (sl_acceptor s)" by blast
  then show ?thesis
  proof cases
    case own
    with handle_wakeup [OF f own] assms(1) have
        "s' = (if read_test (ch_revents (sl_wakeup s))
          then s\<lparr>sl_loop := (sl_loop s)\<lparr>lp_counter := loop_handleRead (lp_counter (sl_loop s))\<rparr>\<rparr> else s)"
      by simp
    then have "shell s' = shell s" "sl_server s' = sl_server s" by (simp_all add: shell_def)
    with sl_inv_same [OF assms(2)] show ?thesis by simp
  next
    case acceptor
    with handle_acceptor [OF f acceptor, of io] assms(1) have
        "s' = s \<or> acceptor_call io Acceptor_handleRead s = Inr s'"
      by (simp del: acceptor_call.simps split: if_splits)
    with assms(2,3) acceptor_call_inv show ?thesis by blast
  next
    case conn
    with assms(1) obtain sv where
        sv: "handleEvent (conn_channel p) (server_call (io_read io) (io_write io) p) (sl_server s) = Inr sv"
      and s': "s' = s\<lparr>sl_server := sv\<rparr>"
      by (auto simp: handle_active_def bind_ok_Inr_iff)
    have "server_good (others s) sv"
      using server_good_dispatch [OF sv] assms(2,3) by (simp add: sl_inv_def answers_ok_def)
    with sl_inv_server [OF assms(2)] s' show ?thesis by (simp add: shell_def)
  qed
qed

lemma server_good_capacity:
  "ep_interest ep = ep_interest (sv_epoller s) \<Longrightarrow> ep_deny ep = ep_deny (sv_epoller s) \<Longrightarrow>
    server_good ws (s\<lparr>sv_epoller := ep\<rparr>) = server_good ws s"
  by (simp add: server_good_def server_inv_def no_leak_def owned_def)

lemma poll_inv:
  assumes "poll mark_channel w s (sv_epoller (sl_server s)) = Inr (ps, s1, ep)" and "sl_inv s"
  shows "sl_inv s1 \<and> ep_interest ep = ep_interest (sv_epoller (sl_server s1))
    \<and> ep_deny ep = ep_deny (sv_epoller (sl_server s1)) \<and> sl_loop s1 = sl_loop s"
proof (cases w)
  case (Wait_Error err)
  with assms show ?thesis by (auto simp: poll_def)
next
  case (Wait_Ready es)
  show ?thesis
  proof (cases "es = []")
    case True
    with Wait_Ready assms show ?thesis by (auto simp: poll_def)
  next
    case False
    with Wait_Ready assms(1) have m: "mark_ready mark_channel es s = Inr (ps, s1)"
      and ep: "ep_interest ep = ep_interest (sv_epoller (sl_server s))"
        "ep_deny ep = ep_deny (sv_epoller (sl_server s))"
      by (auto simp: poll_def bind_ok_Inr_iff split: if_splits)
    have "sl_inv s1 \<and> sv_epoller (sl_server s1) = sv_epoller (sl_server s) \<and> sl_loop s1 = sl_loop s"
      by (rule mark_ready_inv [OF _ m, where P = "\<lambda>t. sl_inv t
          \<and> sv_epoller (sl_server t) = sv_epoller (sl_server s) \<and> sl_loop t = sl_loop s"])
        (use mark_channel_inv assms(2) in \<open>metis+\<close>)
    with ep show ?thesis by simp
  qed
qed

lemma on_server_inv:
  assumes "on_server f s = Inr s'" and "sl_inv s"
    and "\<And>sv. f (sl_server s) = Inr sv \<Longrightarrow> server_good (others s) sv"
  shows "sl_inv s'"
proof -
  from assms(1) obtain sv where "f (sl_server s) = Inr sv" "s' = s\<lparr>sl_server := sv\<rparr>"
    by (auto simp: on_server_def bind_ok_Inr_iff)
  with sl_inv_server [OF assms(2)] assms(3) show ?thesis by (simp add: shell_def)
qed

lemma sl_do_inv: "sl_do m s = Some (Inr s') \<Longrightarrow> sl_inv s \<Longrightarrow> sl_inv s'"
proof (induction m s rule: sl_do.induct)
  case (1 m s)
  then show ?case by (auto simp: shell_def split: if_splits intro: sl_inv_same)
next
  case (2 w s)
  from 2(1) obtain ps s1 ep where p: "poll mark_channel w s (sv_epoller (sl_server s)) = Inr (ps, s1, ep)"
    and s': "s' = s1\<lparr>sl_active := ps, sl_server := (sl_server s1)\<lparr>sv_epoller := ep\<rparr>,
      sl_loop := (sl_loop s1)\<lparr>lp_pc := Handling\<rparr>\<rparr>"
    by (auto simp: bind_ok_Inr_iff split: if_splits)
  from poll_inv [OF p 2(2)] have i: "sl_inv s1"
    and e: "ep_interest ep = ep_interest (sv_epoller (sl_server s1))" "ep_deny ep = ep_deny (sv_epoller (sl_server s1))"
    by simp_all
  from i have "server_good (others s1) (sl_server s')"
    unfolding s' using server_good_capacity [OF e] by (simp add: sl_inv_def)
  with sl_inv_server [OF i] s' show ?case by (simp add: shell_def)
next
  case (3 io s)
  from 3(1) obtain p ps where a: "sl_active s = p # ps" "answers_ok io p s"
    and h: "handle_active io p (s\<lparr>sl_active := ps\<rparr>) = Inr s'"
    by (cases "sl_active s") (auto split: if_splits)
  have "sl_inv (s\<lparr>sl_active := ps\<rparr>)" using 3(2) by (rule sl_inv_same) (simp_all add: shell_def)
  moreover have "answers_ok io p (s\<lparr>sl_active := ps\<rparr>)" using a(2) by (simp add: answers_ok_def)
  ultimately show ?case by (rule handle_active_inv [OF h])
next
  case (4 s)
  then show ?case by (auto simp: shell_def split: if_splits intro: sl_inv_same)
next
  case (5 oid s)
  then have "on_server (\<lambda>sv. Inr (user_keeps oid sv)) s = Inr s'" by (auto split: if_splits)
  from on_server_inv [OF this 5(2)] show ?case
    using 5(2) server_good_keep by (auto simp: sl_inv_def)
next
  case (6 oid s)
  then have "on_server (\<lambda>sv. Inr (user_drops oid sv)) s = Inr s'" by (auto split: if_splits)
  from on_server_inv [OF this 6(2)] show ?case
    using 6(2) server_good_drop by (auto simp: sl_inv_def)
next
  case (7 oid wr m s)
  from 7(1) obtain c where c: "sv_heap (sl_server s) oid = Some c" "buf_room (c_outputBuffer c) (length m)"
    and f: "on_server (user_send wr m oid) s = Inr s'"
    by (auto split: option.splits if_splits)
  from on_server_inv [OF f 7(2)] show ?case
    using server_good_send [OF _ _ c] 7(2) by (auto simp: sl_inv_def)
next
  case (8 oid n s)
  then have "on_server (user_retrieve n oid) s = Inr s'" by (auto split: if_splits)
  from on_server_inv [OF this 8(2)] show ?case
    using server_good_retrieve 8(2) by (auto simp: sl_inv_def)
qed

lemma addresses_two:
  "ws = (\<lambda>fd. if fd = a then Some (e, p) else if fd = b then Some (f, q) else None) \<Longrightarrow>
    addresses ws \<subseteq> {p, q}"
  by (auto simp: addresses_def split: if_splits)

lemma sl_start_inv:
  assumes "sl_start s"
  shows "sl_inv s"
proof -
  from assms obtain addr epfd evfd lo sock r1 r2 bound aaddr s0 sv lr conn compl pool where
      lo: "loop_ctor False addr epfd evfd = Inr lo"
    and s0: "tcp_server_ctor lo sock r1 r2 bound aaddr = Inr s0"
    and ne: "addr \<noteq> aaddr" "sock \<noteq> Sys_Ok evfd"
    and sv: "sv = (sl_server s0)\<lparr>sv_default_connection := conn, sv_has_message := True,
          sv_has_writeComplete := compl, sv_has_poolInit := pool\<rparr>"
    and s: "tcp_server_start lr (s0\<lparr>sl_server := sv\<rparr>) = Inr s"
    unfolding sl_start_def by blast
  from lo have lo': "lo_addr lo = addr" "ch_fd (lo_wakeupChannel lo) = evfd"
      "reads_only (lo_wakeupChannel lo) Loop_handleRead"
      "ep_interest (lo_poller lo) = (\<lambda>_. None)(evfd := Some (READ, addr))" "\<not> ep_deny (lo_poller lo)"
    by (auto simp: loop_ctor_def new_epoller_def reads_only_def epoll_eval Let_def split: if_splits)
  from s0 obtain a where a: "acceptor_ctor sock r1 r2 bound aaddr = Inr a"
    and s0': "s0 = \<lparr>sl_server = server_ctor (lo_poller lo) (lo_addr lo), sl_acceptor = setReadCallback a,
      sl_addr = lo_addr lo, sl_wakeup = lo_wakeupChannel lo, sl_loop = loop_init, sl_active = []\<rparr>"
    by (auto simp: tcp_server_ctor_def bind_ok_Inr_iff)
  from a obtain fd where fd: "sock = Sys_Ok fd" "ac_fd a = fd" "ac_addr a = aaddr"
      "ac_channel a = (new_channel fd)\<lparr>ch_readCallback := Some Acceptor_handleRead\<rparr>"
    by (auto simp: acceptor_ctor_def createNonblockingSocket_def sockets_bind_def Let_def
        split: sys_result.splits if_splits)
  have nf: "fd \<noteq> evfd" using ne(2) fd(1) by simp
  from s obtain a' ep where l: "acceptor_listen lr (setReadCallback a) (lo_poller lo) = Inr (a', ep)"
    and s': "sl_acceptor s = a'" "sl_addr s = addr" "sl_wakeup s = lo_wakeupChannel lo"
      "sl_server s = sv\<lparr>sv_pool := fst (loop_pool_start (\<lambda>i. i) pool (sv_pool sv)), sv_epoller := ep\<rparr>"
    by (auto simp: tcp_server_start_def s0' sv server_ctor_def Let_def bind_ok_Inr_iff lo'(1) split: prod.splits)
  from l have a': "ac_fd a' = fd" "ac_addr a' = aaddr" "ac_has_callback a'" "ch_fd (ac_channel a') = fd"
      "reads_only (ac_channel a') Acceptor_handleRead"
      "ep_interest ep = (\<lambda>_. None)(evfd := Some (READ, addr), fd := Some (READ, aaddr))" "\<not> ep_deny ep"
    using fd nf lo'(4,5)
    by (auto simp: acceptor_listen_def setReadCallback_def sockets_listen_def reads_only_def epoll_eval
        Let_def fun_eq_iff split: sys_result.splits if_splits)
  have f: "sl_fixed s"
    using s' a' lo' ne(1) nf by (simp add: sl_fixed_def)
  have o: "others s = (\<lambda>_. None)(evfd := Some (READ, addr), fd := Some (READ, aaddr))"
    using others_fixed [OF f] s' a' lo' nf by (auto simp: fun_eq_iff)
  have "server_inv (others s) (sl_server s)"
    using o a' by (simp add: server_inv_def server_ok_def s'(4) sv s0' server_ctor_def loop_pool_ctor_def
        loop_pool_start_def)
  moreover have "no_leak (sl_server s)"
    by (simp add: no_leak_def s'(4) sv s0' server_ctor_def)
  ultimately show ?thesis using f by (simp add: sl_inv_def server_good_def)
qed

interpretation sls: state_invariant sl_start sl_step sl_inv
proof unfold_locales
  show "sl_inv s" if "sl_start s" for s :: "'a server_loop"
    using that by (rule sl_start_inv)
  show "sl_inv t" if "sl_step s t" and "sl_inv s" for s t :: "'a server_loop"
    using that by (auto elim!: sl_stepE intro: sl_do_inv)
qed

subsection \<open>The loop inside the server\<close>

text \<open>A step of the server is a step of the loop model, or leaves the loop alone.\<close>

lemma sl_do_loop:
  assumes "sl_do m s = Some (Inr s')" and "sl_inv s"
  shows "sl_loop s' = sl_loop s \<or> loop_step (sl_loop s) (sl_loop s')"
  using assms
proof (induction m s rule: sl_do.induct)
  case (1 m s)
  then show ?case by (auto split: if_splits intro: loop_stepI)
next
  case (2 w s)
  from 2(1) obtain ps s1 ep where p: "poll mark_channel w s (sv_epoller (sl_server s)) = Inr (ps, s1, ep)"
    and s': "sl_loop s' = (sl_loop s1)\<lparr>lp_pc := Handling\<rparr>" and pc: "lp_pc (sl_loop s) = Polling"
    by (auto simp: bind_ok_Inr_iff split: if_splits)
  have "loop_do Poll_Returns (sl_loop s) = Some (sl_loop s')"
    using poll_inv [OF p 2(2)] s' pc by simp
  then show ?case by (blast intro: loop_stepI)
next
  case (3 io s)
  from 3(1) obtain p ps where pc: "lp_pc (sl_loop s) = Handling"
    and h: "handle_active io p (s\<lparr>sl_active := ps\<rparr>) = Inr s'"
    by (cases "sl_active s") (auto split: if_splits)
  let ?s = "s\<lparr>sl_active := ps\<rparr>"
  have "sl_inv ?s" using 3(2) by (rule sl_inv_same) (simp_all add: shell_def)
  then have f: "sl_fixed ?s" by (simp add: sl_inv_def)
  consider (own) "p = sl_addr ?s" | (acceptor) "p = ac_addr (sl_acceptor ?s)"
    | (conn) "p \<noteq> sl_addr ?s" "p \<noteq> ac_addr (sl_acceptor ?s)" by blast
  then show ?case
  proof cases
    case own
    with handle_wakeup [OF f own, of io] h have l: "sl_loop s' = sl_loop s
        \<or> sl_loop s' = (sl_loop s)\<lparr>lp_counter := loop_handleRead (lp_counter (sl_loop s))\<rparr>"
      by (auto split: if_splits)
    show ?thesis
    proof (cases "0 < lp_counter (sl_loop s)")
      case True
      then have "loop_do Wakeup_Event (sl_loop s) =
          Some ((sl_loop s)\<lparr>lp_counter := loop_handleRead (lp_counter (sl_loop s))\<rparr>)"
        using pc by simp
      with l show ?thesis by (metis loop_stepI)
    next
      case False
      with l show ?thesis by (auto simp: loop_handleRead_def)
    qed
  next
    case acceptor
    with handle_acceptor [OF f acceptor, of io] h have "s' = ?s \<or> acceptor_call io Acceptor_handleRead ?s = Inr s'"
      by (auto simp del: acceptor_call.simps split: if_splits)
    then show ?thesis by (auto simp del: acceptor_call.simps elim: acceptor_callE)
  next
    case conn
    with h show ?thesis by (auto simp: handle_active_def bind_ok_Inr_iff)
  qed
next
  case (4 s)
  then show ?case
    by (auto simp del: loop_do.simps split: if_splits intro: loop_stepI)
next
  case (5 oid s)
  then show ?case by (auto simp: on_server_def split: if_splits)
next
  case (6 oid s)
  then show ?case by (auto simp: on_server_def split: if_splits)
next
  case (7 oid wr m s)
  then show ?case by (auto simp: on_server_def bind_ok_Inr_iff split: if_splits option.splits)
next
  case (8 oid n s)
  then show ?case by (auto simp: on_server_def bind_ok_Inr_iff split: if_splits)
qed

lemma sl_start_loop: "sl_start s \<Longrightarrow> sl_loop s = loop_init"
  unfolding sl_start_def
  by (auto simp: tcp_server_ctor_def tcp_server_start_def bind_ok_Inr_iff Let_def case_prod_beta)

lemma reach_loop: "reach sl_start sl_step s \<Longrightarrow> reach loop_start loop_step (sl_loop s)"
proof (induction rule: reach.induct)
  case (reach_start s)
  then have "loop_start (sl_loop s)" by (simp add: loop_start_def sl_start_loop)
  then show ?case by (rule reach.reach_start)
next
  case (reach_step s t)
  from reach_step(2) obtain m where m: "sl_do m s = Some (Inr t)" by (rule sl_stepE)
  from sl_do_loop [OF m sls.reach_inv [OF reach_step(1)]] reach_step(3) show ?case
    by (auto intro: reach.reach_step)
qed

subsection \<open>Polls and events\<close>

lemma interest_alive:
  assumes "sl_inv s" and "ep_interest (sv_epoller (sl_server s)) fd = Some (x, p)"
  shows "p = sl_addr s \<and> fd = ch_fd (sl_wakeup s)
    \<or> p = ac_addr (sl_acceptor s) \<and> fd = ac_fd (sl_acceptor s)
    \<or> (\<exists>c. sv_heap (sl_server s) p = Some c \<and> conn_fd c = fd)"
proof -
  have f: "sl_fixed s" and i: "server_inv (others s) (sl_server s)"
    using assms(1) by (simp_all add: sl_inv_def server_good_def)
  show ?thesis
  proof (cases "others s fd")
    case None
    from server_invD(5) [OF i None assms(2)] show ?thesis by simp
  next
    case (Some y)
    with server_invD(6) [OF i Some] assms(2) have "others s fd = Some (x, p)" by simp
    then show ?thesis using others_fixed [OF f, of fd] by (auto split: if_splits)
  qed
qed

lemma mark_channel_alive:
  assumes "sl_inv s" and "\<exists>fd x. ep_interest (sv_epoller (sl_server s)) fd = Some (x, p)"
  shows "\<exists>s'. mark_channel p e s = Inr s'"
proof -
  from assms(2) obtain fd x where "ep_interest (sv_epoller (sl_server s)) fd = Some (x, p)" by blast
  from interest_alive [OF assms(1) this] show ?thesis by (auto simp: mark_channel_def)
qed

lemma poll_ok:
  assumes "sl_inv s" and "lp_pc (sl_loop s) = Polling" and "kernel_reports (Wait_Ready es) s"
  shows "\<exists>s'. sl_do (Sl_Poll (Wait_Ready es)) s = Some (Inr s') \<and> sl_active s' = map fst es
    \<and> lp_pc (sl_loop s') = Handling"
proof -
  let ?E = "sv_epoller (sl_server s)"
  have "\<exists>t. mark_ready mark_channel es s = Inr (map fst es, t) \<and> (sl_inv t \<and> sv_epoller (sl_server t) = ?E)"
  proof (rule mark_ready_total)
    fix p e and t :: "'a server_loop"
    assume t: "sl_inv t \<and> sv_epoller (sl_server t) = ?E" and p: "p \<in> set (map fst es)"
    from p assms(3) t have "\<exists>fd x. ep_interest (sv_epoller (sl_server t)) fd = Some (x, p)" by fastforce
    from mark_channel_alive [OF _ this] t obtain t' where t': "mark_channel p e t = Inr t'" by blast
    with mark_channel_inv [OF t'] t
    show "\<exists>t'. mark_channel p e t = Inr t' \<and> (sl_inv t' \<and> sv_epoller (sl_server t') = ?E)" by auto
  qed (use assms(1) in simp)
  then obtain t where "mark_ready mark_channel es s = Inr (map fst es, t)" by blast
  with assms(2,3) show ?thesis by (cases "es = []") (simp_all add: poll_def)
qed

text \<open>An event of a connection.\<close>

lemma handle_conn_eq:
  assumes "sl_inv s" and "lp_pc (sl_loop s) = Handling" and "sl_active s = oid # ps"
    and "answers_ok io oid s" and "sv_heap (sl_server s) oid = Some c"
  shows "sl_do (Sl_Handle io) s = Some (bind_ok
    (handleEvent (conn_channel oid) (server_call (io_read io) (io_write io) oid) (sl_server s))
    (\<lambda>sv. Inr (s\<lparr>sl_active := ps, sl_server := sv\<rparr>)))"
proof -
  have f: "sl_fixed s" and g: "server_inv (others s) (sl_server s)"
    using assms(1) by (simp_all add: sl_inv_def server_good_def)
  have "oid \<notin> addresses (others s)" using server_invD(7) [OF g assms(5)] .
  then have "oid \<noteq> sl_addr s" "oid \<noteq> ac_addr (sl_acceptor s)" by (simp_all add: addresses_fixed [OF f])
  then show ?thesis using assms(2-4) by (simp add: handle_active_def)
qed

lemma handle_connection:
  assumes "sl_inv s" and "lp_pc (sl_loop s) = Handling" and "sl_active s = oid # ps"
    and "answers_ok io oid s" and "sv_heap (sl_server s) oid = Some c"
  shows "if closes (io_read io) oid (ch_revents (c_channel c)) (sl_server s) \<and> sv_users (sl_server s) oid = 0
    then sl_do (Sl_Handle io) s = Some (Inl Use_After_Free)
    else \<exists>s'. sl_do (Sl_Handle io) s = Some (Inr s')"
proof -
  have g: "server_inv (others s) (sl_server s)" "no_leak (sl_server s)"
    using assms(1) by (simp_all add: sl_inv_def server_good_def)
  let ?h = "handleEvent (conn_channel oid) (server_call (io_read io) (io_write io) oid) (sl_server s)"
  note e = handle_conn_eq [OF assms(1-5)]
  have fit: "fits (io_read io) oid (sl_server s)" using assms(4) by (simp add: answers_ok_def)
  show ?thesis
  proof (cases "closes (io_read io) oid (ch_revents (c_channel c)) (sl_server s) \<and> sv_users (sl_server s) oid = 0")
    case True
    then have "sv_connections (sl_server s) (conn_fd c) = Some oid"
      using no_leakD [OF g(2) assms(5)] by simp
    from dispatch_frees [OF g(1) assms(5) this _ fit] True e show ?thesis by simp
  next
    case False
    have r: "ready (io_read io) (io_write io) oid (sl_server s)"
      using assms(4,5) server_invD(3) [OF g(1) assms(5)] fit
      by (simp add: ready_def ready_to_write_def answers_ok_def)
    have ch: "conn_channel oid (sl_server s) = Some (c_channel c)"
      using assms(5) by (simp add: conn_channel_def)
    have "0 < sv_users (sl_server s) oid" if "closes (io_read io) oid (ch_revents (c_channel c)) (sl_server s)"
      using False that by simp
    from dispatch_stays [OF g(1) r ch this] have "\<exists>sv. ?h = Inr sv" .
    with e have "\<exists>s'. sl_do (Sl_Handle io) s = Some (Inr s')" by (auto simp del: sl_do.simps)
    with False show ?thesis by (simp only: if_False)
  qed
qed

text \<open>A client that connects.\<close>

lemma handle_accept:
  assumes "sl_inv s" and "lp_pc (sl_loop s) = Handling" and "sl_active s = ac_addr (sl_acceptor s) # ps"
    and "answers_ok io (ac_addr (sl_acceptor s)) s"
    and "read_test (ch_revents (ac_channel (sl_acceptor s)))" and "io_accept io = Sys_Ok fd" and "0 \<le> fd"
  shows "\<exists>sv c. sl_do (Sl_Handle io) s = Some (Inr (s\<lparr>sl_active := ps, sl_server := sv\<rparr>))
    \<and> sv_connections sv = (sv_connections (sl_server s))(fd := Some (io_alloc io))
    \<and> sv_heap sv = (sv_heap (sl_server s))(io_alloc io := Some c) \<and> conn_fd c = fd \<and> isConnected c
    \<and> ch_events (c_channel c) = READ \<and> c_highWaterMark c = io_uninit io
    \<and> c_localAddr c = getLocalAddr (io_local io) \<and> c_peerAddr c = io_peer io
    \<and> c_inputBuffer c = new_buffer 1024 \<and> c_outputBuffer c = new_buffer 1024
    \<and> sv_users sv = sv_users (sl_server s)
    \<and> ep_interest (sv_epoller sv) fd = Some (READ, io_alloc io)
    \<and> sv_log sv = sv_log (sl_server s) @ [(io_alloc io, Ev_Connection CONNECTED)]"
proof -
  let ?s = "s\<lparr>sl_active := ps\<rparr>"
  have f: "sl_fixed s" and g: "server_inv (others s) (sl_server s)"
    using assms(1) by (simp_all add: sl_inv_def server_good_def)
  have "sl_fixed ?s" using f by (simp add: sl_fixed_def)
  from handle_acceptor [OF this, of "ac_addr (sl_acceptor s)" io] assms(5)
  have h: "handle_active io (ac_addr (sl_acceptor s)) ?s = acceptor_call io Acceptor_handleRead ?s"
    by (simp del: acceptor_call.simps)
  have a: "acceptor_handleRead (io_accept io) (io_peer io) (sl_acceptor s) = Inr (Call_Back fd (io_peer io))"
    using assms(6,7) f by (simp add: acceptor_handleRead_def sockets_accept_def sl_fixed_def)
  have n: "sv_heap (sl_server s) (io_alloc io) = None" "fd \<notin> sv_fds (sl_server s)" "others s fd = None"
    using assms(4,6) others_fixed [OF f] by (simp_all add: answers_ok_def)
  from newConnection_ok [OF g n, of "io_uninit io" "io_local io" "io_peer io"] obtain sv c where
      sv: "newConnection (io_alloc io) (io_uninit io) (io_local io) fd (io_peer io) (sl_server s) = Inr sv"
        "sv_connections sv = (sv_connections (sl_server s))(fd := Some (io_alloc io))"
        "sv_heap sv = (sv_heap (sl_server s))(io_alloc io := Some c)" "conn_fd c = fd" "isConnected c"
        "ch_events (c_channel c) = READ" "c_highWaterMark c = io_uninit io"
        "c_localAddr c = getLocalAddr (io_local io)" "c_peerAddr c = io_peer io"
        "c_inputBuffer c = new_buffer 1024" "c_outputBuffer c = new_buffer 1024"
        "sv_users sv = sv_users (sl_server s)" "ep_interest (sv_epoller sv) fd = Some (READ, io_alloc io)"
        "sv_log sv = sv_log (sl_server s) @ [(io_alloc io, Ev_Connection CONNECTED)]"
    by blast
  have "sl_do (Sl_Handle io) s = Some (Inr (s\<lparr>sl_active := ps, sl_server := sv\<rparr>))"
    using assms(2-4) h a sv(1) by simp
  with sv show ?thesis by blast
qed

end
