(* ===== verification/Server_Program.thy ===== *)
theory Server_Program
  imports Server_Loop
begin

text \<open>
  Runs of the program: what a server does from its start to its end, on every schedule of
  polls, events, functors and of the user's keeping, dropping and sending.
\<close>

section \<open>Runs\<close>

definition sl_next :: "'f sl_move \<Rightarrow> 'f server_loop \<Rightarrow> 'f server_loop option" where
  "sl_next m s = (case sl_do m s of Some (Inr s') \<Rightarrow> Some s' | _ \<Rightarrow> None)"

lemma sl_next_iff: "sl_next m s = Some s' \<longleftrightarrow> sl_do m s = Some (Inr s')"
  by (auto simp: sl_next_def split: option.splits sum.splits)

lemma sl_next_step: "sl_next m s = Some s' \<Longrightarrow> sl_step s s'"
  by (auto simp: sl_next_iff intro: sl_stepI)

lemma run_reach:
  "reach sl_start sl_step s \<Longrightarrow> schedule sl_next ms s = Some s' \<Longrightarrow> reach sl_start sl_step s'"
  using schedule_reach sl_next_step by metis

text \<open>From the events of one round to the next poll, when nothing was posted.\<close>

definition to_poll :: "'f sl_move list" where
  "to_poll = [Sl_Events_Done, Sl_Loop Swap, Sl_Loop Tasks_Done, Sl_Loop Test_Quit]"

lemma to_poll_run:
  assumes "lp_pc (sl_loop s) = Handling" and "sl_active s = []" and "lp_functors (sl_loop s) = []"
    and "\<not> lp_quit (sl_loop s)"
  shows "schedule sl_next to_poll s = Some (s\<lparr>sl_loop := (sl_loop s)
    \<lparr>lp_pc := Polling, lp_isDoingTask := False, lp_early := False\<rparr>\<rparr>)"
  using assms by (simp add: to_poll_def sl_next_def)

text \<open>A poll that reports one connection, and its event.\<close>

lemma poll_one:
  assumes "lp_pc (sl_loop s) = Polling" and "oid \<noteq> sl_addr s" and "oid \<noteq> ac_addr (sl_acceptor s)"
    and "sv_heap (sl_server s) oid = Some c"
    and "ep_interest (sv_epoller (sl_server s)) fd = Some (x, oid)"
  shows "\<exists>ep. sl_next (Sl_Poll (Wait_Ready [(oid, e)])) s = Some (s\<lparr>sl_active := [oid],
      sl_server := (sl_server s)\<lparr>sv_heap := (sv_heap (sl_server s))
        (oid := Some (c\<lparr>c_channel := setREvents e (c_channel c)\<rparr>)), sv_epoller := ep\<rparr>,
      sl_loop := (sl_loop s)\<lparr>lp_pc := Handling\<rparr>\<rparr>)
    \<and> ep_interest ep = ep_interest (sv_epoller (sl_server s))"
proof -
  let ?E = "sv_epoller (sl_server s)"
  have "\<exists>fd x. ep_interest ?E fd = Some (x, oid)" using assms(5) by blast
  then show ?thesis
    using assms(1-4)
    by (intro exI [of _ "if Suc 0 = ep_capacity ?E then ?E\<lparr>ep_capacity := ep_capacity ?E * 2\<rparr> else ?E"])
      (simp add: sl_next_def poll_def mark_channel_def)
qed

section \<open>Connections the user keeps\<close>

text \<open>Nothing is left to do, and the kernel watches connection \<open>oid\<close>, which the user holds.\<close>

definition idle_kept :: "answers \<Rightarrow> nat \<Rightarrow> 'f server_loop \<Rightarrow> bool" where
  "idle_kept io oid s \<longleftrightarrow> lp_pc (sl_loop s) = Handling \<and> sl_active s = [] \<and> lp_functors (sl_loop s) = []
     \<and> \<not> lp_quit (sl_loop s) \<and> sv_heap (sl_server s) oid \<noteq> None \<and> 0 < sv_users (sl_server s) oid
     \<and> (\<exists>fd x. ep_interest (sv_epoller (sl_server s)) fd = Some (x, oid)) \<and> answers_ok io oid s"

text \<open>A round in which the connection is reported with a hang-up.\<close>

definition hup_round :: "nat \<Rightarrow> answers \<Rightarrow> 'f sl_move list" where
  "hup_round oid io = to_poll @ [Sl_Poll (Wait_Ready [(oid, POLLHUP)]), Sl_Handle io]"

lemma hup_round_run:
  fixes s :: "'f server_loop"
  assumes "sl_inv s" and "idle_kept io oid s"
  shows "\<exists>s'. schedule sl_next (hup_round oid io) s = Some s' \<and> sl_inv s' \<and> idle_kept io oid s'
    \<and> sv_fds (sl_server s') = sv_fds (sl_server s)
    \<and> ep_interest (sv_epoller (sl_server s')) = ep_interest (sv_epoller (sl_server s))
    \<and> sv_log (sl_server s') = sv_log (sl_server s)
        @ [(oid, Ev_Connection DISCONNECTED), (oid, Ev_Close)]"
proof -
  from assms(2) obtain c fd x where h: "lp_pc (sl_loop s) = Handling" "sl_active s = []"
      "lp_functors (sl_loop s) = []" "\<not> lp_quit (sl_loop s)" "sv_heap (sl_server s) oid = Some c"
      "0 < sv_users (sl_server s) oid" "ep_interest (sv_epoller (sl_server s)) fd = Some (x, oid)"
      "answers_ok io oid s"
    by (auto simp: idle_kept_def)
  have f: "sl_fixed s" and g: "server_inv (others s) (sl_server s)"
    using assms(1) by (simp_all add: sl_inv_def server_good_def)
  have "oid \<notin> addresses (others s)" using server_invD(7) [OF g h(5)] .
  then have p: "oid \<noteq> sl_addr s" "oid \<noteq> ac_addr (sl_acceptor s)" by (simp_all add: addresses_fixed [OF f])
  have sc: "server_conn oid c" using server_invD(3) [OF g h(5)] .
  let ?s1 = "s\<lparr>sl_loop := (sl_loop s)\<lparr>lp_pc := Polling, lp_isDoingTask := False, lp_early := False\<rparr>\<rparr>"
  note r1 = to_poll_run [OF h(1-4)]
  obtain ep where r2: "sl_next (Sl_Poll (Wait_Ready [(oid, POLLHUP)])) ?s1 = Some (?s1\<lparr>sl_active := [oid],
      sl_server := (sl_server ?s1)\<lparr>sv_heap := (sv_heap (sl_server ?s1))
        (oid := Some (c\<lparr>c_channel := setREvents POLLHUP (c_channel c)\<rparr>)), sv_epoller := ep\<rparr>,
      sl_loop := (sl_loop ?s1)\<lparr>lp_pc := Handling\<rparr>\<rparr>)"
    and ep: "ep_interest ep = ep_interest (sv_epoller (sl_server s))"
    using poll_one [of ?s1 oid c fd x POLLHUP] p h(5,7) by auto
  let ?c = "c\<lparr>c_channel := setREvents POLLHUP (c_channel c)\<rparr>"
  let ?sv = "(sl_server s)\<lparr>sv_epoller := ep\<rparr>"
  define s2 where "s2 = ?s1\<lparr>sl_active := [oid],
      sl_server := ?sv\<lparr>sv_heap := (sv_heap ?sv)(oid := Some ?c)\<rparr>, sl_loop := (sl_loop ?s1)\<lparr>lp_pc := Handling\<rparr>\<rparr>"
  from r2 have n2: "sl_next (Sl_Poll (Wait_Ready [(oid, POLLHUP)])) ?s1 = Some s2" by (simp add: s2_def)
  obtain sv c' where e: "server_event (io_read io) (io_write io) oid POLLHUP ?sv = Inr sv"
    and sv: "sv_heap sv = (sv_heap ?sv)(oid := Some c')" "c_inputBuffer c' = c_inputBuffer c"
      "c_outputBuffer c' = c_outputBuffer c"
      "sv_users sv = sv_users ?sv" "sv_fds sv = sv_fds ?sv" "sv_epoller sv = ep"
      "sv_log sv = sv_log ?sv @ [(oid, Ev_Connection DISCONNECTED), (oid, Ev_Close)]"
    using hup_kept [of ?sv oid c "io_read io" "io_write io"] h(5,6) sc by auto
  have i1: "sl_inv ?s1" by (rule sl_inv_same [OF assms(1)]) (simp_all add: shell_def)
  have i2: "sl_inv s2" using sl_do_inv n2 i1 by (simp add: sl_next_iff del: sl_do.simps)
  have k2: "answers_ok io oid s2" using h(5,8) by (auto simp: answers_ok_def fits_def s2_def)
  have a2: "lp_pc (sl_loop s2) = Handling" "sl_active s2 = [oid]" "sv_heap (sl_server s2) oid = Some ?c"
    by (simp_all add: s2_def)
  have "handleEvent (conn_channel oid) (server_call (io_read io) (io_write io) oid) (sl_server s2) = Inr sv"
    using e h(5) by (simp add: server_event_def s2_def)
  with handle_conn_eq [OF i2 a2(1,2) k2 a2(3)]
  have n3: "sl_do (Sl_Handle io) s2 = Some (Inr (s2\<lparr>sl_active := [], sl_server := sv\<rparr>))" by simp
  let ?s' = "s2\<lparr>sl_active := [], sl_server := sv\<rparr>"
  have "schedule sl_next (hup_round oid io) s = Some ?s'"
    using r1 n2 n3 by (simp add: hup_round_def schedule_append sl_next_def del: sl_do.simps)
  moreover have "sl_inv ?s'" by (rule sl_do_inv [OF n3 i2])
  moreover have "idle_kept io oid ?s'"
    using h sv ep by (auto simp: idle_kept_def answers_ok_def fits_def s2_def)
  ultimately show ?thesis using sv ep by (intro exI [of _ ?s']) simp
qed

lemma hup_rounds:
  fixes s :: "'f server_loop"
  shows "sl_inv s \<Longrightarrow> idle_kept io oid s \<Longrightarrow>
    \<exists>s'. schedule sl_next (concat (replicate n (hup_round oid io))) s = Some s'
      \<and> sv_fds (sl_server s') = sv_fds (sl_server s)
      \<and> ep_interest (sv_epoller (sl_server s')) = ep_interest (sv_epoller (sl_server s))
      \<and> sv_log (sl_server s') = sv_log (sl_server s)
          @ concat (replicate n [(oid, Ev_Connection DISCONNECTED), (oid, Ev_Close)])"
proof (induction n arbitrary: s)
  case 0
  then show ?case by simp
next
  case (Suc n)
  from hup_round_run [OF Suc.prems] obtain s1 :: "'f server_loop" where
      s1: "schedule sl_next (hup_round oid io) s = Some s1" "sl_inv s1" "idle_kept io oid s1"
        "sv_fds (sl_server s1) = sv_fds (sl_server s)"
        "ep_interest (sv_epoller (sl_server s1)) = ep_interest (sv_epoller (sl_server s))"
        "sv_log (sl_server s1) = sv_log (sl_server s)
          @ [(oid, Ev_Connection DISCONNECTED), (oid, Ev_Close)]"
    by blast
  from Suc.IH [OF s1(2,3)] s1 show ?case by (auto simp: schedule_append)
qed

section \<open>Faults\<close>

text \<open>\<open>send\<close> faults only where it calls a high-water callback that is not set.\<close>

lemma send_fault:
  assumes "send_string wr m t = Inl e" and "buf_inv (c_outputBuffer (tw_conn t))"
    and "buf_room (c_outputBuffer (tw_conn t)) (length m)"
  shows "e = Bad_Function_Call \<and> \<not> high_water_safe (tw_conn t)"
proof -
  have len: "to_int32 (int (length m)) = int (length m)"
    using assms(3) buf_invD [OF assms(2)] by (simp add: buf_room_def cint)
  have d: "\<exists>n r b t1. send_direct wr m (int (length m)) t = Inr (n, r, b, t1) \<and> tw_conn t1 = tw_conn t
      \<and> r \<le> int (length m)"
    by (cases wr) (auto simp: send_direct_def Let_def kernel_write_def fire_def)
  then obtain n r b t1 where d: "send_direct wr m (int (length m)) t = Inr (n, r, b, t1)"
      "tw_conn t1 = tw_conn t" "r \<le> int (length m)"
    by blast
  have q: "send_queue m n r b t1 = Inl e" using assms(1) d(1) by (simp add: send_string_def send_bytes_def len)
  have "buf_room (c_outputBuffer (tw_conn t)) (length (take (nat r) (drop (nat n) m)))"
    using assms(3) by (simp add: buf_room_def)
  then obtain out where "append_bytes (c_outputBuffer (tw_conn t)) (take (nat r) (drop (nat n) m)) = Inr out"
    by (rule append_bytes_ok [OF assms(2)])
  with q d(2) show ?thesis
    by (auto simp: send_queue_def Let_def fire_def high_water_safe_def split: if_splits)
qed

text \<open>Where the acceptor's event faults.\<close>

lemma accept_fault:
  assumes "sl_inv s" and "answers_ok io (ac_addr (sl_acceptor s)) s"
    and "handle_active io (ac_addr (sl_acceptor s)) s = Inl e"
  shows "e = Aborted \<and> (\<exists>err. io_accept io = Sys_Err err \<and> \<not> accept_transient err)"
proof -
  have f: "sl_fixed s" and g: "server_inv (others s) (sl_server s)"
    using assms(1) by (simp_all add: sl_inv_def server_good_def)
  from handle_acceptor [OF f refl, of io] assms(3) have c: "acceptor_call io Acceptor_handleRead s = Inl e"
    by (simp del: acceptor_call.simps split: if_splits)
  show ?thesis
  proof (cases "io_accept io")
    case (Sys_Err err)
    with c show ?thesis by (auto simp: acceptor_handleRead_def sockets_accept_def split: if_splits)
  next
    case (Sys_Ok fd)
    then have n: "sv_heap (sl_server s) (io_alloc io) = None" "fd \<notin> sv_fds (sl_server s)" "others s fd = None"
      using assms(2) others_fixed [OF f] by (simp_all add: answers_ok_def)
    from newConnection_ok [OF g n, of "io_uninit io" "io_local io" "io_peer io"] c Sys_Ok f show ?thesis
      by (auto simp: acceptor_handleRead_def sockets_accept_def sl_fixed_def split: if_splits)
  qed
qed

lemma handle_gone:
  assumes "sl_inv s" and "p \<noteq> sl_addr s" and "p \<noteq> ac_addr (sl_acceptor s)" and "sv_heap (sl_server s) p = None"
  shows "handle_active io p s = Inl Use_After_Free"
  using assms by (simp add: handle_active_def handleEvent_def handle_if_freed conn_channel_def)

lemma handle_fault:
  assumes "sl_inv s" and "sl_do (Sl_Handle io) s = Some (Inl e)"
  shows "(\<exists>oid ps. sl_active s = oid # ps \<and> e = Use_After_Free
        \<and> (\<forall>c. sv_heap (sl_server s) oid = Some c \<longrightarrow> sv_users (sl_server s) oid = 0
            \<and> closes (io_read io) oid (ch_revents (c_channel c)) (sl_server s)))
    \<or> (\<exists>ps err. sl_active s = ac_addr (sl_acceptor s) # ps
        \<and> io_accept io = Sys_Err err \<and> \<not> accept_transient err \<and> e = Aborted)"
proof -
  from assms(2) obtain p ps where a: "sl_active s = p # ps" "lp_pc (sl_loop s) = Handling" "answers_ok io p s"
    and h: "handle_active io p (s\<lparr>sl_active := ps\<rparr>) = Inl e"
    by (cases "sl_active s") (auto split: if_splits)
  let ?s = "s\<lparr>sl_active := ps\<rparr>"
  have i: "sl_inv ?s" using assms(1) by (rule sl_inv_same) (simp_all add: shell_def)
  then have f: "sl_fixed ?s" by (simp add: sl_inv_def)
  have k: "answers_ok io p ?s" using a(3) by (simp add: answers_ok_def)
  show ?thesis
  proof (cases "p = ac_addr (sl_acceptor s)")
    case True
    with accept_fault [OF i, of io e] k h a(1) show ?thesis by simp
  next
    case nac: False
    show ?thesis
    proof (cases "sv_heap (sl_server s) p")
      case None
      have "p \<noteq> sl_addr s" using handle_wakeup [OF f, of p io] h by auto
      then have "e = Use_After_Free" using handle_gone [OF i, of p io] nac None h by simp
      with None a(1) show ?thesis by simp
    next
      case (Some c)
      with handle_connection [OF assms(1) a(2,1,3) Some] assms(2) a(1) show ?thesis
        by (auto simp del: sl_do.simps split: if_splits)
    qed
  qed
qed

lemma fault_cases:
  "sl_inv s \<Longrightarrow> sl_do m s = Some (Inl e) \<Longrightarrow>
    (\<exists>io oid ps. m = Sl_Handle io \<and> sl_active s = oid # ps \<and> e = Use_After_Free
        \<and> (\<forall>c. sv_heap (sl_server s) oid = Some c \<longrightarrow> sv_users (sl_server s) oid = 0
            \<and> closes (io_read io) oid (ch_revents (c_channel c)) (sl_server s)))
    \<or> (\<exists>io ps err. m = Sl_Handle io \<and> sl_active s = ac_addr (sl_acceptor s) # ps
        \<and> io_accept io = Sys_Err err \<and> \<not> accept_transient err \<and> e = Aborted)
    \<or> (\<exists>oid wr bs c. m = Sl_Send oid wr bs \<and> sv_heap (sl_server s) oid = Some c
        \<and> \<not> high_water_safe c \<and> e = Bad_Function_Call)"
proof (induction m s rule: sl_do.induct)
  case (2 w s)
  show ?case
  proof (cases w)
    case (Wait_Error err)
    with 2 show ?thesis by (simp add: poll_def split: if_splits)
  next
    case (Wait_Ready es)
    with 2(2) have "lp_pc (sl_loop s) = Polling" "kernel_reports (Wait_Ready es) s" by (simp_all split: if_splits)
    from poll_ok [OF 2(1) this] 2(2) Wait_Ready show ?thesis by auto
  qed
next
  case (3 io s)
  from handle_fault [OF 3] show ?case by (simp del: sl_do.simps)
next
  case (7 oid wr bs s)
  then obtain c where c: "sv_heap (sl_server s) oid = Some c" "buf_room (c_outputBuffer c) (length bs)"
    and e: "on_server (user_send wr bs oid) s = Inl e"
    by (auto split: option.splits if_splits)
  have "server_conn oid c" using 7(1) server_invD(3) [OF _ c(1)] by (auto simp: sl_inv_def server_good_def)
  then have inv: "buf_inv (c_outputBuffer c)" by (simp add: server_conn_def)
  let ?t = "\<lparr>tw_conn = c, tw_epoller = sv_epoller (sl_server s), tw_wire = sv_wire (sl_server s) oid, tw_trace = []\<rparr>"
  have "send_string wr bs ?t = Inl e"
    using e c(1) by (cases "send_string wr bs ?t") (simp_all add: on_server_def user_send_def on_connection_def Let_def)
  from send_fault [OF this] inv c show ?case by auto
next
  case (8 oid n s)
  then show ?case by (auto simp: on_server_def user_retrieve_def on_connection_def Let_def split: if_splits)
qed (auto simp: on_server_def split: if_splits)

section \<open>The end of the program\<close>

lemma program_exit_ok:
  assumes "sl_inv s" and "\<forall>oid. sv_users (sl_server s) oid = 0" and "distinct fds"
    and "set fds = dom (sv_connections (sl_server s))" and "ac_fd (sl_acceptor s) \<in> open_fds"
  shows "\<exists>sv ep. server_dtor fds (sl_server s) = Inr sv \<and> (\<forall>oid. sv_heap sv oid = None)
    \<and> program_exit fds open_fds s = Inr (ep, open_fds - {ac_fd (sl_acceptor s)})
    \<and> (\<forall>fd. ep_interest ep fd = None)"
proof -
  have f: "sl_fixed s" and g: "server_inv (others s) (sl_server s)" "no_leak (sl_server s)"
    using assms(1) by (simp_all add: sl_inv_def server_good_def)
  from server_dtor_frees [OF g(1) assms(2,3)] obtain sv where
      sv: "server_dtor fds (sl_server s) = Inr sv"
        "\<And>fd oid. fd \<in> set fds \<Longrightarrow> sv_connections (sl_server s) fd = Some oid \<Longrightarrow>
           sv_heap sv oid = None \<and> ep_interest (sv_epoller sv) fd = None"
        "\<And>oid. sv_heap (sl_server s) oid = None \<Longrightarrow> sv_heap sv oid = None"
        "\<And>fd. fd \<notin> set fds \<Longrightarrow> ep_interest (sv_epoller sv) fd = ep_interest (sv_epoller (sl_server s)) fd"
    by blast
  have owner: "\<exists>fd. sv_connections (sl_server s) fd = Some oid" if "sv_heap (sl_server s) oid = Some c" for oid c
    using no_leakD [OF g(2) that] assms(2) by auto
  have heap: "sv_heap sv oid = None" for oid
  proof (cases "sv_heap (sl_server s) oid")
    case None
    then show ?thesis by (rule sv(3))
  next
    case (Some c)
    from owner [OF this] obtain fd where "sv_connections (sl_server s) fd = Some oid" ..
    with sv(2) [of fd oid] assms(4) show ?thesis by (auto simp: dom_def)
  qed
  have left: "ep_interest (sv_epoller sv) fd = None" if "others s fd = None" for fd
  proof (cases "fd \<in> set fds")
    case True
    with assms(4) obtain oid where "sv_connections (sl_server s) fd = Some oid" by auto
    with sv(2) True show ?thesis by blast
  next
    case False
    have "ep_interest (sv_epoller (sl_server s)) fd = None"
    proof (rule ccontr)
      assume "ep_interest (sv_epoller (sl_server s)) fd \<noteq> None"
      then obtain e p where "ep_interest (sv_epoller (sl_server s)) fd = Some (e, p)" by auto
      from server_invD(5) [OF g(1) that this] obtain c where c: "sv_heap (sl_server s) p = Some c" "conn_fd c = fd"
        by blast
      from no_leakD [OF g(2) c(1)] assms(2) c(2) False assms(4) show False by auto
    qed
    with sv(4) [OF False] show ?thesis by simp
  qed
  let ?a = "sl_acceptor s" and ?w = "sl_wakeup s"
  have fx: "ch_fd (ac_channel ?a) = ac_fd ?a" "ch_fd ?w \<noteq> ac_fd ?a"
    using f by (simp_all add: sl_fixed_def)
  have o: "others s fd = None" if "fd \<noteq> ch_fd ?w" "fd \<noteq> ac_fd ?a" for fd
    using that others_fixed [OF f] by simp
  obtain ch ep1 where r: "removeChannel (ac_addr ?a) (disableAll (ac_channel ?a)) (sv_epoller sv) = (ch, ep1)"
    by fastforce
  have i1: "ep_interest ep1 fd = ep_interest (sv_epoller sv) fd" if "fd \<noteq> ac_fd ?a" for fd
    using r that fx(1) by (auto simp: removeChannel_def controlEpoll_def epoll_ctl_def disableAll_def Let_def
        split: if_splits)
  let ?ep1 = "kernel_close (ac_fd ?a) ep1"
  have a: "acceptor_dtor ?a (sv_epoller sv) open_fds = Inr (?ep1, open_fds - {ac_fd ?a})"
    using r assms(5) by (simp add: acceptor_dtor_def sockets_dtor_def close_fd_def)
  have n1: "ep_interest ?ep1 fd = None" if "fd \<noteq> ch_fd ?w" for fd
    using i1 [of fd] left [of fd] o [of fd] that by (auto simp: kernel_close_def)
  let ?l = "\<lparr>lo_addr = sl_addr s, lo_wakeupChannel = ?w, lo_poller = ?ep1\<rparr>"
  have "ep_interest (lo_poller (loop_dtor ?l)) fd = None" for fd
    using n1 [of fd]
    by (auto simp: loop_dtor_def removeChannel_def controlEpoll_def epoll_ctl_def disableAll_def Let_def
        kernel_close_def)
  moreover have "program_exit fds open_fds s = Inr (lo_poller (loop_dtor ?l), open_fds - {ac_fd ?a})"
    using sv(1) a by (simp add: program_exit_def)
  ultimately show ?thesis using sv(1) heap by blast
qed

section \<open>Examples\<close>

text \<open>
  The loop at address 100 with eventfd 4, the acceptor at 101 with descriptor 5, started; then
  with the acceptor reported; then with a connection at address 3 on descriptor 7.
\<close>

definition ex_loop :: loop_object where
  "ex_loop = projr (loop_ctor False 100 3 4)"

definition ex_made :: "nat server_loop" where
  "ex_made = projr (tcp_server_ctor ex_loop (Sys_Ok 5) (Sys_Ok 0) (Sys_Ok 0) (Sys_Ok 0) 101)"

definition ex_started :: "nat server_loop" where
  "ex_started = projr (tcp_server_start (Sys_Ok 0)
     (ex_made\<lparr>sl_server := setMessageCallback (sl_server ex_made)\<rparr>))"

lemma ex_loop: "loop_ctor False 100 3 4 = Inr ex_loop" "lo_addr ex_loop = 100"
  by (simp_all add: ex_loop_def loop_ctor_def new_epoller_def Let_def split: prod.split)

lemma ex_made: "tcp_server_ctor ex_loop (Sys_Ok 5) (Sys_Ok 0) (Sys_Ok 0) (Sys_Ok 0) 101 = Inr ex_made"
  by (simp add: ex_made_def tcp_server_ctor_def acceptor_ctor_def createNonblockingSocket_def
      sockets_bind_def Let_def)

lemma ex_made_state:
  "sl_server ex_made = server_ctor (lo_poller ex_loop) 100" "sl_addr ex_made = 100"
  "ac_addr (sl_acceptor ex_made) = 101" "ac_fd (sl_acceptor ex_made) = 5"
  by (simp_all add: ex_made_def tcp_server_ctor_def acceptor_ctor_def createNonblockingSocket_def
      sockets_bind_def setReadCallback_def Let_def ex_loop(2))

lemma tcp_server_startE:
  assumes "tcp_server_start lr s = Inr s'"
  obtains a ep pool where "acceptor_listen lr (sl_acceptor s) (sv_epoller (sl_server s)) = Inr (a, ep)"
    and "s' = s\<lparr>sl_acceptor := a, sl_server := (sl_server s)\<lparr>sv_pool := pool, sv_epoller := ep\<rparr>\<rparr>"
  using assms that by (auto simp: tcp_server_start_def bind_ok_Inr_iff Let_def case_prod_beta)

lemma ex_started: "tcp_server_start (Sys_Ok 0)
    (ex_made\<lparr>sl_server := setMessageCallback (sl_server ex_made)\<rparr>) = Inr ex_started"
  by (simp add: ex_started_def tcp_server_start_def acceptor_listen_def sockets_listen_def Let_def
      split: prod.split)

lemma ex_started_start: "sl_start ex_started"
proof -
  have sv: "setMessageCallback (sl_server ex_made) = (sl_server ex_made)\<lparr>sv_default_connection := True,
      sv_has_message := True, sv_has_writeComplete := False, sv_has_poolInit := False\<rparr>"
    by (simp add: setMessageCallback_def ex_made_state server_ctor_def)
  show ?thesis
    unfolding sl_start_def
    by (intro exI conjI, rule ex_loop(1), rule ex_made, simp, simp, rule sv, rule ex_started)
qed

lemma ex_started_state:
  "sl_loop ex_started = loop_init" "sl_addr ex_started = 100" "ac_addr (sl_acceptor ex_started) = 101"
  "ac_fd (sl_acceptor ex_started) = 5" "ch_fd (sl_wakeup ex_started) = 4"
  "sv_heap (sl_server ex_started) = (\<lambda>_. None)" "sv_users (sl_server ex_started) = (\<lambda>_. 0)"
  "sv_connections (sl_server ex_started) = (\<lambda>_. None)" "sv_fds (sl_server ex_started) = {}"
  "sv_log (sl_server ex_started) = []" "sl_active ex_started = []"
proof -
  have w: "ch_fd (lo_wakeupChannel ex_loop) = 4"
    by (simp add: ex_loop_def loop_ctor_def new_epoller_def epoll_eval Let_def)
  from ex_started obtain a ep pool where
      a: "acceptor_listen (Sys_Ok 0) (sl_acceptor ex_made)
        (sv_epoller (setMessageCallback (sl_server ex_made))) = Inr (a, ep)"
    and s: "ex_started = ex_made\<lparr>sl_acceptor := a, sl_server := (setMessageCallback (sl_server ex_made))
        \<lparr>sv_pool := pool, sv_epoller := ep\<rparr>\<rparr>"
    by (rule tcp_server_startE) simp
  have m: "sl_loop ex_made = loop_init" "sl_wakeup ex_made = lo_wakeupChannel ex_loop" "sl_active ex_made = []"
    by (simp_all add: ex_made_def tcp_server_ctor_def acceptor_ctor_def createNonblockingSocket_def
        sockets_bind_def Let_def)
  from a have a': "ac_addr a = 101" "ac_fd a = 5"
    by (auto simp: acceptor_listen_def sockets_listen_def Let_def ex_made_state split: prod.splits)
  show "sl_loop ex_started = loop_init" "sl_addr ex_started = 100" "ac_addr (sl_acceptor ex_started) = 101"
      "ac_fd (sl_acceptor ex_started) = 5" "ch_fd (sl_wakeup ex_started) = 4" "sl_active ex_started = []"
    unfolding s using m a' w ex_made_state(2) by simp_all
  show "sv_heap (sl_server ex_started) = (\<lambda>_. None)" "sv_users (sl_server ex_started) = (\<lambda>_. 0)"
      "sv_connections (sl_server ex_started) = (\<lambda>_. None)" "sv_fds (sl_server ex_started) = {}"
      "sv_log (sl_server ex_started) = []"
    unfolding s by (simp_all add: setMessageCallback_def ex_made_state server_ctor_def)
qed

lemma ex_started_reach: "reach sl_start sl_step ex_started"
  by (rule reach_start) (rule ex_started_start)

text \<open>The first rounds: a client comes, and is served on descriptor 7.\<close>

definition ex_answers :: "(int \<Rightarrow> read_result) \<Rightarrow> answers" where
  "ex_answers k = \<lparr>io_read = k, io_write = Wrote 0, io_accept = Sys_Ok 7,
     io_peer = addr_of_port Little 1024, io_local = Some (addr_of_port Little 80), io_alloc = 3, io_uninit = 0\<rparr>"

definition ex_waiting :: "nat server_loop" where
  "ex_waiting = the (schedule sl_next [Sl_Loop Enter_Loop, Sl_Loop Test_Quit,
     Sl_Poll (Wait_Ready [(101, POLLIN)])] ex_started)"

definition ex_serving :: "nat server_loop" where
  "ex_serving = the (sl_next (Sl_Handle (ex_answers (\<lambda>_. Read_Bytes []))) ex_waiting)"

lemma ex_waiting_run:
  "schedule sl_next [Sl_Loop Enter_Loop, Sl_Loop Test_Quit, Sl_Poll (Wait_Ready [(101, POLLIN)])] ex_started
    = Some ex_waiting"
  "sl_loop ex_waiting = loop_init\<lparr>lp_pc := Handling\<rparr>" "sl_active ex_waiting = [101]"
  "ac_addr (sl_acceptor ex_waiting) = 101" "sl_addr ex_waiting = 100"
  "ch_fd (sl_wakeup ex_waiting) = 4" "ac_fd (sl_acceptor ex_waiting) = 5"
  "sv_heap (sl_server ex_waiting) = (\<lambda>_. None)" "sv_users (sl_server ex_waiting) = (\<lambda>_. 0)"
  "sv_connections (sl_server ex_waiting) = (\<lambda>_. None)" "sv_fds (sl_server ex_waiting) = {}"
  "ch_revents (ac_channel (sl_acceptor ex_waiting)) = POLLIN"
proof -
  let ?E = "sv_epoller (sl_server ex_started)"
  have i: "sl_inv ex_started" by (rule sls.inv_start) (rule ex_started_start)
  then have f: "sl_fixed ex_started" and g: "server_inv (others ex_started) (sl_server ex_started)"
    by (simp_all add: sl_inv_def server_good_def)
  have "others ex_started 5 = Some (READ, 101)"
    by (simp add: others_fixed [OF f] ex_started_state)
  then have "ep_interest ?E 5 = Some (READ, 101)" using server_invD(6) [OF g] by blast
  then have k: "\<exists>fd x. ep_interest ?E fd = Some (x, 101)" by blast
  let ?E' = "if Suc 0 = ep_capacity ?E then ?E\<lparr>ep_capacity := ep_capacity ?E * 2\<rparr> else ?E"
  let ?s = "ex_started\<lparr>sl_acceptor := (sl_acceptor ex_started)
      \<lparr>ac_channel := setREvents POLLIN (ac_channel (sl_acceptor ex_started))\<rparr>, sl_active := [101],
      sl_server := (sl_server ex_started)\<lparr>sv_epoller := ?E'\<rparr>, sl_loop := loop_init\<lparr>lp_pc := Handling\<rparr>\<rparr>"
  have s: "schedule sl_next [Sl_Loop Enter_Loop, Sl_Loop Test_Quit, Sl_Poll (Wait_Ready [(101, POLLIN)])]
      ex_started = Some ?s"
    using k by (simp add: sl_next_def poll_def mark_channel_def ex_started_state loop_init_def)
  then show "schedule sl_next [Sl_Loop Enter_Loop, Sl_Loop Test_Quit, Sl_Poll (Wait_Ready [(101, POLLIN)])]
      ex_started = Some ex_waiting"
    unfolding ex_waiting_def by (simp del: schedule.simps)
  from s have e: "ex_waiting = ?s" unfolding ex_waiting_def by (simp del: schedule.simps)
  show "sl_loop ex_waiting = loop_init\<lparr>lp_pc := Handling\<rparr>" "sl_active ex_waiting = [101]"
      "ac_addr (sl_acceptor ex_waiting) = 101" "sl_addr ex_waiting = 100"
      "ch_fd (sl_wakeup ex_waiting) = 4" "ac_fd (sl_acceptor ex_waiting) = 5"
      "sv_heap (sl_server ex_waiting) = (\<lambda>_. None)" "sv_users (sl_server ex_waiting) = (\<lambda>_. 0)"
      "sv_connections (sl_server ex_waiting) = (\<lambda>_. None)" "sv_fds (sl_server ex_waiting) = {}"
      "ch_revents (ac_channel (sl_acceptor ex_waiting)) = POLLIN"
    unfolding e by (simp_all add: ex_started_state setREvents_def)
qed

lemma ex_waiting_reach: "reach sl_start sl_step ex_waiting"
  by (rule run_reach [OF ex_started_reach ex_waiting_run(1)])

lemma ex_serving:
  "sl_do (Sl_Handle (ex_answers (\<lambda>_. Read_Bytes []))) ex_waiting = Some (Inr ex_serving)"
  "sl_loop ex_serving = loop_init\<lparr>lp_pc := Handling\<rparr>" "sl_active ex_serving = []"
  "ac_addr (sl_acceptor ex_serving) = 101" "sl_addr ex_serving = 100"
  "\<exists>c. sv_heap (sl_server ex_serving) 3 = Some c \<and> conn_fd c = 7 \<and> c_inputBuffer c = new_buffer 1024
    \<and> c_outputBuffer c = new_buffer 1024 \<and> ch_events (c_channel c) = READ \<and> c_highWaterMark c = 0"
  "sv_users (sl_server ex_serving) = (\<lambda>_. 0)"
  "sv_connections (sl_server ex_serving) = (\<lambda>_. None)(7 := Some 3)"
  "ep_interest (sv_epoller (sl_server ex_serving)) 7 = Some (READ, 3)"
  "sv_heap (sl_server ex_serving) 9 = None"
proof -
  let ?io = "ex_answers (\<lambda>_. Read_Bytes [])"
  have ok: "answers_ok ?io (ac_addr (sl_acceptor ex_waiting)) ex_waiting"
    by (simp add: answers_ok_def ex_answers_def fits_def ex_waiting_run)
  have t: "read_test (ch_revents (ac_channel (sl_acceptor ex_waiting)))"
    by (simp add: ex_waiting_run read_test_def has_event_def poll_bits)
  have h: "lp_pc (sl_loop ex_waiting) = Handling" "sl_active ex_waiting = [ac_addr (sl_acceptor ex_waiting)]"
    by (simp_all add: ex_waiting_run)
  have a: "io_accept ?io = Sys_Ok 7" "io_alloc ?io = 3" "(0::int) \<le> 7" "io_uninit ?io = 0"
    by (simp_all add: ex_answers_def)
  from handle_accept [OF sls.reach_inv [OF ex_waiting_reach] h ok t a(1,3)] obtain sv c where
      s: "sl_do (Sl_Handle ?io) ex_waiting = Some (Inr (ex_waiting\<lparr>sl_active := [], sl_server := sv\<rparr>))"
    and sv: "sv_connections sv = (sv_connections (sl_server ex_waiting))(7 := Some 3)"
      "sv_heap sv = (sv_heap (sl_server ex_waiting))(3 := Some c)" "conn_fd c = 7" "c_inputBuffer c = new_buffer 1024" "c_outputBuffer c = new_buffer 1024"
      "ch_events (c_channel c) = READ" "c_highWaterMark c = 0"
      "sv_users sv = sv_users (sl_server ex_waiting)" "ep_interest (sv_epoller sv) 7 = Some (READ, 3)"
    unfolding a(2,4) by blast
  from s have e: "ex_serving = ex_waiting\<lparr>sl_active := [], sl_server := sv\<rparr>"
    unfolding ex_serving_def sl_next_def by (simp del: sl_do.simps)
  show "sl_do (Sl_Handle ?io) ex_waiting = Some (Inr ex_serving)" using s unfolding e .
  show "sl_loop ex_serving = loop_init\<lparr>lp_pc := Handling\<rparr>" "sl_active ex_serving = []"
      "ac_addr (sl_acceptor ex_serving) = 101" "sl_addr ex_serving = 100"
      "\<exists>c. sv_heap (sl_server ex_serving) 3 = Some c \<and> conn_fd c = 7 \<and> c_inputBuffer c = new_buffer 1024
        \<and> c_outputBuffer c = new_buffer 1024 \<and> ch_events (c_channel c) = READ \<and> c_highWaterMark c = 0"
      "sv_users (sl_server ex_serving) = (\<lambda>_. 0)"
      "sv_connections (sl_server ex_serving) = (\<lambda>_. None)(7 := Some 3)"
      "ep_interest (sv_epoller (sl_server ex_serving)) 7 = Some (READ, 3)"
      "sv_heap (sl_server ex_serving) 9 = None"
    unfolding e using sv by (simp_all add: ex_waiting_run)
qed

lemma ex_serving_reach: "reach sl_start sl_step ex_serving"
  by (rule reach_step [OF ex_waiting_reach]) (rule sl_stepI [OF ex_serving(1)])

text \<open>One event of that connection, which the user may keep before.\<close>

definition ex_kept :: "nat server_loop" where
  "ex_kept = the (sl_next (Sl_Keep 3) ex_serving)"

lemma ex_kept:
  "ex_kept = ex_serving\<lparr>sl_server := user_keeps 3 (sl_server ex_serving)\<rparr>"
  "reach sl_start sl_step ex_kept"
proof -
  have "sv_heap (sl_server ex_serving) 3 \<noteq> None" using ex_serving(6) by auto
  then have s: "sl_do (Sl_Keep 3) ex_serving
      = Some (Inr (ex_serving\<lparr>sl_server := user_keeps 3 (sl_server ex_serving)\<rparr>))"
    by (simp add: ex_serving(2) on_server_def)
  then show e: "ex_kept = ex_serving\<lparr>sl_server := user_keeps 3 (sl_server ex_serving)\<rparr>"
    by (simp add: ex_kept_def sl_next_def del: sl_do.simps)
  show "reach sl_start sl_step ex_kept"
    unfolding e by (rule reach_step [OF ex_serving_reach]) (rule sl_stepI [OF s])
qed

text \<open>Data for a connection that is reported readable.\<close>

lemma data_step:
  assumes "sl_inv s" and "lp_pc (sl_loop s) = Handling" and "sl_active s = oid # ps"
    and "answers_ok io oid s" and "sv_heap (sl_server s) oid = Some c"
    and "\<not> close_test (ch_revents (c_channel c))" and "read_test (ch_revents (c_channel c))"
    and "\<not> write_test (ch_revents (c_channel c))"
    and "io_read io (iov_capacity (c_inputBuffer c)) = Read_Bytes bs" and "bs \<noteq> []"
  shows "\<exists>b. buf_inv b \<and> content b = content (c_inputBuffer c) @ bs
    \<and> sl_do (Sl_Handle io) s = Some (Inr (s\<lparr>sl_active := ps, sl_server := (sl_server s)
        \<lparr>sv_heap := (sv_heap (sl_server s))(oid := Some (c\<lparr>c_inputBuffer := b\<rparr>)),
         sv_log := sv_log (sl_server s) @ [(oid, Ev_Message (content (c_inputBuffer c) @ bs))]\<rparr>\<rparr>))"
proof -
  have g: "server_inv (others s) (sl_server s)" using assms(1) by (simp add: sl_inv_def server_good_def)
  have k: "fits (io_read io) oid (sl_server s)" using assms(4) by (simp add: answers_ok_def)
  from dispatch_data [OF g assms(5) k assms(6-10), of "io_write io"] handle_conn_eq [OF assms(1-5)]
  show ?thesis by (auto simp del: sl_do.simps)
qed

definition ex_reported :: "events \<Rightarrow> nat server_loop" where
  "ex_reported e = the (schedule sl_next (to_poll @ [Sl_Poll (Wait_Ready [(3, e)])]) ex_serving)"

lemma ex_reported:
  "reach sl_start sl_step (ex_reported e)"
  "lp_pc (sl_loop (ex_reported e)) = Handling" "sl_active (ex_reported e) = [3]"
  "ac_addr (sl_acceptor (ex_reported e)) = 101" "sl_addr (ex_reported e) = 100"
  "ac_fd (sl_acceptor (ex_reported e)) = ac_fd (sl_acceptor ex_serving)"
  "ch_fd (sl_wakeup (ex_reported e)) = ch_fd (sl_wakeup ex_serving)"
  "sv_users (sl_server (ex_reported e)) = (\<lambda>_. 0)"
  "\<exists>c. sv_heap (sl_server (ex_reported e)) 3 = Some c \<and> c_inputBuffer c = new_buffer 1024
    \<and> c_outputBuffer c = new_buffer 1024 \<and> ch_revents (c_channel c) = e"
  "sv_heap (sl_server (ex_reported e)) 9 = None"
  "schedule sl_next (to_poll @ [Sl_Poll (Wait_Ready [(3, e)])]) ex_serving = Some (ex_reported e)"
proof -
  let ?s = "ex_serving\<lparr>sl_loop := loop_init\<lparr>lp_pc := Polling\<rparr>\<rparr>"
  have run: "schedule sl_next to_poll ex_serving = Some ?s"
    using to_poll_run [of ex_serving] ex_serving(2,3) by (simp add: loop_init_def)
  obtain c where c: "sv_heap (sl_server ex_serving) 3 = Some c" "c_inputBuffer c = new_buffer 1024"
      "c_outputBuffer c = new_buffer 1024"
    using ex_serving(6) by blast
  obtain ep where p: "sl_next (Sl_Poll (Wait_Ready [(3, e)])) ?s = Some (?s\<lparr>sl_active := [3],
      sl_server := (sl_server ?s)\<lparr>sv_heap := (sv_heap (sl_server ?s))
        (3 := Some (c\<lparr>c_channel := setREvents e (c_channel c)\<rparr>)), sv_epoller := ep\<rparr>,
      sl_loop := (sl_loop ?s)\<lparr>lp_pc := Handling\<rparr>\<rparr>)"
    using poll_one [of ?s 3 c 7 READ e] ex_serving(4,5,9) c(1) by auto
  note all = schedule_append [of sl_next to_poll "[Sl_Poll (Wait_Ready [(3, e)])]" ex_serving]
  from p have r: "ex_reported e = ?s\<lparr>sl_active := [3],
      sl_server := (sl_server ?s)\<lparr>sv_heap := (sv_heap (sl_server ?s))
        (3 := Some (c\<lparr>c_channel := setREvents e (c_channel c)\<rparr>)), sv_epoller := ep\<rparr>,
      sl_loop := (sl_loop ?s)\<lparr>lp_pc := Handling\<rparr>\<rparr>"
    unfolding ex_reported_def all by (simp add: run)
  show s: "schedule sl_next (to_poll @ [Sl_Poll (Wait_Ready [(3, e)])]) ex_serving = Some (ex_reported e)"
    using p unfolding ex_reported_def all by (simp add: run)
  show "reach sl_start sl_step (ex_reported e)" by (rule run_reach [OF ex_serving_reach s])
  show "lp_pc (sl_loop (ex_reported e)) = Handling" "sl_active (ex_reported e) = [3]"
      "ac_addr (sl_acceptor (ex_reported e)) = 101" "sl_addr (ex_reported e) = 100"
      "ac_fd (sl_acceptor (ex_reported e)) = ac_fd (sl_acceptor ex_serving)"
      "ch_fd (sl_wakeup (ex_reported e)) = ch_fd (sl_wakeup ex_serving)"
      "sv_users (sl_server (ex_reported e)) = (\<lambda>_. 0)"
      "\<exists>c. sv_heap (sl_server (ex_reported e)) 3 = Some c \<and> c_inputBuffer c = new_buffer 1024
        \<and> c_outputBuffer c = new_buffer 1024 \<and> ch_revents (c_channel c) = e"
      "sv_heap (sl_server (ex_reported e)) 9 = None"
    unfolding r using ex_serving c by (simp_all add: setREvents_def)
qed

definition ex_data :: "(int \<Rightarrow> read_result) \<Rightarrow> answers" where
  "ex_data k = (ex_answers k)\<lparr>io_accept := Sys_Err EAGAIN, io_alloc := 9\<rparr>"

lemma ex_data_ok:
  assumes "reads_ok k (new_buffer 1024)" and "sv_heap (sl_server s) 9 = None" and "sl_addr s = 100"
    and "ac_addr (sl_acceptor s) = 101"
    and "\<exists>c. sv_heap (sl_server s) 3 = Some c \<and> c_inputBuffer c = new_buffer 1024"
  shows "answers_ok (ex_data k) 3 s"
  using assms by (auto simp: answers_ok_def ex_data_def ex_answers_def fits_def write_within_def)

lemma ex_reads:
  "reads_ok (\<lambda>_. Read_Bytes []) (new_buffer 1024)"
  "reads_ok (\<lambda>n. Read_Bytes (take (nat n) [1, 2])) (new_buffer 1024)"
  "take (nat (iov_capacity (new_buffer 1024))) [1, 2 :: byte] = [1, 2]"
  by (auto simp: reads_ok_def readv_within_def buf_room_def new_buffer_def buf_consts iov_capacity_def
      writableBytes_def buf_size_def sizeof_extrabuf_def cint)

lemma ex_tests:
  "read_test POLLIN" "\<not> close_test POLLIN" "\<not> write_test POLLIN"
  by (simp_all add: close_test_def read_test_def write_test_def has_event_def poll_bits)

lemma ex_eof:
  "\<exists>c. sv_heap (sl_server (ex_reported POLLIN)) 3 = Some c \<and> c_inputBuffer c = new_buffer 1024
    \<and> ch_revents (c_channel c) = POLLIN \<and> answers_ok (ex_data (\<lambda>_. Read_Bytes [])) 3 (ex_reported POLLIN)"
proof -
  let ?s = "ex_reported POLLIN"
  obtain c where c: "sv_heap (sl_server ?s) 3 = Some c" "c_inputBuffer c = new_buffer 1024"
      "ch_revents (c_channel c) = POLLIN"
    using ex_reported(9) [of POLLIN] by blast
  have "answers_ok (ex_data (\<lambda>_. Read_Bytes [])) 3 ?s"
    using c ex_reported(4,5,10) ex_reads(1) by (intro ex_data_ok) auto
  with c show ?thesis by blast
qed

lemma ex_eof_fault:
  "sl_do (Sl_Handle (ex_data (\<lambda>_. Read_Bytes []))) (ex_reported POLLIN) = Some (Inl Use_After_Free)"
proof -
  from ex_eof obtain c where c: "sv_heap (sl_server (ex_reported POLLIN)) 3 = Some c"
      "ch_revents (c_channel c) = POLLIN"
    and k: "answers_ok (ex_data (\<lambda>_. Read_Bytes [])) 3 (ex_reported POLLIN)"
    by blast
  from handle_connection [OF sls.reach_inv [OF ex_reported(1)] ex_reported(2,3) k c(1)] show ?thesis
    using c ex_tests(1) ex_reported(8)
    by (simp add: ex_data_def ex_answers_def closes_def at_eof_def del: sl_do.simps)
qed

section \<open>Properties\<close>

text \<open>
  C39. The loop inside the server: whatever events, clients and users come between, the loop's own
  state is one the loop model reaches; the functors run are, with those in hand and those
  queued, the ones posted, in order, and a poll with a functor queued or with \<open>quit\<close> called
  is woken, but for a functor the own thread posted before it entered \<open>loop\<close>.
\<close>

theorem server_refines_loop:
  assumes "reach sl_start sl_step s"
  shows "reach loop_start loop_step (sl_loop s)
    \<and> (\<exists>fs. lp_run (sl_loop s) @ fs @ lp_functors (sl_loop s) = lp_posted (sl_loop s))
    \<and> (lp_pc (sl_loop s) = Polling \<longrightarrow> lp_functors (sl_loop s) \<noteq> [] \<and> \<not> lp_early (sl_loop s) \<or> lp_quit (sl_loop s)
        \<longrightarrow> 0 < lp_counter (sl_loop s) \<or> 0 < lp_wakers (sl_loop s))"
  using reach_loop [OF assms] lps.reach_inv [OF reach_loop [OF assms]]
  by (auto simp: loop_inv_def wake_due_def)

theorem server_refines_loop_witness: "reach loop_start loop_step (sl_loop ex_serving)"
  using server_refines_loop [OF ex_serving_reach] by blast

text \<open>
  C2. The kernel never holds a dangling address: in every state the program reaches, whatever
  connections came, were read, written, closed, kept and dropped, each entry of the interest
  list is the loop's own channel, the acceptor's, or a living connection with that
  descriptor; each entry of the map names a living connection; and each living connection is
  in the map or the user holds it.
\<close>

theorem kernel_never_dangles:
  assumes "reach sl_start sl_step s"
  shows "(\<forall>fd e p. ep_interest (sv_epoller (sl_server s)) fd = Some (e, p) \<longrightarrow>
        p = sl_addr s \<and> fd = ch_fd (sl_wakeup s) \<or> p = ac_addr (sl_acceptor s) \<and> fd = ac_fd (sl_acceptor s)
        \<or> (\<exists>c. sv_heap (sl_server s) p = Some c \<and> conn_fd c = fd))
    \<and> (\<forall>fd oid. sv_connections (sl_server s) fd = Some oid \<longrightarrow>
        (\<exists>c. sv_heap (sl_server s) oid = Some c \<and> conn_fd c = fd))
    \<and> (\<forall>oid c. sv_heap (sl_server s) oid = Some c \<longrightarrow> conn_fd c \<in> sv_fds (sl_server s)
        \<and> (0 < sv_users (sl_server s) oid \<or> sv_connections (sl_server s) (conn_fd c) = Some oid))"
proof -
  have i: "sl_inv s" using sls.reach_inv [OF assms] .
  then have g: "server_inv (others s) (sl_server s)" "no_leak (sl_server s)"
    by (simp_all add: sl_inv_def server_good_def)
  show ?thesis
    using interest_alive [OF i] server_invD(1,2) [OF g(1)] no_leakD [OF g(2)] by blast
qed

theorem kernel_never_dangles_witness: "\<exists>c. sv_heap (sl_server ex_serving) 3 = Some c \<and> conn_fd c = 7"
proof -
  have "sv_connections (sl_server ex_serving) 7 = Some 3" using ex_serving(8) by simp
  with kernel_never_dangles [OF ex_serving_reach] show ?thesis by blast
qed

text \<open>
  C3. Events and faults: the event of a connection makes the program use freed memory exactly when
  it closes the connection (a hang-up, or an end of stream that \<open>handleRead\<close> finds) and the
  user does not hold it; then the close callback releases the last owner, and the channel
  whose \<open>handleEvent\<close> is running is freed before its next test. Every other event of a
  living connection returns.
\<close>

theorem peer_close_use_after_free:
  assumes "reach sl_start sl_step s" and "lp_pc (sl_loop s) = Handling" and "sl_active s = oid # ps"
    and "answers_ok io oid s" and "sv_heap (sl_server s) oid = Some c"
  shows "if sv_users (sl_server s) oid = 0 \<and> (close_test (ch_revents (c_channel c))
      \<or> read_test (ch_revents (c_channel c)) \<and> io_read io (iov_capacity (c_inputBuffer c)) = Read_Bytes [])
    then sl_do (Sl_Handle io) s = Some (Inl Use_After_Free)
    else \<exists>s'. sl_do (Sl_Handle io) s = Some (Inr s')"
  using handle_connection [OF sls.reach_inv [OF assms(1)] assms(2-5)] assms(5)
  by (simp add: closes_def at_eof_def conj_commute del: sl_do.simps)

theorem peer_close_use_after_free_witness:
  "sl_do (Sl_Handle (ex_data (\<lambda>_. Read_Bytes []))) (ex_reported POLLIN) = Some (Inl Use_After_Free)"
proof -
  from ex_eof obtain c where c: "sv_heap (sl_server (ex_reported POLLIN)) 3 = Some c"
      "ch_revents (c_channel c) = POLLIN"
    and k: "answers_ok (ex_data (\<lambda>_. Read_Bytes [])) 3 (ex_reported POLLIN)"
    by blast
  from peer_close_use_after_free [OF ex_reported(1-3) k c(1)] show ?thesis
    using c ex_tests(1) ex_reported(8) by (simp add: ex_data_def ex_answers_def del: sl_do.simps)
qed

text \<open>
  C37. A client that connects: when the acceptor's channel is handled with a readable event, the
  server has a new connection in its map under the descriptor \<open>accept4\<close> returned,
  connected, with empty buffers, announced to the user and watched for reading with its own
  address; every other connection is as it was.
\<close>

theorem newConnection_serves:
  assumes "reach sl_start sl_step s" and "lp_pc (sl_loop s) = Handling"
    and "sl_active s = ac_addr (sl_acceptor s) # ps" and "answers_ok io (ac_addr (sl_acceptor s)) s"
    and "read_test (ch_revents (ac_channel (sl_acceptor s)))" and "io_accept io = Sys_Ok fd" and "0 \<le> fd"
  shows "\<exists>s' c. sl_do (Sl_Handle io) s = Some (Inr s') \<and> sl_active s' = ps
    \<and> sv_connections (sl_server s') = (sv_connections (sl_server s))(fd := Some (io_alloc io))
    \<and> sv_heap (sl_server s') = (sv_heap (sl_server s))(io_alloc io := Some c)
    \<and> conn_fd c = fd \<and> isConnected c
    \<and> c_localAddr c = getLocalAddr (io_local io) \<and> c_peerAddr c = io_peer io
    \<and> c_inputBuffer c = new_buffer 1024 \<and> c_outputBuffer c = new_buffer 1024
    \<and> ep_interest (sv_epoller (sl_server s')) fd = Some (READ, io_alloc io)
    \<and> sv_log (sl_server s') = sv_log (sl_server s) @ [(io_alloc io, Ev_Connection CONNECTED)]"
proof -
  from handle_accept [OF sls.reach_inv [OF assms(1)] assms(2-7)] obtain sv c where
      "sl_do (Sl_Handle io) s = Some (Inr (s\<lparr>sl_active := ps, sl_server := sv\<rparr>))"
      "sv_connections sv = (sv_connections (sl_server s))(fd := Some (io_alloc io))"
      "sv_heap sv = (sv_heap (sl_server s))(io_alloc io := Some c)" "conn_fd c = fd" "isConnected c"
      "c_localAddr c = getLocalAddr (io_local io)" "c_peerAddr c = io_peer io"
      "c_inputBuffer c = new_buffer 1024" "c_outputBuffer c = new_buffer 1024"
      "ep_interest (sv_epoller sv) fd = Some (READ, io_alloc io)"
      "sv_log sv = sv_log (sl_server s) @ [(io_alloc io, Ev_Connection CONNECTED)]"
    by blast
  then show ?thesis
    by (intro exI [of _ "s\<lparr>sl_active := ps, sl_server := sv\<rparr>"] exI [of _ c]) (simp del: sl_do.simps)
qed

theorem newConnection_serves_witness:
  "\<exists>s'. sl_do (Sl_Handle (ex_answers (\<lambda>_. Read_Bytes []))) ex_waiting = Some (Inr s')
    \<and> sv_connections (sl_server s') 7 = Some 3"
proof -
  let ?io = "ex_answers (\<lambda>_. Read_Bytes [])"
  have "answers_ok ?io (ac_addr (sl_acceptor ex_waiting)) ex_waiting"
    by (simp add: answers_ok_def ex_answers_def fits_def ex_waiting_run)
  moreover have "read_test (ch_revents (ac_channel (sl_acceptor ex_waiting)))"
    by (simp add: ex_waiting_run ex_tests)
  moreover have "lp_pc (sl_loop ex_waiting) = Handling" "sl_active ex_waiting = [ac_addr (sl_acceptor ex_waiting)]"
    by (simp_all add: ex_waiting_run)
  moreover have a: "io_accept ?io = Sys_Ok 7" "io_alloc ?io = 3" "(0::int) \<le> 7" by (simp_all add: ex_answers_def)
  ultimately show ?thesis
    using newConnection_serves [OF ex_waiting_reach, of "[]" ?io 7] by (auto simp del: sl_do.simps)
qed

text \<open>
  C38. Data that arrives: when the channel of a living connection is handled with a readable event
  and \<open>readv\<close> delivers bytes, they are appended to what the user left in the input buffer, the
  message callback sees both, and nothing else of the server changes.
\<close>

theorem data_reaches_user:
  assumes "reach sl_start sl_step s" and "lp_pc (sl_loop s) = Handling" and "sl_active s = oid # ps"
    and "answers_ok io oid s" and "sv_heap (sl_server s) oid = Some c"
    and "\<not> close_test (ch_revents (c_channel c))" and "read_test (ch_revents (c_channel c))"
    and "\<not> write_test (ch_revents (c_channel c))"
    and "io_read io (iov_capacity (c_inputBuffer c)) = Read_Bytes bs" and "bs \<noteq> []"
  shows "\<exists>b. buf_inv b \<and> content b = content (c_inputBuffer c) @ bs
    \<and> sl_do (Sl_Handle io) s = Some (Inr (s\<lparr>sl_active := ps, sl_server := (sl_server s)
        \<lparr>sv_heap := (sv_heap (sl_server s))(oid := Some (c\<lparr>c_inputBuffer := b\<rparr>)),
         sv_log := sv_log (sl_server s) @ [(oid, Ev_Message (content (c_inputBuffer c) @ bs))]\<rparr>\<rparr>))"
  by (rule data_step [OF sls.reach_inv [OF assms(1)] assms(2-10)])

theorem data_reaches_user_witness:
  "\<exists>s'. sl_do (Sl_Handle (ex_data (\<lambda>n. Read_Bytes (take (nat n) [1, 2])))) (ex_reported POLLIN) = Some (Inr s')
    \<and> sv_log (sl_server s') = sv_log (sl_server (ex_reported POLLIN)) @ [(3, Ev_Message [1, 2])]"
proof -
  let ?s = "ex_reported POLLIN" and ?io = "ex_data (\<lambda>n. Read_Bytes (take (nat n) [1, 2]))"
  obtain c where c: "sv_heap (sl_server ?s) 3 = Some c" "c_inputBuffer c = new_buffer 1024"
      "ch_revents (c_channel c) = POLLIN"
    using ex_reported(9) [of POLLIN] by blast
  have k: "answers_ok ?io 3 ?s"
    using c ex_reported(4,5,10) ex_reads(2) by (intro ex_data_ok) auto
  have r: "io_read ?io (iov_capacity (c_inputBuffer c)) = Read_Bytes [1, 2]"
    using c(2) ex_reads(3) by (simp add: ex_data_def ex_answers_def)
  have e: "content (new_buffer 1024) = []" by simp
  show ?thesis
    using data_reaches_user [OF ex_reported(1-3) k c(1) _ _ _ r] c(2,3) ex_tests e
    by (auto simp del: sl_do.simps)
qed

text \<open>
  A connection the user keeps is never taken out of the poller when its peer hangs up: its
  descriptor stays open and the kernel's entry stays, so a loop with nothing else to do is
  woken by the hang-up in every round, without end, and each round announces the disconnection
  to the user once more.
\<close>

theorem kept_connection_spins:
  assumes "reach sl_start sl_step s" and "idle_kept io oid s"
  shows "\<exists>s'. schedule sl_next (concat (replicate n (hup_round oid io))) s = Some s'
    \<and> sv_fds (sl_server s') = sv_fds (sl_server s)
    \<and> ep_interest (sv_epoller (sl_server s')) = ep_interest (sv_epoller (sl_server s))
    \<and> sv_log (sl_server s') = sv_log (sl_server s)
        @ concat (replicate n [(oid, Ev_Connection DISCONNECTED), (oid, Ev_Close)])"
  by (rule hup_rounds [OF sls.reach_inv [OF assms(1)] assms(2)])

theorem kept_connection_spins_witness:
  "\<exists>s'. schedule sl_next (concat (replicate 5 (hup_round 3 (ex_data (\<lambda>_. Read_Bytes []))))) ex_kept = Some s'
    \<and> ep_interest (sv_epoller (sl_server s')) 7 = Some (READ, 3)"
proof -
  let ?io = "ex_data (\<lambda>_. Read_Bytes [])"
  have u: "sl_addr ex_kept = 100" "ac_addr (sl_acceptor ex_kept) = 101"
      "sv_heap (sl_server ex_kept) = sv_heap (sl_server ex_serving)"
      "sv_epoller (sl_server ex_kept) = sv_epoller (sl_server ex_serving)"
      "sl_loop ex_kept = loop_init\<lparr>lp_pc := Handling\<rparr>" "sl_active ex_kept = []" "0 < sv_users (sl_server ex_kept) 3"
    using ex_serving by (simp_all add: ex_kept(1) user_keeps_def)
  have "answers_ok ?io 3 ex_kept"
    using u ex_serving(6,10) ex_reads(1) by (intro ex_data_ok) auto
  then have "idle_kept ?io 3 ex_kept"
    using u ex_serving(6,9) by (auto simp: idle_kept_def loop_init_def)
  from kept_connection_spins [OF ex_kept(2) this, of 5] show ?thesis
    using u(4) ex_serving(9) by auto
qed

text \<open>
  C40. The end of the program, when the user holds no connection: the destructors of the server, of
  its acceptor and of the loop destroy every connection, close the listening socket, leave
  the kernel's interest list empty, and nothing faults.
\<close>

theorem program_exit_clean:
  assumes "reach sl_start sl_step s" and "\<forall>oid. sv_users (sl_server s) oid = 0" and "distinct fds"
    and "set fds = dom (sv_connections (sl_server s))" and "ac_fd (sl_acceptor s) \<in> open_fds"
  shows "\<exists>sv ep. server_dtor fds (sl_server s) = Inr sv \<and> (\<forall>oid. sv_heap sv oid = None)
    \<and> program_exit fds open_fds s = Inr (ep, open_fds - {ac_fd (sl_acceptor s)})
    \<and> (\<forall>fd. ep_interest ep fd = None)"
  by (rule program_exit_ok [OF sls.reach_inv [OF assms(1)] assms(2-5)])

theorem program_exit_clean_witness:
  "\<exists>ep. program_exit [7] {0, ac_fd (sl_acceptor ex_serving)} ex_serving
    = Inr (ep, {0, ac_fd (sl_acceptor ex_serving)} - {ac_fd (sl_acceptor ex_serving)})"
  using program_exit_clean [OF ex_serving_reach, of "[7]" "{0, ac_fd (sl_acceptor ex_serving)}"]
    ex_serving(7,8)
  by auto

text \<open>
  Where the program can fault: at an event of a connection that closes it while only the
  server holds it, or that was destroyed since the poll; at a failure of \<open>accept4\<close> that
  \<open>Sockets::accept\<close> takes for fatal; and at a \<open>send\<close> whose connection has an uninitialised
  high-water mark and no callback for it. No other step of a running program faults.
\<close>

theorem program_faults_located:
  assumes "reach sl_start sl_step s" and "sl_do m s = Some (Inl e)"
  shows "(\<exists>io oid ps. m = Sl_Handle io \<and> sl_active s = oid # ps \<and> e = Use_After_Free
        \<and> (\<forall>c. sv_heap (sl_server s) oid = Some c \<longrightarrow> sv_users (sl_server s) oid = 0
            \<and> (close_test (ch_revents (c_channel c)) \<or> read_test (ch_revents (c_channel c))
                \<and> io_read io (iov_capacity (c_inputBuffer c)) = Read_Bytes [])))
    \<or> (\<exists>io ps err. m = Sl_Handle io \<and> sl_active s = ac_addr (sl_acceptor s) # ps
        \<and> io_accept io = Sys_Err err \<and> \<not> accept_transient err \<and> e = Aborted)
    \<or> (\<exists>oid wr bs c. m = Sl_Send oid wr bs \<and> sv_heap (sl_server s) oid = Some c
        \<and> \<not> high_water_safe c \<and> e = Bad_Function_Call)"
  using fault_cases [OF sls.reach_inv [OF assms(1)] assms(2)] by (fastforce simp: closes_def at_eof_def)

theorem program_faults_located_witness:
  "\<exists>c. sv_heap (sl_server (ex_reported POLLIN)) 3 = Some c \<and> sv_users (sl_server (ex_reported POLLIN)) 3 = 0
    \<and> sl_do (Sl_Handle (ex_data (\<lambda>_. Read_Bytes []))) (ex_reported POLLIN) = Some (Inl Use_After_Free)"
  using program_faults_located [OF ex_reported(1) ex_eof_fault] ex_eof ex_reported(3) [of POLLIN] ex_eof_fault
  by (auto simp del: sl_do.simps)

end
