(* ===== verification/Library_Tests.thy ===== *)
theory Library_Tests
  imports Server_Log Server_Program
begin

text \<open>
  Test programs of \<open>test/\<close> as programs of the model: \<open>Buffer_test.cpp\<close> and
  \<open>INetAddress_test.cpp\<close>, which run to their end on a host of either byte order (a failed
  \<open>assert\<close> aborts), and \<open>TcpServer_test.cpp\<close>, whose \<open>main\<close> is a start of the server program.
\<close>

section \<open>Definitions\<close>

definition require :: "bool \<Rightarrow> 'a outcome \<Rightarrow> 'a outcome" where
  "require b x = (if b then x else Inl Aborted)"

definition chars :: "string \<Rightarrow> byte list" where
  "chars s = map of_char s"

definition as_string :: "byte list \<Rightarrow> string" where
  "as_string bs = map (\<lambda>b. char_of (uint b)) bs"

subsection \<open>\<open>test/Buffer_test.cpp\<close>\<close>

text \<open>The blocks of \<open>main\<close>, in order.\<close>

definition buffer_test1 :: "unit outcome" where
  "buffer_test1 =
     (let buf1 = new_buffer kInitialSize in
      require (writableBytes buf1 = kInitialSize \<and> readableBytes buf1 = 0
               \<and> prependableBytes buf1 = kPrependSize)
     (bind_ok (append_bytes (new_buffer kInitialSize) (replicate 200 48)) (\<lambda>buf2.
      require (writableBytes buf2 = kInitialSize - 200 \<and> readableBytes buf2 = 200
               \<and> prependableBytes buf2 = kPrependSize)
     (bind_ok (retrieveAsString buf2 60) (\<lambda>(r_str2, buf2).
      require (length r_str2 = 60 \<and> readableBytes buf2 = 140 \<and> writableBytes buf2 = kInitialSize - 200
               \<and> prependableBytes buf2 = kPrependSize + int (length r_str2))
     (bind_ok (append_bytes buf2 (replicate 200 48)) (\<lambda>buf2.
      require (writableBytes buf2 = kInitialSize - 400 \<and> readableBytes buf2 = 340
               \<and> prependableBytes buf2 = kPrependSize + int (length r_str2))
     (bind_ok (retrieveAllAsString buf2) (\<lambda>(r_str3, buf2).
      require (length r_str3 = 340 \<and> readableBytes buf2 = 0 \<and> writableBytes buf2 = kInitialSize
               \<and> prependableBytes buf2 = kPrependSize) (Inr ()))))))))))"

definition buffer_test2 :: "unit outcome" where
  "buffer_test2 =
     bind_ok (append_bytes (new_buffer kInitialSize) (replicate 400 48)) (\<lambda>buf3.
      require (readableBytes buf3 = 400 \<and> writableBytes buf3 = kInitialSize - 400)
     (bind_ok (append_bytes buf3 (replicate 1400 49)) (\<lambda>buf3.
      require (readableBytes buf3 = 1800 \<and> writableBytes buf3 = 0)
     (let buf3 = retrieveAll buf3 in
      require (readableBytes buf3 = 0 \<and> writableBytes buf3 = 1800 \<and> prependableBytes buf3 = 8)
     (bind_ok (append_bytes (new_buffer kInitialSize) (replicate 800 50)) (\<lambda>buf4.
      require (readableBytes buf4 = 800 \<and> writableBytes buf4 = kInitialSize - 800)
     (let buf4 = retrieve buf4 500 in
      require (readableBytes buf4 = 300 \<and> writableBytes buf4 = kInitialSize - 800
               \<and> prependableBytes buf4 = 8 + 500)
     (bind_ok (append_bytes buf4 (replicate 300 51)) (\<lambda>buf4.
      require (readableBytes buf4 = 600 \<and> writableBytes buf4 = kInitialSize - 600
               \<and> prependableBytes buf4 = 8) (Inr ()))))))))))"

definition buffer_test3 :: "endian \<Rightarrow> unit outcome" where
  "buffer_test3 e =
     bind_ok (append_bytes (new_buffer kInitialSize) (chars ''11111'')) (\<lambda>buf5.
      require (readableBytes buf5 = 5 \<and> prependableBytes buf5 = 8)
     (bind_ok (prependInt16 e buf5 5) (\<lambda>buf5.
      require (prependableBytes buf5 = 6 \<and> readableBytes buf5 = 5 + 2) (Inr ()))))"

fun read_chars :: "endian \<Rightarrow> byte list \<Rightarrow> buffer \<Rightarrow> buffer outcome" where
  "read_chars e [] buf = Inr buf"
| "read_chars e (c # cs) buf =
     bind_ok (peekInt8 e buf) (\<lambda>v. require (c = v)
     (bind_ok (readInt8 e buf) (\<lambda>(v, buf). require (c = v) (read_chars e cs buf))))"

fun append_ints :: "endian \<Rightarrow> 32 word list \<Rightarrow> buffer \<Rightarrow> buffer outcome" where
  "append_ints e [] buf = Inr buf"
| "append_ints e (x # xs) buf = bind_ok (appendInt32 e buf x) (append_ints e xs)"

fun read_ints :: "endian \<Rightarrow> 32 word list \<Rightarrow> buffer \<Rightarrow> buffer outcome" where
  "read_ints e [] buf = Inr buf"
| "read_ints e (x # xs) buf =
     bind_ok (readInt32 e buf) (\<lambda>(v, buf). require (v = x) (read_ints e xs buf))"

definition buffer_test4 :: "endian \<Rightarrow> unit outcome" where
  "buffer_test4 e =
     (let name = chars ''mihooke''; array = [100, 200, 300, - 4000, - 5000, - 6000] in
      bind_ok (append_bytes (new_buffer kInitialSize) name) (\<lambda>buf6.
      bind_ok (read_chars e name buf6) (\<lambda>buf6.
      bind_ok (append_ints e array buf6) (\<lambda>buf6.
      bind_ok (read_ints e array buf6) (\<lambda>buf6.
      require (readableBytes buf6 = 0) (Inr ()))))))"

text \<open>The last block logs the two messages; they are the result.\<close>

definition buffer_test5 :: "(byte list \<times> byte list) outcome" where
  "buffer_test5 =
     bind_ok (append_bytes (new_buffer kInitialSize) (chars ''message1'' @ kCRLF @ chars ''message2'' @ kCRLF)) (\<lambda>buf7.
     bind_ok (findCRLF buf7) (\<lambda>crlf. require (crlf \<noteq> None)
     (bind_ok (retrieveAsString_until buf7 (the crlf)) (\<lambda>(message1, buf7).
      let buf7 = retrieve buf7 2 in
      bind_ok (findCRLF buf7) (\<lambda>crlf. require (crlf \<noteq> None)
     (bind_ok (retrieveAsString_until buf7 (the crlf)) (\<lambda>(message2, buf7).
      Inr (message1, message2))))))))"

definition buffer_test :: "endian \<Rightarrow> (byte list \<times> byte list) outcome" where
  "buffer_test e =
     bind_ok buffer_test1 (\<lambda>_. bind_ok buffer_test2 (\<lambda>_. bind_ok (buffer_test3 e) (\<lambda>_.
     bind_ok (buffer_test4 e) (\<lambda>_. buffer_test5))))"

subsection \<open>\<open>test/INetAddress_test.cpp\<close>\<close>

definition address_test ::
  "(string \<Rightarrow> (32 word) option) \<Rightarrow> (32 word \<Rightarrow> string) \<Rightarrow> endian \<Rightarrow> sockaddr_in \<Rightarrow> unit outcome" where
  "address_test pton ntop e uninit =
     bind_ok (addr_of_ip pton e False uninit ''192.168.80.207'' 9527) (\<lambda>addr1.
      require (addr_ip ntop addr1 = ''192.168.80.207'' \<and> addr_port e addr1 = 9527
               \<and> addr_ipPort ntop e addr1 = ''192.168.80.207:9527'')
     (let addr2 = addr_of_port e 9527 in
      require (addr_ip ntop addr2 = ''0.0.0.0'' \<and> addr_port e addr2 = 9527)
     (bind_ok (addr_of_ip pton e False uninit ''192.168.80.207'' 9527) (\<lambda>addr3.
      require (addr_eq addr1 addr3) (Inr ())))))"

subsection \<open>\<open>test/TcpServer_test.cpp\<close>\<close>

text \<open>
  \<open>main\<close> up to \<open>loop\<close>: the level of the log is set first, and the server is started before the
  callback is set. The result is the program and the globals of the log; the arguments answer
  the system calls.
\<close>

definition server_test_main ::
  "nat \<Rightarrow> int \<Rightarrow> int \<Rightarrow> sys_result \<Rightarrow> sys_result \<Rightarrow> sys_result \<Rightarrow> sys_result \<Rightarrow> nat \<Rightarrow> sys_result
    \<Rightarrow> ('f server_loop \<times> stdout log_globals) outcome" where
  "server_test_main addr epfd evfd sock r1 r2 bound aaddr listened =
     (let g = setLogLevel INFO default_globals in
      bind_ok (loop_ctor False addr epfd evfd) (\<lambda>loop.
      bind_ok (tcp_server_ctor loop sock r1 r2 bound aaddr) (\<lambda>server.
      bind_ok (tcp_server_start listened server) (\<lambda>server.
        Inr (server\<lparr>sl_server := setMessageCallback (sl_server server)\<rparr>, g)))))"

text \<open>The message callback: what it logs, and the connection with the buffer emptied.\<close>

definition handleMessage :: "endian \<Rightarrow> tcp_conn \<Rightarrow> ('d item list \<times> tcp_conn) outcome" where
  "handleMessage e conn =
     bind_ok (retrieveAllAsString (c_inputBuffer conn)) (\<lambda>(msg, buf).
       Inr ([Item_Cstr (Some ''Receive message:''), Item_String (as_string msg), Item_Cstr (Some ''from''),
             Item_UShort (uint (addr_port e (c_localAddr conn)))], conn\<lparr>c_inputBuffer := buf\<rparr>))"

section \<open>Lemmas\<close>

text \<open>Where the indices of a buffer are, and what is readable.\<close>

definition laid_out :: "buffer \<Rightarrow> int \<Rightarrow> int \<Rightarrow> int \<Rightarrow> byte list \<Rightarrow> bool" where
  "laid_out b r w n xs \<longleftrightarrow> buf_inv b \<and> readIndex b = r \<and> writeIndex b = w \<and> buf_size b = n \<and> content b = xs"

lemma laid_outD:
  assumes "laid_out b r w n xs"
  shows "buf_inv b" and "content b = xs" and "prependableBytes b = r" and "readableBytes b = w - r"
    and "writableBytes b = n - w" and "w - r = int (length xs)"
  using assms length_content [of b]
  by (auto simp: laid_out_def prependableBytes_def readableBytes_eq writableBytes_eq)

lemma laid_out_new: "laid_out (new_buffer k) 8 8 1032 []"
  by (simp add: laid_out_def new_buffer_inv) (simp add: new_buffer_def buf_size_def buf_consts)

lemma laid_out_append:
  assumes "laid_out b r w n xs" and "w + int (length ys) < 2147483648"
  shows "\<exists>b'. append_bytes b ys = Inr b' \<and>
    (if int (length ys) \<le> n - w then laid_out b' r (w + int (length ys)) n (xs @ ys)
     else if n - w + r < int (length ys) + 8
       then laid_out b' r (w + int (length ys)) (w + int (length ys)) (xs @ ys)
     else laid_out b' 8 (8 + int (length (xs @ ys))) n (xs @ ys))"
proof -
  note d = laid_outD [OF assms(1)]
  have idx: "readIndex b = r" "writeIndex b = w" "buf_size b = n" using assms(1) by (simp_all add: laid_out_def)
  have room: "buf_room b (length ys)" using assms(2) idx by (simp add: buf_room_def)
  from append_indices [OF d(1) room] obtain b1 b' where b1: "make_room b (int (length ys)) = Inr b1"
      and b': "append_bytes b ys = Inr b'" "buf_inv b'" "content b' = xs @ ys" "readIndex b' = readIndex b1"
      "writeIndex b' = writeIndex b1 + int (length ys)" "buf_size b' = buf_size b1"
    unfolding d(2) by blast
  consider "int (length ys) \<le> n - w" | "n - w < int (length ys)" "n - w + r < int (length ys) + 8"
    | "n - w < int (length ys)" "int (length ys) + 8 \<le> n - w + r"
    by linarith
  then show ?thesis
  proof cases
    case 1
    then show ?thesis using make_room_fits [OF d(1), of "length ys"] b1 b' d(5) idx by (simp add: laid_out_def)
  next
    case 2
    then have b1': "b1 = b\<lparr>buf_data := vec_resize (nat (w + int (length ys))) 0 (buf_data b)\<rparr>"
      using make_room_grows [OF d(1) room] b1 d(3,5) idx(2) by (simp add: buf_consts)
    have "0 \<le> w" using buf_invD [OF d(1)] idx(2) by simp
    then have "buf_size b1 = w + int (length ys)" by (simp add: b1' buf_size_def)
    then show ?thesis using 2 b' idx by (simp add: laid_out_def b1')
  next
    case 3
    then have b1': "b1 = b\<lparr>buf_data := overwrite (buf_data b) 8 xs, readIndex := 8, writeIndex := 8 + int (length xs)\<rparr>"
      using make_room_moves [OF d(1), of "length ys"] b1 d(2,3,5) by (simp add: buf_consts)
    have "8 + length xs \<le> length (buf_data b)" using 3 d(6) idx(3) by (simp add: buf_size_def)
    then have "buf_size b1 = n" using idx(3) by (simp add: b1' buf_size_def)
    with 3 show ?thesis using b' by (simp add: laid_out_def b1')
  qed
qed

lemma laid_out_retrieve:
  assumes "laid_out b r w n xs" and "0 \<le> k" and "k \<le> w - r"
  shows "if k < w - r then laid_out (retrieve b k) (r + k) w n (drop (nat k) xs)
    else laid_out (retrieve b k) 8 8 n []"
proof -
  note d = laid_outD [OF assms(1)]
  have idx: "readIndex b = r" "writeIndex b = w" "buf_size b = n" using assms(1) by (simp_all add: laid_out_def)
  have "buf_inv (retrieve b k)" "content (retrieve b k) = drop (nat k) xs"
    using retrieve_inv [OF d(1) assms(2)] retrieve_content [OF d(1) assms(2)] d(2) by simp_all
  then show ?thesis
    using assms(2,3) d(4,6) idx buf_invD [OF d(1)]
    by (auto simp: laid_out_def retrieve_def retrieveAll_def buf_consts cint)
qed

lemma laid_out_retrieveAll: "laid_out b r w n xs \<Longrightarrow> laid_out (retrieveAll b) 8 8 n []"
  by (simp add: laid_out_def retrieveAll_def buf_inv_def content_def buf_size_def buf_consts)

text \<open>The same, for reading strings.\<close>

lemma laid_out_string:
  assumes "laid_out b r w n xs" and "0 \<le> k" and "k < w - r"
  shows "\<exists>b'. retrieveAsString b k = Inr (take (nat k) xs, b') \<and> laid_out b' (r + k) w n (drop (nat k) xs)"
  using laid_out_retrieve [OF assms(1,2)] retrieveAsString_ok [of b k] laid_outD [OF assms(1)] assms(2,3) by simp

lemma laid_out_all:
  assumes "laid_out b r w n xs"
  shows "\<exists>b'. retrieveAllAsString b = Inr (xs, b') \<and> laid_out b' 8 8 n []"
  using retrieveAllAsString_ok laid_outD [OF assms] laid_out_retrieveAll [OF assms] by auto

text \<open>The first block, and the second.\<close>

lemma test1: "buffer_test1 = Inr ()"
proof -
  have n: "laid_out (new_buffer 1024) 8 8 1032 []" by (rule laid_out_new)
  from laid_out_append [OF n, of "replicate 200 48"] obtain b2 where
      a2: "append_bytes (new_buffer 1024) (replicate 200 48) = Inr b2" and b2: "laid_out b2 8 208 1032 (replicate 200 48)"
    by auto
  from laid_out_string [OF b2, of 60] obtain b3 where
      a3: "retrieveAsString b2 60 = Inr (replicate 60 48, b3)" and b3: "laid_out b3 68 208 1032 (replicate 140 48)"
    by auto
  from laid_out_append [OF b3, of "replicate 200 48"] obtain b4 where
      a4: "append_bytes b3 (replicate 200 48) = Inr b4" and b4: "laid_out b4 68 408 1032 (replicate 140 48 @ replicate 200 48)"
    by auto
  from laid_out_all [OF b4] obtain b5 where
      a5: "retrieveAllAsString b4 = Inr (replicate 140 48 @ replicate 200 48, b5)" and b5: "laid_out b5 8 8 1032 []"
    by auto
  show ?thesis
    using laid_outD(3-5) [OF n] laid_outD(3-5) [OF b2] laid_outD(3-5) [OF b3] laid_outD(3-5) [OF b4]
      laid_outD(3-5) [OF b5] a2 a3 a4 a5
    by (simp add: buffer_test1_def require_def buf_consts)
qed

lemma test2: "buffer_test2 = Inr ()"
proof -
  have n: "laid_out (new_buffer 1024) 8 8 1032 []" by (rule laid_out_new)
  from laid_out_append [OF n, of "replicate 400 48"] obtain b3 where
      a3: "append_bytes (new_buffer 1024) (replicate 400 48) = Inr b3" and b3: "laid_out b3 8 408 1032 (replicate 400 48)"
    by auto
  from laid_out_append [OF b3, of "replicate 1400 49"] obtain b4 where
      a4: "append_bytes b3 (replicate 1400 49) = Inr b4"
      and b4: "laid_out b4 8 1808 1808 (replicate 400 48 @ replicate 1400 49)"
    by auto
  note b5 = laid_out_retrieveAll [OF b4]
  from laid_out_append [OF n, of "replicate 800 50"] obtain b6 where
      a6: "append_bytes (new_buffer 1024) (replicate 800 50) = Inr b6" and b6: "laid_out b6 8 808 1032 (replicate 800 50)"
    by auto
  from laid_out_retrieve [OF b6, of 500] have b7: "laid_out (retrieve b6 500) 508 808 1032 (replicate 300 50)"
    by simp
  from laid_out_append [OF b7, of "replicate 300 51"] obtain b8 where
      a8: "append_bytes (retrieve b6 500) (replicate 300 51) = Inr b8"
      and b8: "laid_out b8 8 608 1032 (replicate 300 50 @ replicate 300 51)"
    by auto
  show ?thesis
    using laid_outD(3-5) [OF b3] laid_outD(3-5) [OF b4] laid_outD(3-5) [OF b5] laid_outD(3-5) [OF b6]
      laid_outD(3-5) [OF b7] laid_outD(3-5) [OF b8] a3 a4 a6 a8
    by (simp add: buffer_test2_def require_def buf_consts)
qed

text \<open>The third block: two bytes in front of the readable ones.\<close>

lemma laid_out_prepend:
  assumes "laid_out b r w n xs" and "int (length ys) \<le> r"
  shows "\<exists>b'. prepend b ys = Inr b' \<and> laid_out b' (r - int (length ys)) w n (ys @ xs)"
proof -
  note d = laid_outD [OF assms(1)]
  have idx: "readIndex b = r" "writeIndex b = w" "buf_size b = n" using assms(1) by (simp_all add: laid_out_def)
  have r: "0 \<le> r" "r < 2147483648" using buf_invD [OF d(1)] idx by simp_all
  from prepend_ok [OF d(1), of ys] obtain b' where b': "prepend b ys = Inr b'" "buf_inv b'" "content b' = ys @ xs"
    using assms(2) d(2,3) by auto
  then have "readIndex b' = r - int (length ys)" "writeIndex b' = w"
      "length (buf_data b') = length (overwrite (buf_data b) (nat (r - int (length ys))) ys)"
      "nat (r - int (length ys)) + length ys \<le> length (buf_data b)"
    using assms(2) r idx by (auto simp: prepend_def write_mem_def Let_def cint buf_size_def split: if_splits)
  with b' idx show ?thesis by (simp add: laid_out_def buf_size_def)
qed

lemma test3: "buffer_test3 e = Inr ()"
proof -
  have n: "laid_out (new_buffer 1024) 8 8 1032 []" by (rule laid_out_new)
  from laid_out_append [OF n, of "chars ''11111''"] obtain b5 where
      a5: "append_bytes (new_buffer 1024) (chars ''11111'') = Inr b5" and b5: "laid_out b5 8 13 1032 (chars ''11111'')"
    by (auto simp: chars_def)
  from laid_out_prepend [OF b5, of "bytes_be (5 :: 16 word)"] obtain b6 where
      a6: "prependInt16 e b5 5 = Inr b6" and b6: "laid_out b6 6 13 1032 (bytes_be (5 :: 16 word) @ chars ''11111'')"
    by (auto simp: prependInt_eq)
  show ?thesis
    using laid_outD(3-5) [OF b5] laid_outD(3-5) [OF b6] a5 a6
    by (simp add: buffer_test3_def require_def buf_consts)
qed

text \<open>The fourth block: characters and integers, one after the other.\<close>

lemma read_chars_all:
  assumes "laid_out b r w n cs" and "cs \<noteq> []"
  shows "\<exists>b'. read_chars e cs b = Inr b' \<and> laid_out b' 8 8 n []"
  using assms
proof (induction cs arbitrary: b r)
  case (Cons c cs)
  note d = laid_outD [OF Cons.prems(1)]
  from readInt_ok(1) [OF d(1), of c cs e] d(2) have v: "peekInt8 e b = Inr c"
    by (auto simp: readInt8_def bind_ok_Inr_iff)
  have next_b: "if cs \<noteq> [] then laid_out (retrieve b 1) (r + 1) w n cs else laid_out (retrieve b 1) 8 8 n []"
    using laid_out_retrieve [OF Cons.prems(1), of 1] d(6) by (auto split: if_splits)
  show ?case
  proof (cases "cs = []")
    case True
    then show ?thesis using v next_b by (simp add: readInt8_def require_def)
  next
    case False
    with Cons.IH [of "retrieve b 1" "r + 1"] next_b v show ?thesis by (simp add: readInt8_def require_def)
  qed
qed simp

lemma append_ints_fit:
  assumes "laid_out b r w n ys" and "w + 4 * int (length xs) \<le> n" and "n < 2147483648"
  shows "\<exists>b'. append_ints e xs b = Inr b' \<and> laid_out b' r (w + 4 * int (length xs)) n (ys @ concat (map bytes_be xs))"
  using assms(1,2)
proof (induction xs arbitrary: b w ys)
  case (Cons x xs)
  from laid_out_append [OF Cons.prems(1), of "bytes_be x"] Cons.prems(2) assms(3) obtain b1 where
      b1: "append_bytes b (bytes_be x) = Inr b1" "laid_out b1 r (w + 4) n (ys @ bytes_be x)" by auto
  from Cons.IH [OF b1(2)] Cons.prems(2) b1(1) show ?case by (simp add: appendInt_eq add.assoc)
qed simp

lemma read_ints_all:
  assumes "laid_out b r w n (concat (map bytes_be xs))" and "xs \<noteq> []"
  shows "\<exists>b'. read_ints e xs b = Inr b' \<and> laid_out b' 8 8 n []"
  using assms
proof (induction xs arbitrary: b r)
  case (Cons x xs)
  note d = laid_outD [OF Cons.prems(1)]
  from readInt_ok(3) [OF d(1), of x _ e] d(2) have v: "readInt32 e b = Inr (x, retrieve b 4)"
    by (auto simp: readInt32_def bind_ok_Inr_iff)
  have next_b: "if xs \<noteq> [] then laid_out (retrieve b 4) (r + 4) w n (concat (map bytes_be xs))
      else laid_out (retrieve b 4) 8 8 n []"
    using laid_out_retrieve [OF Cons.prems(1), of 4] d(6) by (cases xs) (auto split: if_splits)
  show ?case
  proof (cases "xs = []")
    case True
    then show ?thesis using v next_b by (simp add: require_def)
  next
    case False
    with Cons.IH [of "retrieve b 4" "r + 4"] next_b v show ?thesis by (simp add: require_def)
  qed
qed simp

lemma test4: "buffer_test4 e = Inr ()"
proof -
  let ?name = "chars ''mihooke''" and ?array = "[100, 200, 300, - 4000, - 5000, - 6000] :: 32 word list"
  have n: "laid_out (new_buffer 1024) 8 8 1032 []" by (rule laid_out_new)
  have l: "length ?name = 7" by (simp add: chars_def)
  from laid_out_append [OF n, of ?name] obtain b1 where
      a1: "append_bytes (new_buffer 1024) ?name = Inr b1" and b1: "laid_out b1 8 15 1032 ?name" unfolding l by auto
  have "?name \<noteq> []" by (simp add: chars_def)
  from read_chars_all [OF b1 this, of e] obtain b2 where a2: "read_chars e ?name b1 = Inr b2" and b2: "laid_out b2 8 8 1032 []"
    by auto
  from append_ints_fit [OF b2, of ?array e] obtain b3 where a3: "append_ints e ?array b2 = Inr b3"
      and b3: "laid_out b3 8 32 1032 (concat (map bytes_be ?array))" by auto
  from read_ints_all [OF b3, of e] obtain b4 where a4: "read_ints e ?array b3 = Inr b4" and b4: "laid_out b4 8 8 1032 []"
    by auto
  show ?thesis
    unfolding buffer_test4_def Let_def kInitialSize_def a1 bind_ok.simps a2 a3 a4
    using laid_outD(4) [OF b4] by (simp add: require_def)
qed


text \<open>The last block: the text is cut at the first end of line, twice.\<close>

lemma crlf_step:
  assumes "buf_inv b" and "content b = l @ kCRLF @ after" and "search kCRLF (l @ [13]) = None"
  shows "findCRLF b = Inr (Some (peek b + int (length l)))"
    and "retrieveAsString_until b (peek b + int (length l)) = Inr (l, retrieve b (int (length l)))"
    and "buf_inv (retrieve b (int (length l)))" and "content (retrieve b (int (length l))) = kCRLF @ after"
  using findCRLF_eq [OF assms(1)] search_CRLF_first [OF assms(3), of after] retrieve_until_ok [OF assms(1), of "length l"]
    retrieve_inv [OF assms(1)] retrieve_content [OF assms(1)] assms(2) by simp_all

lemma test5: "buffer_test5 = Inr (chars ''message1'', chars ''message2'')"
proof -
  let ?m1 = "chars ''message1''" and ?m2 = "chars ''message2''"
  have m: "?m1 = [109, 101, 115, 115, 97, 103, 101, 49]" "?m2 = [109, 101, 115, 115, 97, 103, 101, 50]"
    by (simp_all add: chars_def)
  have s: "search kCRLF (?m1 @ [13]) = None" "search kCRLF (?m2 @ [13]) = None"
    by (simp_all add: m kCRLF_def)
  from laid_out_append [OF laid_out_new, of "?m1 @ kCRLF @ ?m2 @ kCRLF"] obtain b1 where
      a1: "append_bytes (new_buffer kInitialSize) (?m1 @ kCRLF @ ?m2 @ kCRLF) = Inr b1"
      and b1: "buf_inv b1" "content b1 = ?m1 @ kCRLF @ ?m2 @ kCRLF"
    by (auto simp: m kCRLF_def laid_out_def)
  note c1 = crlf_step [OF b1 s(1)]
  let ?b2 = "retrieve (retrieve b1 (int (length ?m1))) 2"
  have b2: "buf_inv ?b2" "content ?b2 = ?m2 @ kCRLF @ []"
    using retrieve_inv [OF c1(3)] retrieve_content [OF c1(3)] c1(4) by (simp_all add: kCRLF_def)
  note c2 = crlf_step [OF b2 s(2)]
  show ?thesis
    using a1 c1(1,2) c2(1,2) by (simp add: buffer_test5_def require_def)
qed

text \<open>Setting the callback after \<open>start\<close> is the same as before.\<close>

lemma start_then_callback:
  "bind_ok (tcp_server_start r s) (\<lambda>s. Inr (s\<lparr>sl_server := setMessageCallback (sl_server s)\<rparr>, g))
    = bind_ok (tcp_server_start r (s\<lparr>sl_server := setMessageCallback (sl_server s)\<rparr>)) (\<lambda>s. Inr (s, g))"
  by (cases "acceptor_listen r (sl_acceptor s) (sv_epoller (sl_server s))")
    (auto simp: tcp_server_start_def setMessageCallback_def Let_def split: prod.split)

lemma server_test_start:
  assumes "server_test_main addr epfd evfd sock r1 r2 bound aaddr listened = Inr (s, g)"
    and "addr \<noteq> aaddr" and "sock \<noteq> Sys_Ok evfd"
  shows "sl_start s" and "g = setLogLevel INFO default_globals"
proof -
  show "g = setLogLevel INFO default_globals"
    using assms(1) by (auto simp: server_test_main_def Let_def bind_ok_Inr_iff)
  from assms(1) obtain lo s0 where lo: "loop_ctor False addr epfd evfd = Inr lo"
    and s0: "tcp_server_ctor lo sock r1 r2 bound aaddr = Inr s0"
    and s: "tcp_server_start listened (s0\<lparr>sl_server := setMessageCallback (sl_server s0)\<rparr>) = Inr s"
    unfolding server_test_main_def Let_def start_then_callback by (auto simp: bind_ok_Inr_iff)
  have "setMessageCallback (sl_server s0) = (sl_server s0)\<lparr>sv_default_connection := sv_default_connection (sl_server s0),
      sv_has_message := True, sv_has_writeComplete := sv_has_writeComplete (sl_server s0),
      sv_has_poolInit := sv_has_poolInit (sl_server s0)\<rparr>"
    by (simp add: setMessageCallback_def)
  then show "sl_start s" unfolding sl_start_def using lo s0 s assms(2,3) by blast
qed

lemma server_test_returns:
  assumes "0 \<le> epfd" and "0 \<le> evfd" and "sock = Sys_Ok fd" and "bound = Sys_Ok x" and "listened = Sys_Ok y"
  shows "\<exists>s. server_test_main addr epfd evfd sock r1 r2 bound aaddr listened
    = Inr (s, setLogLevel INFO default_globals)"
  using assms
  by (auto simp: server_test_main_def loop_ctor_def new_epoller_def tcp_server_ctor_def acceptor_ctor_def
      createNonblockingSocket_def sockets_bind_def tcp_server_start_def acceptor_listen_def sockets_listen_def Let_def
      split: prod.split)

section \<open>Properties\<close>

text \<open>
  \<open>Buffer_test.cpp\<close> passes: on a host of either byte order every assertion of its five blocks
  holds, nothing is read or written outside the vector, and the two messages logged are the two
  lines.
\<close>

lemma buffer_test_passes:
  "buffer_test e = Inr (chars ''message1'', chars ''message2'')"
  by (simp add: buffer_test_def test1 test2 test3 test4 test5)

text \<open>
  \<open>INetAddress_test.cpp\<close> passes on a host of either byte order, whatever the memory of the
  objects held before, if the system's conversions read and print the two addresses it uses.
\<close>

theorem address_test_passes:
  assumes "pton ''192.168.80.207'' = Some v" and "ntop v = ''192.168.80.207''" and "ntop 0 = ''0.0.0.0''"
  shows "address_test pton ntop e uninit = Inr ()"
proof -
  have "decimal (uint (9527 :: 16 word)) = ''9527''" by (simp add: decimal_def decDigits_def positional.simps)
  then show ?thesis
    using assms by (simp add: address_test_def require_def addr_of_ip_def addr_of_port_def addr_ip_def addr_port_def
        addr_ipPort_def addr_eq_def INADDR_ANY_def Let_def)
qed

theorem address_test_passes_witness:
  "address_test (\<lambda>s. if s = ''192.168.80.207'' then Some 7 else None)
     (\<lambda>v. if v = 7 then ''192.168.80.207'' else ''0.0.0.0'') Little (addr_of_port Little 0) = Inr ()"
  by (rule address_test_passes [where v = 7]) simp_all


text \<open>
  C34. \<open>TcpServer_test.cpp\<close>: a \<open>main\<close> that returned from its system calls is a start of the program,
  so that the properties of the server hold for it. In every state its run reaches, the message
  callback takes all that a connection has received and leaves the buffer empty; and when
  this is at most 3000 bytes (the line of the log holds 4000 characters, a longer message can be
  dropped from it) and the names of the source file and function at most 700 characters, its
  line, which the level \<open>main\<close> set lets pass, is added to \<open>stdout\<close> with the whole message and
  the port. The listening socket is not the eventfd, and loop and acceptor are two objects.
\<close>

theorem server_test_message:
  fixes fmt :: "'d \<Rightarrow> string"
  assumes "server_test_main addr epfd evfd sock r1 r2 bound aaddr listened = Inr (s0, g)"
    and "addr \<noteq> aaddr" and "sock \<noteq> Sys_Ok evfd" and "schedule sl_next ms s0 = Some s"
    and "sv_heap (sl_server s) oid = Some c"
    and "site_good st" and "length (site_file st) + length (site_func st) \<le> 700"
    and "length uninit = kSmallSize"
  shows "sl_start s0 \<and> (\<exists>items buf. handleMessage e c = Inr (items, c\<lparr>c_inputBuffer := buf\<rparr>)
    \<and> buf_inv buf \<and> content buf = []
    \<and> (length (content (c_inputBuffer c)) \<le> 3000 \<longrightarrow>
      log_statement fmt uninit g st INFO items out = Inr (Returns (out\<lparr>out_pending := out_pending out @
        (concat (map spaced ([now (site_now st), ''-'', ''INFO  '', ''-'', site_file st, ''-'',
            decimal (site_line st), ''-'', site_func st, ''-'', ''Receive message:'',
            as_string (content (c_inputBuffer c)), ''from'', decimal (uint (addr_port e (c_localAddr c)))]))
          @ [CHR 0x0A, CHR '' ''])\<rparr>))))"
proof -
  note start = server_test_start [OF assms(1-3)]
  have "reach sl_start sl_step s0" by (rule reach_start) (rule start(1))
  then have "reach sl_start sl_step s" using assms(4) by (rule run_reach)
  then have "buf_inv (c_inputBuffer c)" using sls.reach_inv server_invD(3) assms(5)
    by (fastforce simp: sl_inv_def server_good_def server_conn_def)
  from laid_out_all [of "c_inputBuffer c" _ _ _ "content (c_inputBuffer c)"] this obtain buf where
      buf: "retrieveAllAsString (c_inputBuffer c) = Inr (content (c_inputBuffer c), buf)" "buf_inv buf" "content buf = []"
    by (auto simp: laid_out_def)
  let ?items = "[Item_Cstr (Some ''Receive message:''), Item_String (as_string (content (c_inputBuffer c))),
      Item_Cstr (Some ''from''), Item_UShort (uint (addr_port e (c_localAddr c)))] :: 'd item list"
  have g: "g_logLevel g \<le> INFO" "g_output g = defaultOutput"
    by (simp_all add: start(2) setLogLevel_def default_globals_def)
  have "log_statement fmt uninit g st INFO ?items out = Inr (Returns (g_output g
      (concat (map spaced ([now (site_now st), ''-'', ''INFO  '', ''-'', site_file st, ''-'',
          decimal (site_line st), ''-'', site_func st, ''-''] @ map (item_stored fmt) ?items))
        @ [CHR 0x0A, CHR '' '']) out))" if "length (content (c_inputBuffer c)) \<le> 3000"
  proof (rule log_statement_text)
    show "sum_list (map item_need (line_items st ''INFO  '' ?items)) \<le> kSmallSize"
      using header_need [of "''INFO  ''" st ?items] assms(7) that by (simp add: kSmallSize_def as_string_def)
  qed (use assms g that in \<open>simp_all add: port_range as_string_def\<close>)
  then show ?thesis
    using buf start(1)
    by (intro conjI exI [of _ ?items] exI [of _ buf]) (simp_all add: handleMessage_def g defaultOutput_def)
qed

text \<open>A client connects and sends two bytes.\<close>

definition ex_message_moves :: "nat sl_move list" where
  "ex_message_moves = ([Sl_Loop Enter_Loop, Sl_Loop Test_Quit, Sl_Poll (Wait_Ready [(101, POLLIN)])]
     @ [Sl_Handle (ex_answers (\<lambda>_. Read_Bytes []))]) @ (to_poll @ [Sl_Poll (Wait_Ready [(3, POLLIN)])])
     @ [Sl_Handle (ex_data (\<lambda>n. Read_Bytes (take (nat n) [104, 105])))]"

lemma ex_message:
  "\<exists>s c. schedule sl_next ex_message_moves ex_started = Some s \<and> sv_heap (sl_server s) 3 = Some c
    \<and> content (c_inputBuffer c) = [104, 105]"
proof -
  let ?s = "ex_reported POLLIN" and ?io = "ex_data (\<lambda>n. Read_Bytes (take (nat n) [104, 105]))"
  obtain c where c: "sv_heap (sl_server ?s) 3 = Some c" "c_inputBuffer c = new_buffer 1024"
      "ch_revents (c_channel c) = POLLIN"
    using ex_reported(9) [of POLLIN] by blast
  have t: "reads_ok (\<lambda>n. Read_Bytes (take (nat n) [104, 105])) (new_buffer 1024)"
    "take (nat (iov_capacity (new_buffer 1024))) [104, 105 :: byte] = [104, 105]"
    by (auto simp: reads_ok_def readv_within_def buf_room_def new_buffer_def buf_consts iov_capacity_def
      writableBytes_def buf_size_def sizeof_extrabuf_def cint)
  have k: "answers_ok ?io 3 ?s" using c ex_reported(4,5,10) t(1) by (intro ex_data_ok) auto
  have r: "io_read ?io (iov_capacity (c_inputBuffer c)) = Read_Bytes [104, 105]"
    using c(2) t(2) by (simp add: ex_data_def ex_answers_def)
  obtain b where b: "content b = [104, 105]" and step: "sl_do (Sl_Handle ?io) ?s = Some (Inr (?s\<lparr>sl_active := [],
      sl_server := (sl_server ?s)\<lparr>sv_heap := (sv_heap (sl_server ?s))(3 := Some (c\<lparr>c_inputBuffer := b\<rparr>)),
        sv_log := sv_log (sl_server ?s) @ [(3, Ev_Message [104, 105])]\<rparr>\<rparr>))"
    using data_step [OF sls.reach_inv [OF ex_reported(1)] ex_reported(2,3) k c(1) _ _ _ r] c(2,3) ex_tests
    by (auto simp del: sl_do.simps)
  have "sl_next (Sl_Handle (ex_answers (\<lambda>_. Read_Bytes []))) ex_waiting = Some ex_serving"
    using ex_serving(1) by (simp add: sl_next_iff)
  then have "schedule sl_next ([Sl_Loop Enter_Loop, Sl_Loop Test_Quit, Sl_Poll (Wait_Ready [(101, POLLIN)])]
      @ [Sl_Handle (ex_answers (\<lambda>_. Read_Bytes []))]) ex_started = Some ex_serving"
    using ex_waiting_run(1) by (simp only: schedule_append schedule.simps option.case)
  moreover have "schedule sl_next ((to_poll @ [Sl_Poll (Wait_Ready [(3, POLLIN)])]) @ [Sl_Handle ?io]) ex_serving
      = Some (?s\<lparr>sl_active := [],
      sl_server := (sl_server ?s)\<lparr>sv_heap := (sv_heap (sl_server ?s))(3 := Some (c\<lparr>c_inputBuffer := b\<rparr>)),
        sv_log := sv_log (sl_server ?s) @ [(3, Ev_Message [104, 105])]\<rparr>\<rparr>)"
    using ex_reported(11) [of POLLIN] step [folded sl_next_iff]
    by (simp only: schedule_append [of sl_next "to_poll @ [Sl_Poll (Wait_Ready [(3, POLLIN)])]"] option.case
        schedule.simps)
  ultimately have "schedule sl_next ex_message_moves ex_started = Some (?s\<lparr>sl_active := [],
      sl_server := (sl_server ?s)\<lparr>sv_heap := (sv_heap (sl_server ?s))(3 := Some (c\<lparr>c_inputBuffer := b\<rparr>)),
        sv_log := sv_log (sl_server ?s) @ [(3, Ev_Message [104, 105])]\<rparr>\<rparr>)"
    unfolding ex_message_moves_def
    by (simp only: schedule_append [of sl_next "[Sl_Loop Enter_Loop, Sl_Loop Test_Quit,
        Sl_Poll (Wait_Ready [(101, POLLIN)])] @ [Sl_Handle (ex_answers (\<lambda>_. Read_Bytes []))]"] option.case)
  then obtain s where "schedule sl_next ex_message_moves ex_started = Some s"
    and "sv_heap (sl_server s) 3 = Some (c\<lparr>c_inputBuffer := b\<rparr>)"
    by simp
  moreover have "content (c_inputBuffer (c\<lparr>c_inputBuffer := b\<rparr>)) = [104, 105]"
    by (simp add: b)
  ultimately show ?thesis by blast
qed

theorem server_test_message_witness:
  "sl_start ex_started \<and> (\<exists>s c (items :: int item list) buf.
     schedule sl_next ex_message_moves ex_started = Some s \<and> sv_heap (sl_server s) 3 = Some c
    \<and> handleMessage Little c = Inr (items, c\<lparr>c_inputBuffer := buf\<rparr>) \<and> content buf = []
    \<and> log_statement sample_fmt (replicate kSmallSize NUL) (setLogLevel INFO default_globals) sample_site INFO
        items \<lparr>out_pending = [], out_written = []\<rparr>
      = Inr (Returns \<lparr>out_pending =
          ''2019-01-05 08:48:17.067 - INFO   - a.cpp - 35 - f - Receive message: hi from ''
            @ decimal (uint (addr_port Little (c_localAddr c))) @ '' '' @ [CHR 0x0A, CHR '' ''],
          out_written = []\<rparr>))"
proof -
  have main: "server_test_main 100 3 4 (Sys_Ok 5) (Sys_Ok 0) (Sys_Ok 0) (Sys_Ok 0) 101 (Sys_Ok 0)
      = Inr (ex_started, setLogLevel INFO default_globals)"
    by (simp add: server_test_main_def Let_def ex_loop(1) ex_made start_then_callback ex_started)
  obtain s c where run: "schedule sl_next ex_message_moves ex_started = Some s"
    and c: "sv_heap (sl_server s) 3 = Some c" "content (c_inputBuffer c) = [104, 105]"
    using ex_message by blast
  have st: "length (site_file sample_site) + length (site_func sample_site) \<le> 700"
      "length (replicate kSmallSize NUL) = kSmallSize"
    by (simp_all add: sample_site_def)
  have n: "now (site_now sample_site) = ''2019-01-05 08:48:17.067''"
    by (simp add: now_def sample_site_def fmt_d_def fmt_0d_def decimal_def positional.simps decDigits_def)
  have l: "decimal (site_line sample_site) = ''35''"
    by (simp add: sample_site_def decimal_def positional.simps decDigits_def)
  have hi: "as_string [104, 105] = ''hi''" by (simp add: as_string_def char_of_def)
  have names: "site_file sample_site = ''a.cpp''" "site_func sample_site = ''f''"
    by (simp_all add: sample_site_def)
  from server_test_message [OF main _ _ run c(1) sample_good st, of Little sample_fmt
      "\<lparr>out_pending = [], out_written = []\<rparr>"]
  have "sl_start ex_started \<and> (\<exists>(items :: int item list) buf.
     handleMessage Little c = Inr (items, c\<lparr>c_inputBuffer := buf\<rparr>) \<and> content buf = []
    \<and> log_statement sample_fmt (replicate kSmallSize NUL) (setLogLevel INFO default_globals) sample_site INFO
        items \<lparr>out_pending = [], out_written = []\<rparr>
      = Inr (Returns \<lparr>out_pending =
          ''2019-01-05 08:48:17.067 - INFO   - a.cpp - 35 - f - Receive message: hi from ''
            @ decimal (uint (addr_port Little (c_localAddr c))) @ '' '' @ [CHR 0x0A, CHR '' ''],
          out_written = []\<rparr>))"
    unfolding c(2) n l hi names by (auto simp: spaced_def)
  then show ?thesis using run c(1) by blast
qed

end
