(* ===== verification/Fifo_Queue.thy ===== *)
theory Fifo_Queue
  imports Cpp_Prelude
begin

text \<open>
  \<open>std::deque\<close> as the program uses it, and the contract its two task queues share: what is
  put comes out once, oldest first. \<open>BlockingQueue\<close> pushes at the back and pops at the
  front, \<open>ThreadPool\<close> the other way round; each interprets the locale with its own ends.
\<close>

section \<open>std::deque\<close>

fun deque_front :: "'a list \<Rightarrow> 'a outcome" where
  "deque_front [] = Inl Empty_Container"
| "deque_front (x # xs) = Inr x"

fun deque_back :: "'a list \<Rightarrow> 'a outcome" where
  "deque_back [] = Inl Empty_Container"
| "deque_back (x # xs) = (if xs = [] then Inr x else deque_back xs)"

fun pop_front :: "'a list \<Rightarrow> 'a list outcome" where
  "pop_front [] = Inl Empty_Container"
| "pop_front (x # xs) = Inr xs"

fun pop_back :: "'a list \<Rightarrow> 'a list outcome" where
  "pop_back [] = Inl Empty_Container"
| "pop_back (x # xs) = Inr (butlast (x # xs))"

lemma deque_back_snoc [simp]: "deque_back (xs @ [x]) = Inr x"
  by (induction xs) auto

lemma pop_back_snoc [simp]: "pop_back (xs @ [x]) = Inr xs"
  by (cases xs) auto

lemma deque_front_fault [simp]: "deque_front xs = Inl e \<longleftrightarrow> e = Empty_Container \<and> xs = []"
  by (cases xs) auto

lemma deque_back_fault [simp]: "deque_back xs = Inl e \<longleftrightarrow> e = Empty_Container \<and> xs = []"
  by (cases xs rule: rev_cases) auto

section \<open>The contract\<close>

datatype 'a queue_op = Put 'a | Get

locale fifo_queue =
  fixes items :: "'q \<Rightarrow> 'a list"
    and put :: "'a \<Rightarrow> 'q \<Rightarrow> 'q"
    and get :: "'q \<Rightarrow> ('a \<times> 'q) outcome"
  assumes put_law: "items (put x q) = items q @ [x]"
    and get_law: "items q = x # xs \<Longrightarrow> \<exists>q'. get q = Inr (x, q') \<and> items q' = xs"
    and get_empty: "items q = [] \<Longrightarrow> get q = Inl Empty_Container"
begin

lemma get_fault: "get q = Inl e \<longleftrightarrow> e = Empty_Container \<and> items q = []"
  by (cases "items q") (use get_law get_empty in fastforce)+

lemma get_ok: "get q = Inr (x, q') \<Longrightarrow> items q = x # items q'"
  by (cases "items q") (use get_law get_empty in fastforce)+

lemma get_length: "get q = Inr (x, q') \<Longrightarrow> length (items q) = Suc (length (items q'))"
  by (simp add: get_ok)

text \<open>Everything put so far is what was taken followed by what is queued.\<close>

lemma history_put: "taken @ items q = h \<Longrightarrow> taken @ items (put x q) = h @ [x]"
  by (simp add: put_law)

lemma history_get: "get q = Inr (x, q') \<Longrightarrow> taken @ items q = h \<Longrightarrow> taken @ x # items q' = h"
  by (simp add: get_ok)

lemma put_all: "items (fold put xs q) = items q @ xs"
  by (induction xs arbitrary: q) (simp_all add: put_law)

end

end
