(* ===== verification/Blocking_Queue.thy ===== *)
theory Blocking_Queue
  imports Sync Fifo_Queue
begin

text \<open>
  \<open>base/BlockingQueue.h\<close>: an unbounded queue whose \<open>take\<close> blocks while it is empty. A step
  is one critical section of one thread. Which sleeper a signal wakes is part of the move.
\<close>

section \<open>Definitions\<close>

record 'a blocking_queue =
  bq_queue :: "'a list"
  bq_notEmpty :: cond

definition new_blocking_queue :: "'a blocking_queue" where
  "new_blocking_queue = \<lparr>bq_queue = [], bq_notEmpty = cond_init\<rparr>"

definition bq_put :: "'a \<Rightarrow> 'a list \<Rightarrow> 'a list" where
  "bq_put x q = q @ [x]"

definition bq_get :: "'a list \<Rightarrow> ('a \<times> 'a list) outcome" where
  "bq_get q = bind_ok (deque_front q) (\<lambda>x. bind_ok (pop_front q) (\<lambda>q'. Inr (x, q')))"

text \<open>\<open>push\<close>, both overloads; \<open>w\<close> is the thread the signal wakes, if one sleeps.\<close>

definition bq_push :: "'a \<Rightarrow> nat option \<Rightarrow> 'a blocking_queue \<Rightarrow> 'a blocking_queue option" where
  "bq_push x w b =
     (let b1 = b\<lparr>bq_queue := bq_put x (bq_queue b)\<rparr>
      in map_option (\<lambda>c. b1\<lparr>bq_notEmpty := c\<rparr>) (cond_signal w (bq_notEmpty b1)))"

text \<open>The loop of \<open>take\<close> from its test on, with the mutex held: sleep, or return the front.\<close>

definition take_check :: "nat \<Rightarrow> 'a blocking_queue \<Rightarrow> ('a option \<times> 'a blocking_queue) outcome" where
  "take_check t b =
     (if bq_queue b = [] then Inr (None, b\<lparr>bq_notEmpty := cond_wait t (bq_notEmpty b)\<rparr>)
      else bind_ok (bq_get (bq_queue b)) (\<lambda>(x, q). Inr (Some x, b\<lparr>bq_queue := q\<rparr>)))"

definition bq_size :: "'a blocking_queue \<Rightarrow> nat" where
  "bq_size b = length (bq_queue b)"

text \<open>A queue and its threads, with the values pushed and those taken so far.\<close>

record 'a bq_system =
  bq :: "'a blocking_queue"
  pushed :: "'a list"
  taken :: "'a list"

datatype 'a bq_move =
    Push 'a "nat option"
  | Take nat
  | Take_Resume nat
  | Take_Spurious nat

definition finish_take :: "('a option \<times> 'a blocking_queue) outcome \<Rightarrow> 'a bq_system \<Rightarrow>
    'a bq_system option" where
  "finish_take r s =
     (case r of Inl _ \<Rightarrow> None
      | Inr (None, b) \<Rightarrow> Some (s\<lparr>bq := b\<rparr>)
      | Inr (Some x, b) \<Rightarrow> Some (s\<lparr>bq := b, taken := taken s @ [x]\<rparr>))"

fun bq_do :: "'a bq_move \<Rightarrow> 'a bq_system \<Rightarrow> 'a bq_system option" where
  "bq_do (Push x w) s =
     map_option (\<lambda>b. s\<lparr>bq := b, pushed := pushed s @ [x]\<rparr>) (bq_push x w (bq s))"
| "bq_do (Take t) s =
     (if waiting t (bq_notEmpty (bq s)) then None else finish_take (take_check t (bq s)) s)"
| "bq_do (Take_Resume t) s =
     (if t \<in> woken (bq_notEmpty (bq s))
      then finish_take (take_check t ((bq s)\<lparr>bq_notEmpty := cond_resume t (bq_notEmpty (bq s))\<rparr>)) s
      else None)"
| "bq_do (Take_Spurious t) s =
     (if t \<in> sleeping (bq_notEmpty (bq s))
      then Some (s\<lparr>bq := (bq s)\<lparr>bq_notEmpty := cond_spurious t (bq_notEmpty (bq s))\<rparr>\<rparr>) else None)"

definition bq_start :: "'a bq_system \<Rightarrow> bool" where
  "bq_start s \<longleftrightarrow> s = \<lparr>bq = new_blocking_queue, pushed = [], taken = []\<rparr>"

inductive bq_step :: "'a bq_system \<Rightarrow> 'a bq_system \<Rightarrow> bool" where
  bq_move: "bq_do m s = Some s' \<Longrightarrow> bq_step s s'"

inductive_cases bq_stepE: "bq_step s s'"

section \<open>Lemmas\<close>

interpretation bqq: fifo_queue "\<lambda>q. q" bq_put bq_get
  by unfold_locales (auto simp: bq_put_def bq_get_def)

lemma take_check_ok: "\<exists>r. take_check t b = Inr r"
  by (cases "bq_queue b") (simp_all add: take_check_def bq_get_def)

definition bq_inv :: "'a bq_system \<Rightarrow> bool" where
  "bq_inv s \<longleftrightarrow> taken s @ bq_queue (bq s) = pushed s \<and> cond_wf (bq_notEmpty (bq s))
     \<and> wakeups_cover (length (bq_queue (bq s))) (bq_notEmpty (bq s))"

text \<open>One critical section of \<open>take\<close>, from a state in which \<open>t\<close> does not wait.\<close>

lemma take_check_inv:
  assumes "finish_take (take_check t b) s = Some s'" and "taken s @ bq_queue b = pushed s"
    and "cond_wf (bq_notEmpty b)" and "t \<notin> woken (bq_notEmpty b)"
    and "wakeups_cover (length (bq_queue b) - 1) (bq_notEmpty b)"
  shows "bq_inv s'"
proof (cases "bq_queue b")
  case Nil
  with assms show ?thesis
    by (auto simp: take_check_def finish_take_def bq_inv_def cover_sleep cond_wf_wait)
next
  case (Cons x xs)
  with assms show ?thesis
    by (auto simp: take_check_def finish_take_def bq_inv_def bq_get_def)
qed

lemma bq_do_inv: "bq_do m s = Some s' \<Longrightarrow> bq_inv s \<Longrightarrow> bq_inv s'"
proof (induction m s rule: bq_do.induct)
  case (1 x w s)
  then obtain c where "cond_signal w (bq_notEmpty (bq s)) = Some c"
    and "s' = s\<lparr>bq := (bq s)\<lparr>bq_queue := bq_queue (bq s) @ [x], bq_notEmpty := c\<rparr>,
        pushed := pushed s @ [x]\<rparr>"
    by (auto simp: bq_push_def bq_put_def Let_def)
  with 1(2) show ?case
    by (auto simp: bq_inv_def dest: cond_signal_notify intro: cond_wf_notify cover_notify)
next
  case (2 t s)
  then have f: "finish_take (take_check t (bq s)) s = Some s'"
    and t: "\<not> waiting t (bq_notEmpty (bq s))"
    by (auto split: if_splits)
  from 2(2) t show ?case
    by (intro take_check_inv [OF f])
      (auto simp: bq_inv_def waiting_def elim: cover_mono)
next
  case (3 t s)
  let ?b = "(bq s)\<lparr>bq_notEmpty := cond_resume t (bq_notEmpty (bq s))\<rparr>"
  from 3 have t: "t \<in> woken (bq_notEmpty (bq s))" and f: "finish_take (take_check t ?b) s = Some s'"
    by (auto split: if_splits)
  from 3(2) have wf: "cond_wf (bq_notEmpty (bq s))" by (simp add: bq_inv_def)
  have "wakeups_cover (length (bq_queue ?b) - 1) (bq_notEmpty ?b)"
  proof (cases "bq_queue (bq s)")
    case Nil
    then show ?thesis by (simp add: wakeups_cover_def)
  next
    case (Cons y ys)
    with 3(2) have "wakeups_cover (Suc (length ys)) (bq_notEmpty (bq s))" by (simp add: bq_inv_def)
    from cover_resume [OF this t wf] Cons show ?thesis by simp
  qed
  with 3(2) wf show ?case
    by (intro take_check_inv [OF f]) (auto simp: bq_inv_def cond_wf_resume)
next
  case (4 t s)
  then show ?case
    by (auto simp: bq_inv_def split: if_splits intro: cond_wf_spurious cover_spurious)
qed

interpretation bqs: state_invariant bq_start bq_step bq_inv
proof unfold_locales
  show "bq_inv s" if "bq_start s" for s :: "'a bq_system"
    using that by (simp add: bq_start_def bq_inv_def new_blocking_queue_def wakeups_cover_def)
  show "bq_inv t" if "bq_step s t" and "bq_inv s" for s t :: "'a bq_system"
    using that by (auto elim!: bq_stepE intro: bq_do_inv)
qed

section \<open>Properties\<close>

text \<open>
  C33. FIFO: under every schedule of pushing and taking threads, the values taken so far followed
  by those queued are the values pushed, in order, and \<open>size\<close> is their difference.
\<close>

theorem blocking_queue_fifo:
  assumes "reach bq_start bq_step s"
  shows "taken s @ bq_queue (bq s) = pushed s
    \<and> bq_size (bq s) = length (pushed s) - length (taken s)"
proof -
  from bqs.reach_inv [OF assms] have "taken s @ bq_queue (bq s) = pushed s"
    by (simp add: bq_inv_def)
  moreover from this [symmetric] have "bq_size (bq s) = length (pushed s) - length (taken s)"
    by (simp add: bq_size_def)
  ultimately show ?thesis ..
qed

text \<open>
  No lost wake-up: while a taker sleeps, there are at least as many takers on
  their way back as values queued, and a value is taken as soon as one gets the mutex.
\<close>

theorem blocking_queue_wakes:
  assumes "reach bq_start bq_step s" and "bq_queue (bq s) \<noteq> []"
    and "sleeping (bq_notEmpty (bq s)) \<noteq> {}"
  shows "bq_size (bq s) \<le> card (woken (bq_notEmpty (bq s)))
    \<and> (\<forall>t \<in> woken (bq_notEmpty (bq s)). \<exists>s'. bq_do (Take_Resume t) s = Some s'
          \<and> taken s' = taken s @ [hd (bq_queue (bq s))])"
  using bqs.reach_inv [OF assms(1)] assms(2,3)
  by (cases "bq_queue (bq s)")
    (auto simp: bq_inv_def wakeups_cover_def bq_size_def take_check_def bq_get_def finish_take_def)


lemma bq_schedule:
  "bq_start s \<Longrightarrow> schedule bq_do ms s = Some s' \<Longrightarrow> reach bq_start bq_step s'"
  by (rule schedule_reach [where move = bq_do and ms = ms and s = s]) (auto intro: bq_move reach_start)

definition example_run :: "nat bq_system" where
  "example_run = the (schedule bq_do [Take 1, Take 2, Push 9 (Some 1)]
     \<lparr>bq = new_blocking_queue, pushed = [], taken = []\<rparr>)"

lemmas bq_eval = example_run_def take_check_def bq_get_def finish_take_def bq_push_def bq_put_def
  new_blocking_queue_def cond_init_def cond_wait_def cond_signal_def cond_resume_def waiting_def
  insert_Diff_if

lemma example_run_eq:
  "example_run = \<lparr>bq = \<lparr>bq_queue = [9], bq_notEmpty = \<lparr>sleeping = {2}, woken = {1}\<rparr>\<rparr>,
     pushed = [9], taken = []\<rparr>"
  by (simp add: bq_eval)

lemma example_run_reach: "reach bq_start bq_step example_run"
  unfolding example_run_def
  by (rule bq_schedule [where ms = "[Take 1, Take 2, Push 9 (Some 1)]"
        and s = "\<lparr>bq = new_blocking_queue, pushed = [], taken = []\<rparr>"])
    (simp_all add: bq_start_def bq_eval)

theorem blocking_queue_fifo_witness: "bq_size (bq example_run) = 1"
  using blocking_queue_fifo [OF example_run_reach] by (simp add: example_run_eq)

theorem blocking_queue_wakes_witness:
  "\<exists>s'. bq_do (Take_Resume 1) example_run = Some s' \<and> taken s' = [9]"
  using blocking_queue_wakes [OF example_run_reach] by (simp add: example_run_eq)

end
