(* ===== verification/Thread_Tests.thy ===== *)
theory Thread_Tests
  imports Blocking_Queue
begin

text \<open>
  Test programs of \<open>test/\<close> that start threads, on the models of \<open>base/Mutex.h\<close>,
  \<open>base/CountDown.h\<close> and \<open>base/BlockingQueue.h\<close>: \<open>Mutex_test.cpp\<close>, \<open>CountDown_test.cpp\<close> and
  \<open>BlockingQueue_test.cpp\<close>. Each is a step relation of its own threads; sleeping and logging are left out.
\<close>

section \<open>Definitions\<close>

subsection \<open>\<open>test/Mutex_test.cpp\<close>\<close>

text \<open>
  A thread of \<open>func\<close>: before the guard, at the test of the loop, between the load and the store
  of \<open>g_i ++\<close> with the value loaded, and after the guard was destroyed.
\<close>

datatype func_pc = Before | Looping nat | Loaded nat int | After

record mutex_test =
  mx_guard :: guarded
  g_i :: int
  mx_pcs :: "nat \<Rightarrow> func_pc"

definition mutex_test_loops :: nat where
  "mutex_test_loops = 1000000"

fun func_do :: "nat \<Rightarrow> func_pc \<Rightarrow> mutex_test \<Rightarrow> mutex_test option" where
  "func_do t Before s =
     map_option (\<lambda>g. s\<lparr>mx_guard := g, mx_pcs := (mx_pcs s)(t := Looping 0)\<rparr>) (mutex_lock t (mx_guard s))"
| "func_do t (Looping i) s =
     (if i < mutex_test_loops then Some (s\<lparr>mx_pcs := (mx_pcs s)(t := Loaded i (g_i s))\<rparr>)
      else Some (s\<lparr>mx_guard := mutex_unlock (mx_guard s), mx_pcs := (mx_pcs s)(t := After)\<rparr>))"
| "func_do t (Loaded i v) s = Some (s\<lparr>g_i := v + 1, mx_pcs := (mx_pcs s)(t := Looping (Suc i))\<rparr>)"
| "func_do t After s = None"

inductive mutex_test_step :: "mutex_test \<Rightarrow> mutex_test \<Rightarrow> bool" where
  mutex_test_stepI: "t \<in> {1, 2} \<Longrightarrow> func_do t (mx_pcs s t) s = Some s' \<Longrightarrow> mutex_test_step s s'"

definition mutex_test_start :: "mutex_test \<Rightarrow> bool" where
  "mutex_test_start s \<longleftrightarrow> owner (mx_guard s) = None \<and> g_i s = 0 \<and> mx_pcs s = (\<lambda>_. Before)"

subsection \<open>\<open>test/CountDown_test.cpp\<close>\<close>

text \<open>Thread 0 is \<open>main\<close>, which waits; 1, 2 and 3 call \<open>func\<close>. \<open>ct_finished\<close> are those that returned.\<close>

record countdown_test =
  ct_latch :: countdown
  ct_finished :: "nat set"

datatype countdown_test_move = Func nat | Main_Waits | Main_Resumes | Main_Spurious

fun countdown_test_do :: "countdown_test_move \<Rightarrow> countdown_test \<Rightarrow> countdown_test option" where
  "countdown_test_do (Func t) s =
     (if t \<in> {1, 2, 3} \<and> t \<notin> ct_finished s
      then Some (s\<lparr>ct_latch := down (ct_latch s), ct_finished := insert t (ct_finished s)\<rparr>) else None)"
| "countdown_test_do Main_Waits s =
     (if \<not> waiting 0 (cd_cond (ct_latch s)) \<and> 0 \<notin> released (ct_latch s)
      then Some (s\<lparr>ct_latch := wait_check 0 (ct_latch s)\<rparr>) else None)"
| "countdown_test_do Main_Resumes s =
     (if 0 \<in> woken (cd_cond (ct_latch s))
      then Some (s\<lparr>ct_latch := wait_check 0 ((ct_latch s)\<lparr>cd_cond := cond_resume 0 (cd_cond (ct_latch s))\<rparr>)\<rparr>)
      else None)"
| "countdown_test_do Main_Spurious s =
     (if 0 \<in> sleeping (cd_cond (ct_latch s))
      then Some (s\<lparr>ct_latch := (ct_latch s)\<lparr>cd_cond := cond_spurious 0 (cd_cond (ct_latch s))\<rparr>\<rparr>) else None)"

inductive countdown_test_step :: "countdown_test \<Rightarrow> countdown_test \<Rightarrow> bool" where
  countdown_test_stepI: "countdown_test_do m s = Some s' \<Longrightarrow> countdown_test_step s s'"

definition countdown_test_start :: "countdown_test \<Rightarrow> bool" where
  "countdown_test_start s \<longleftrightarrow> s = \<lparr>ct_latch = countdown_ctor 3, ct_finished = {}\<rparr>"

subsection \<open>\<open>test/BlockingQueue_test.cpp\<close>\<close>

text \<open>\<open>main\<close> pushes the numbers from 1 to 3, waking whom it likes; the consumer, thread 1, takes for ever.\<close>

fun queue_test_allows :: "int bq_move \<Rightarrow> int bq_system \<Rightarrow> bool" where
  "queue_test_allows (Push x w) s \<longleftrightarrow> length (pushed s) < 3 \<and> x = int (length (pushed s)) + 1"
| "queue_test_allows (Take t) s \<longleftrightarrow> t = 1"
| "queue_test_allows (Take_Resume t) s \<longleftrightarrow> t = 1"
| "queue_test_allows (Take_Spurious t) s \<longleftrightarrow> t = 1"

definition queue_test_do :: "int bq_move \<Rightarrow> int bq_system \<Rightarrow> int bq_system option" where
  "queue_test_do m s = (if queue_test_allows m s then bq_do m s else None)"

inductive queue_test_step :: "int bq_system \<Rightarrow> int bq_system \<Rightarrow> bool" where
  queue_test_stepI: "queue_test_do m s = Some s' \<Longrightarrow> queue_test_step s s'"

section \<open>Lemmas\<close>

text \<open>How far a thread is, and what it holds: the mutex, and a loaded value that is current.\<close>

fun progress :: "func_pc \<Rightarrow> nat" where
  "progress Before = 0"
| "progress (Looping i) = i"
| "progress (Loaded i v) = i"
| "progress After = mutex_test_loops"

fun func_ok :: "nat option \<Rightarrow> int \<Rightarrow> nat \<Rightarrow> func_pc \<Rightarrow> bool" where
  "func_ok own g t (Looping i) \<longleftrightarrow> i \<le> mutex_test_loops \<and> own = Some t"
| "func_ok own g t (Loaded i v) \<longleftrightarrow> i < mutex_test_loops \<and> own = Some t \<and> v = g"
| "func_ok own g t pc \<longleftrightarrow> True"

definition mutex_test_inv :: "mutex_test \<Rightarrow> bool" where
  "mutex_test_inv s \<longleftrightarrow> g_i s = int (progress (mx_pcs s 1)) + int (progress (mx_pcs s 2))
     \<and> (\<forall>t \<in> {1, 2}. func_ok (owner (mx_guard s)) (g_i s) t (mx_pcs s t))
     \<and> (\<forall>t. owner (mx_guard s) = Some t \<longrightarrow> t \<in> {1, 2} \<and> mx_pcs s t \<noteq> Before \<and> mx_pcs s t \<noteq> After)"

text \<open>A thread that does not hold the mutex is not inside the guard.\<close>

lemma func_ok_other: "func_ok own g u pc \<Longrightarrow> own \<noteq> Some u \<Longrightarrow> func_ok own' g' u pc"
  by (cases pc) simp_all

lemma func_do_ok:
  assumes "func_do t pc s = Some s'" and "mx_pcs s t = pc" and "func_ok (owner (mx_guard s)) (g_i s) t pc"
  shows "func_ok (owner (mx_guard s')) (g_i s') t (mx_pcs s' t)"
    and "owner (mx_guard s) = None \<or> owner (mx_guard s) = Some t"
    and "\<forall>u. u \<noteq> t \<longrightarrow> mx_pcs s' u = mx_pcs s u"
    and "g_i s' - int (progress (mx_pcs s' t)) = g_i s - int (progress pc)"
  using assms by (cases pc; auto simp: mutex_lock_def split: if_splits)+

lemma func_do_owner:
  assumes "func_do t pc s = Some s'" and "func_ok (owner (mx_guard s)) g t pc" and "owner (mx_guard s') = Some u"
  shows "u = t \<and> mx_pcs s' t \<noteq> Before \<and> mx_pcs s' t \<noteq> After"
  using assms by (cases pc) (auto simp: mutex_lock_def mutex_unlock_def split: if_splits)

lemma mutex_test_do:
  assumes "t \<in> {1, 2}" and "func_do t (mx_pcs s t) s = Some s'" and "mutex_test_inv s"
  shows "mutex_test_inv s'"
proof -
  from assms(1,3) have ok: "func_ok (owner (mx_guard s)) (g_i s) u (mx_pcs s u)" if "u \<in> {1, 2}" for u
    using that unfolding mutex_test_inv_def by blast
  note d = func_do_ok [OF assms(2) refl ok [OF assms(1)]]
  have "func_ok (owner (mx_guard s')) (g_i s') u (mx_pcs s' u)" if u: "u \<in> {1, 2}" for u
  proof (cases "u = t")
    case False
    then have "owner (mx_guard s) \<noteq> Some u" using d(2) by auto
    from func_ok_other [OF ok [OF u] this] show ?thesis using d(3) False by simp
  qed (use d(1) in simp)
  moreover have "g_i s' = int (progress (mx_pcs s' 1)) + int (progress (mx_pcs s' 2))"
    using assms(1,3) d(3,4) by (auto simp: mutex_test_inv_def)
  moreover have "u \<in> {1, 2} \<and> mx_pcs s' u \<noteq> Before \<and> mx_pcs s' u \<noteq> After" if "owner (mx_guard s') = Some u" for u
    using func_do_owner [OF assms(2) ok [OF assms(1)] that] assms(1) by blast
  ultimately show ?thesis unfolding mutex_test_inv_def by blast
qed

interpretation mutex_tests: state_invariant mutex_test_start mutex_test_step mutex_test_inv
proof unfold_locales
  show "mutex_test_inv s" if "mutex_test_start s" for s
    using that by (simp add: mutex_test_start_def mutex_test_inv_def)
  show "mutex_test_inv s'" if "mutex_test_step s s'" and "mutex_test_inv s" for s s'
    using that by (auto elim!: mutex_test_step.cases intro: mutex_test_do)
qed

text \<open>The statements the two threads still have to execute.\<close>

fun work :: "func_pc \<Rightarrow> nat" where
  "work Before = 2 * mutex_test_loops + 2"
| "work (Looping i) = 2 * (mutex_test_loops - i) + 1"
| "work (Loaded i v) = 2 * (mutex_test_loops - i)"
| "work After = 0"

definition test_work :: "mutex_test \<Rightarrow> nat" where
  "test_work s = work (mx_pcs s 1) + work (mx_pcs s 2)"

lemma func_do_work:
  assumes "func_do t pc s = Some s'" and "func_ok own g t pc"
  shows "work (mx_pcs s' t) < work pc \<and> (\<forall>u. u \<noteq> t \<longrightarrow> mx_pcs s' u = mx_pcs s u)"
  using assms by (cases pc) (auto split: if_splits)

lemma mutex_test_live:
  assumes "mutex_test_inv s" and "t \<in> {1, 2}" and "mx_pcs s t \<noteq> After"
  shows "\<exists>s'. mutex_test_step s s'"
proof (cases "owner (mx_guard s)")
  case None
  have "func_ok None (g_i s) t (mx_pcs s t)" using assms(1,2) None unfolding mutex_test_inv_def by metis
  then have "mx_pcs s t = Before" using assms(3) by (cases "mx_pcs s t") simp_all
  then have "func_do t (mx_pcs s t) s \<noteq> None" using None by (simp add: mutex_lock_def)
  then show ?thesis using mutex_test_stepI [OF assms(2)] by blast
next
  case (Some u)
  then have u: "u \<in> {1, 2}" "mx_pcs s u \<noteq> Before" "mx_pcs s u \<noteq> After"
    using assms(1) unfolding mutex_test_inv_def by blast+
  then have "func_do u (mx_pcs s u) s \<noteq> None" by (cases "mx_pcs s u") simp_all
  then show ?thesis using mutex_test_stepI [OF u(1)] by blast
qed

definition countdown_test_inv :: "countdown_test \<Rightarrow> bool" where
  "countdown_test_inv s \<longleftrightarrow> ct_finished s \<subseteq> {1, 2, 3}
     \<and> count (ct_latch s) = 3 - int (card (ct_finished s)) \<and> countdown_inv (ct_latch s)"

lemma countdown_keeps:
  assumes "countdown_step l l'" and "countdown_inv l"
  shows "countdown_inv l'"
  using assms by (rule countdown.inv_step)

interpretation countdown_tests: state_invariant countdown_test_start countdown_test_step countdown_test_inv
proof unfold_locales
  show "countdown_test_inv s" if "countdown_test_start s" for s
    using that countdown.inv_start [of 3]
    by (simp add: countdown_test_start_def countdown_test_inv_def countdown_start_def) (simp add: countdown_ctor_def)
  show "countdown_test_inv s'" if "countdown_test_step s s'" and "countdown_test_inv s" for s s'
    using that(1)
  proof cases
    case (countdown_test_stepI m)
    have i: "countdown_inv (ct_latch s)" and f: "ct_finished s \<subseteq> {1, 2, 3}"
      and c: "count (ct_latch s) = 3 - int (card (ct_finished s))"
      using that(2) by (simp_all add: countdown_test_inv_def)
    have "finite (ct_finished s)" by (rule finite_subset [OF f]) simp
    then show ?thesis
      using countdown_test_stepI i f c countdown_keeps [OF cd_down i] countdown_keeps [OF cd_wait i]
        countdown_keeps [OF cd_resume i] countdown_keeps [OF cd_spurious i]
      by (cases m) (auto simp: countdown_test_inv_def down_def wait_check_def Let_def split: if_splits)
  qed
qed


lemma queue_test_pushes:
  assumes "bq_do m s = Some s'"
  shows "pushed s' = (case m of Push x w \<Rightarrow> pushed s @ [x] | _ \<Rightarrow> pushed s)"
  using assms by (cases m) (auto simp: finish_take_def split: sum.splits option.splits prod.splits if_splits)

definition queue_test_inv :: "int bq_system \<Rightarrow> bool" where
  "queue_test_inv s \<longleftrightarrow> bq_inv s \<and> length (pushed s) \<le> 3 \<and> pushed s = take (length (pushed s)) [1, 2, 3]"

interpretation queue_tests: state_invariant bq_start queue_test_step queue_test_inv
proof unfold_locales
  show "queue_test_inv s" if "bq_start s" for s
    using that bqs.inv_start [OF that] by (simp add: queue_test_inv_def bq_start_def)
  show "queue_test_inv s'" if "queue_test_step s s'" and "queue_test_inv s" for s s'
    using that(1)
  proof cases
    case (queue_test_stepI m)
    then have m: "queue_test_allows m s" "bq_do m s = Some s'" by (simp_all add: queue_test_do_def split: if_splits)
    have inv: "bq_inv s'" using bq_do_inv [OF m(2)] that(2) by (simp add: queue_test_inv_def)
    show ?thesis
    proof (cases m)
      case (Push x w)
      with m(1) have "length (pushed s) < 3" and x: "x = int (length (pushed s)) + 1" by simp_all
      then consider "length (pushed s) = 0" | "length (pushed s) = 1" | "length (pushed s) = 2" by linarith
      then have "pushed s' = take (length (pushed s')) [1, 2, 3] \<and> length (pushed s') \<le> 3"
        using queue_test_pushes [OF m(2)] that(2) Push x by cases (auto simp: queue_test_inv_def numeral_eq_Suc)
      with inv show ?thesis by (simp add: queue_test_inv_def)
    qed (use queue_test_pushes [OF m(2)] that(2) inv in \<open>simp_all add: queue_test_inv_def\<close>)
  qed
qed

section \<open>Properties\<close>

text \<open>
  C35. \<open>Mutex_test.cpp\<close>: under every interleaving of the loads and stores of its two threads, \<open>g_i\<close>
  is two million when both have finished; until then one of them can go on, and every step
  leaves them less to do, so that they do finish.
\<close>

theorem mutex_test_counts:
  assumes "reach mutex_test_start mutex_test_step s"
  shows "(mx_pcs s 1 = After \<and> mx_pcs s 2 = After \<longrightarrow> g_i s = 2000000)
    \<and> (mx_pcs s 1 \<noteq> After \<or> mx_pcs s 2 \<noteq> After \<longrightarrow> (\<exists>s'. mutex_test_step s s'))
    \<and> (\<forall>s'. mutex_test_step s s' \<longrightarrow> test_work s' < test_work s)"
proof (intro conjI impI allI)
  have inv: "mutex_test_inv s" by (rule mutex_tests.reach_inv [OF assms])
  show "g_i s = 2000000" if "mx_pcs s 1 = After \<and> mx_pcs s 2 = After"
    using inv that by (simp add: mutex_test_inv_def mutex_test_loops_def)
  show "\<exists>s'. mutex_test_step s s'" if "mx_pcs s 1 \<noteq> After \<or> mx_pcs s 2 \<noteq> After"
    using mutex_test_live [OF inv] that by blast
  show "test_work s' < test_work s" if "mutex_test_step s s'" for s'
    using that
  proof cases
    case (mutex_test_stepI t)
    then have "func_ok (owner (mx_guard s)) (g_i s) t (mx_pcs s t)" using inv unfolding mutex_test_inv_def by blast
    from func_do_work [OF mutex_test_stepI(2) this] mutex_test_stepI(1) show ?thesis by (auto simp: test_work_def)
  qed
qed

definition ex_mutex_test :: mutex_test where
  "ex_mutex_test = \<lparr>mx_guard = \<lparr>owner = None, pcs = \<lambda>_. Outside\<rparr>, g_i = 0, mx_pcs = \<lambda>_. Before\<rparr>"

theorem mutex_test_counts_witness: "\<exists>s'. mutex_test_step ex_mutex_test s'"
proof -
  have "reach mutex_test_start mutex_test_step ex_mutex_test"
    by (rule reach_start) (simp add: mutex_test_start_def ex_mutex_test_def)
  from mutex_test_counts [OF this] show ?thesis by (simp add: ex_mutex_test_def)
qed

text \<open>
  \<open>CountDown_test.cpp\<close>: \<open>main\<close> is past \<open>wait\<close> only when all three threads have counted down,
  and once they have, it does not sleep.
\<close>

theorem countdown_test_waits:
  assumes "reach countdown_test_start countdown_test_step s"
  shows "(0 \<in> released (ct_latch s) \<longrightarrow> ct_finished s = {1, 2, 3})
    \<and> (ct_finished s = {1, 2, 3} \<longrightarrow> 0 \<notin> sleeping (cd_cond (ct_latch s)))"
proof -
  have inv: "ct_finished s \<subseteq> {1, 2, 3}" "count (ct_latch s) = 3 - int (card (ct_finished s))"
      "countdown_inv (ct_latch s)"
    using countdown_tests.reach_inv [OF assms] by (simp_all add: countdown_test_inv_def)
  have "ct_finished s = {1, 2, 3}" if "0 \<in> released (ct_latch s)"
  proof (rule card_subset_eq [OF _ inv(1)])
    have "count (ct_latch s) \<le> 0" using inv(3) that by (auto simp: countdown_inv_def)
    then show "card (ct_finished s) = card {1, 2, 3 :: nat}" using inv(2) card_mono [OF _ inv(1)] by simp
  qed simp
  moreover have "0 \<notin> sleeping (cd_cond (ct_latch s))" if "ct_finished s = {1, 2, 3}"
    using inv(2,3) that by (auto simp: countdown_inv_def)
  ultimately show ?thesis by blast
qed

text \<open>\<open>BlockingQueue_test.cpp\<close>: the consumer gets 1, 2 and 3, in this order, and nothing else.\<close>

theorem queue_test_order:
  assumes "reach bq_start queue_test_step s"
  shows "\<exists>n. taken s = take n [1, 2, 3]"
proof -
  from queue_tests.reach_inv [OF assms] have "taken s @ bq_queue (bq s) = take (length (pushed s)) [1, 2, 3]"
    by (simp add: queue_test_inv_def bq_inv_def)
  then have "taken s = take (length (taken s)) (take (length (pushed s)) [1, 2, 3])" by (metis append_eq_conv_conj)
  then show ?thesis unfolding take_take by blast
qed

end
