(* ===== verification/Server_Stream.thy ===== *)
theory Server_Stream
  imports Server_Program
begin

text \<open>
  What the users of a running server send. For each connection the bytes on the wire followed
  by those queued are the messages \<open>send\<close> accepted since the connection was made, whatever
  else the loop, the poller and the other connections do.
\<close>

section \<open>Operations of a connection\<close>

definition conn_stream :: "tcp_world \<Rightarrow> byte list" where
  "conn_stream t = tw_wire t @ outq t"

lemma stream_fire: "fire b ev t = Inr t' \<Longrightarrow> conn_stream t' = conn_stream t"
  by (auto simp: fire_def conn_stream_def split: if_splits)

lemma stream_same:
  "tw_wire t' = tw_wire t \<Longrightarrow> c_outputBuffer (tw_conn t') = c_outputBuffer (tw_conn t) \<Longrightarrow>
    conn_stream t' = conn_stream t"
  by (simp add: conn_stream_def)

lemma stream_channel:
  assumes "\<And>p ch ep. \<exists>ch'. fst (f p ch ep) = ch'"
  shows "conn_stream (on_channel f t) = conn_stream t"
  by (rule stream_same) (simp_all add: on_channel_def Let_def case_prod_beta)

lemma stream_handleClose: "conn_handleClose t = Inr t' \<Longrightarrow> conn_stream t' = conn_stream t"
  by (auto simp: conn_handleClose_def disconnect_def fire_def on_conn_def conn_stream_def Let_def bind_ok_Inr_iff
      split: if_splits)

lemma stream_established: "established t = Inr t' \<Longrightarrow> conn_stream t' = conn_stream t"
  by (auto simp: established_def fire_def on_conn_def on_channel_def conn_stream_def Let_def
      split: if_splits prod.splits)

lemma stream_handleRead:
  assumes "conn_handleRead k t = Inr t'" and "reads_ok k (c_inputBuffer (tw_conn t))"
  shows "conn_stream t' = conn_stream t"
  using assms
proof (cases rule: handleRead_cases)
  case (message b bs)
  from stream_fire [OF message(2)] show ?thesis by (simp add: conn_stream_def on_conn_def)
next
  case (close b)
  from stream_handleClose [OF close(2)] show ?thesis by (simp add: conn_stream_def on_conn_def)
next
  case (error b)
  then show ?thesis by (simp add: conn_stream_def on_conn_def)
qed

lemma if2_cases:
  "(if a then Inr x else if b then (if c then f else Inr y) else Inr z) = Inr r \<Longrightarrow> \<not> a \<Longrightarrow>
    r = z \<or> r = y \<or> f = Inr r"
  by (auto split: if_splits)

lemma stream_handleWrite:
  assumes "conn_handleWrite wr t = Inr t'" and "buf_inv (c_outputBuffer (tw_conn t))"
  shows "conn_stream t' = conn_stream t"
proof (cases "hasWrite (c_channel (tw_conn t))")
  case False
  with assms show ?thesis by (simp add: conn_handleWrite_def)
next
  case True
  let ?c = "tw_conn t"
  have d: "readable_bytes (c_outputBuffer ?c) = Inr (outq t)" by (rule readable_bytes_ok [OF assms(2)])
  obtain n t1 where w: "kernel_write wr (outq t) t = (n, t1)" by fastforce
  let ?t2 = "on_conn (\<lambda>c. c\<lparr>c_outputBuffer := retrieve (c_outputBuffer ?c) n\<rparr>) t1"
  let ?t3 = "on_channel disableWriting ?t2"
  have e: "conn_handleWrite wr t =
      (if n \<le> 0 then Inr t1
       else if readableBytes (retrieve (c_outputBuffer ?c) n) = 0
         then (if c_has_writeComplete ?c then fire True Ev_WriteComplete ?t3 else Inr ?t3)
       else Inr ?t2)"
    using True d w by (simp add: conn_handleWrite_def Let_def)
  have "t1 = snd (kernel_write wr (outq t) t)" "n = fst (kernel_write wr (outq t) t)" unfolding w by simp_all
  then have t1: "tw_wire t1 = tw_wire t @ take (nat n) (outq t)" "tw_conn t1 = ?c"
    by (cases wr; simp add: kernel_write_def)+
  show ?thesis
  proof (cases "n \<le> 0")
    case True
    with e assms(1) t1 show ?thesis by (simp add: conn_stream_def)
  next
    case False
    have "content (retrieve (c_outputBuffer ?c) n) = drop (nat n) (outq t)"
      using False by (intro retrieve_content [OF assms(2)]) simp
    then have s2: "conn_stream ?t2 = conn_stream t"
      by (simp add: conn_stream_def on_conn_def t1(1))
    have s3: "conn_stream ?t3 = conn_stream ?t2" by (rule stream_channel) simp
    consider "t' = ?t2" | "t' = ?t3" | "fire True Ev_WriteComplete ?t3 = Inr t'"
      using if2_cases [OF trans [OF e [symmetric] assms(1)] False] by blast
    then show ?thesis
    proof cases
      case 1
      show ?thesis unfolding 1 by (rule s2)
    next
      case 2
      show ?thesis unfolding 2 using s2 s3 by simp
    next
      case 3
      from stream_fire [OF 3] s2 s3 show ?thesis by simp
    qed
  qed
qed

text \<open>What \<open>send\<close> takes of a message, in any state of the channel.\<close>

definition taken :: "write_result \<Rightarrow> byte list \<Rightarrow> tcp_conn \<Rightarrow> byte list" where
  "taken wr m c =
     (if \<not> hasWrite (c_channel c) \<and> content (c_outputBuffer c) = []
      then (case wr of Wrote _ \<Rightarrow> m | Write_Errno _ \<Rightarrow> []) else [])"

lemma send_queueE:
  assumes "send_queue m k r e t = Inr t'" and "\<not> e" and "r > 0"
  obtains t1 out where "(if to_size_t (readableBytes (c_outputBuffer (tw_conn t))) + r > c_highWaterMark (tw_conn t)
        \<and> c_highWaterMark (tw_conn t) \<noteq> 0
      then fire (c_has_highWaterMark (tw_conn t))
        (Ev_HighWaterMark (to_size_t (readableBytes (c_outputBuffer (tw_conn t))) + r)) t
      else Inr t) = Inr t1"
    and "append_bytes (c_outputBuffer (tw_conn t1)) (take (nat r) (drop (nat k) m)) = Inr out"
    and "t' = (let w2 = on_conn (\<lambda>c. c\<lparr>c_outputBuffer := out\<rparr>) t1
      in if \<not> hasWrite (c_channel (tw_conn w2)) then on_channel enableWriting w2 else w2)"
  using assms by (auto simp: send_queue_def Let_def bind_ok_Inr_iff simp del: if_image_distrib)

lemma stream_send_queue:
  assumes "send_queue m k r e t = Inr t'" and "buf_inv (c_outputBuffer (tw_conn t))"
    and "buf_room (c_outputBuffer (tw_conn t)) (length (take (nat r) (drop (nat k) m)))"
  shows "conn_stream t' = conn_stream t @ (if \<not> e \<and> r > 0 then take (nat r) (drop (nat k) m) else [])"
proof (cases "\<not> e \<and> r > 0")
  case False
  with assms(1) show ?thesis by (auto simp: send_queue_def Let_def)
next
  case True
  let ?c = "tw_conn t" and ?d = "take (nat r) (drop (nat k) m)"
  from True have e: "\<not> e" "r > 0" by simp_all
  from assms(1) e obtain t1 out where t1: "(if to_size_t (readableBytes (c_outputBuffer ?c)) + r > c_highWaterMark ?c
        \<and> c_highWaterMark ?c \<noteq> 0
      then fire (c_has_highWaterMark ?c) (Ev_HighWaterMark (to_size_t (readableBytes (c_outputBuffer ?c)) + r)) t
      else Inr t) = Inr t1"
    and out: "append_bytes (c_outputBuffer (tw_conn t1)) ?d = Inr out"
    and t': "t' = (let w2 = on_conn (\<lambda>c. c\<lparr>c_outputBuffer := out\<rparr>) t1
      in if \<not> hasWrite (c_channel (tw_conn w2)) then on_channel enableWriting w2 else w2)"
    by (rule send_queueE)
  have s1: "tw_conn t1 = ?c" "tw_wire t1 = tw_wire t" using t1 by (auto simp: fire_def split: if_splits)
  have c: "content out = outq t @ ?d"
    using append_bytes_ok [OF assms(2,3)] out s1(1) by (metis sum.inject(2))
  let ?t2 = "on_conn (\<lambda>c. c\<lparr>c_outputBuffer := out\<rparr>) t1"
  have "conn_stream (on_channel enableWriting ?t2) = conn_stream ?t2" by (rule stream_channel) simp
  then have "conn_stream t' = conn_stream ?t2" unfolding t' by (simp add: Let_def)
  also have "\<dots> = conn_stream t @ ?d" using s1 c by (simp add: conn_stream_def on_conn_def)
  finally show ?thesis using True by simp
qed

lemma stream_send:
  assumes "send_string wr m t = Inr t'" and "buf_inv (c_outputBuffer (tw_conn t))"
    and "buf_room (c_outputBuffer (tw_conn t)) (length m)"
  shows "conn_stream t' = conn_stream t @ taken wr m (tw_conn t)"
proof (cases "\<not> hasWrite (c_channel (tw_conn t)) \<and> outq t = []")
  case False
  then have "\<not> (\<not> hasWrite (c_channel (tw_conn t)) \<and> readableBytes (c_outputBuffer (tw_conn t)) = 0)"
    using assms(2) by (simp add: readable_0)
  with False assms(1) show ?thesis
    by (auto simp: send_string_def send_bytes_def send_direct_def send_queue_nothing taken_def)
next
  case True
  have len: "to_int32 (int (length m)) = int (length m)"
    using assms(3) buf_invD [OF assms(2)] by (simp add: buf_room_def cint)
  have idle: "\<not> hasWrite (c_channel (tw_conn t))" "readableBytes (c_outputBuffer (tw_conn t)) = 0"
    using True assms(2) by (simp_all add: readable_0)
  show ?thesis
  proof (cases wr)
    case (Write_Errno e)
    with idle True assms(1) show ?thesis
      by (auto simp: send_string_def send_bytes_def send_direct_def len kernel_write_def send_queue_nothing taken_def)
  next
    case (Wrote n)
    let ?t1 = "t\<lparr>tw_wire := tw_wire t @ take n m, tw_trace := tw_trace t
      @ (if int (length m) = int n \<and> c_has_writeComplete (tw_conn t) then [Ev_WriteComplete] else [])\<rparr>"
    have "send_direct wr m (int (length m)) t = Inr (int n, int (length m) - int n, False, ?t1)"
      using idle Wrote by (auto simp: send_direct_def kernel_write_def fire_def Let_def)
    with assms(1) have q: "send_queue m (int n) (int (length m) - int n) False ?t1 = Inr t'"
      by (simp add: send_string_def send_bytes_def len)
    have "buf_room (c_outputBuffer (tw_conn ?t1))
        (length (take (nat (int (length m) - int n)) (drop (nat (int n)) m)))"
      using assms(3) by (simp add: buf_room_def)
    from stream_send_queue [OF q _ this] assms(2) True Wrote show ?thesis
      by (auto simp: conn_stream_def taken_def)
  qed
qed

section \<open>The server\<close>

text \<open>\<open>acc\<close> gives for each connection what its users got accepted.\<close>

definition delivered :: "(nat \<Rightarrow> byte list) \<Rightarrow> server \<Rightarrow> bool" where
  "delivered acc s \<longleftrightarrow> (\<forall>oid c. sv_heap s oid = Some c \<longrightarrow> sv_wire s oid @ content (c_outputBuffer c) = acc oid)"

lemma deliveredD: "delivered acc s \<Longrightarrow> sv_heap s oid = Some c \<Longrightarrow> sv_wire s oid @ content (c_outputBuffer c) = acc oid"
  by (simp add: delivered_def)

lemma release_fields:
  "sv_wire (release oid s) = sv_wire s" "sv_heap (release oid s) i = Some c \<Longrightarrow> sv_heap s i = Some c"
  by (auto simp: release_def split: option.splits if_splits)

lemma delivered_release: "delivered acc s \<Longrightarrow> delivered acc (release oid s)"
  unfolding delivered_def using release_fields by metis

lemma delivered_cong: "sv_heap s' = sv_heap s \<Longrightarrow> sv_wire s' = sv_wire s \<Longrightarrow> delivered acc s' = delivered acc s"
  by (simp add: delivered_def)

lemma delivered_on_connection:
  assumes "on_connection f oid s = Inr s'" and "delivered acc s"
    and "\<And>t t'. sv_heap s oid = Some (tw_conn t) \<Longrightarrow> f t = Inr t' \<Longrightarrow> conn_stream t' = conn_stream t @ m"
  shows "delivered (acc(oid := acc oid @ m)) s'"
proof -
  from assms(1) obtain c t where c: "sv_heap s oid = Some c"
    and t: "f \<lparr>tw_conn = c, tw_epoller = sv_epoller s, tw_wire = sv_wire s oid, tw_trace = []\<rparr> = Inr t"
    by (auto simp: on_connection_def bind_ok_Inr_iff split: option.splits)
  let ?s1 = "s\<lparr>sv_heap := (sv_heap s)(oid := Some (tw_conn t)), sv_epoller := tw_epoller t,
      sv_wire := (sv_wire s)(oid := tw_wire t),
      sv_log := sv_log s @ map (Pair oid) (tw_trace t)\<rparr>"
  have s': "s' = (if Ev_Close \<in> set (tw_trace t)
      then release oid (removeConnection (conn_fd (tw_conn t)) ?s1) else ?s1)"
    using assms(1) c t by (simp add: on_connection_def Let_def)
  have "conn_stream t = sv_wire s oid @ content (c_outputBuffer c) @ m"
    using assms(3) [OF _ t] c by (simp add: conn_stream_def)
  then have "conn_stream t = acc oid @ m" using deliveredD [OF assms(2) c] by simp
  then have "delivered (acc(oid := acc oid @ m)) ?s1"
    using assms(2) by (auto simp: delivered_def conn_stream_def)
  moreover from this have "delivered (acc(oid := acc oid @ m)) (removeConnection (conn_fd (tw_conn t)) ?s1)"
    by (simp add: removeConnection_def delivered_def)
  ultimately show ?thesis unfolding s' using delivered_release by simp
qed

lemma delivered_quiet:
  assumes "on_connection f oid s = Inr s'" and "delivered acc s"
    and "\<And>t t'. sv_heap s oid = Some (tw_conn t) \<Longrightarrow> f t = Inr t' \<Longrightarrow> conn_stream t' = conn_stream t"
  shows "delivered acc s'"
  using delivered_on_connection [where m = "[]", OF assms(1,2)] assms(3) by simp

lemma delivered_call:
  assumes "server_call k wr oid cb s = Inr s'" and "delivered acc s" and "server_inv ws s"
    and "cb = Conn_handleRead \<Longrightarrow> fits k oid s"
  shows "delivered acc s'"
proof (cases cb)
  case Conn_handleRead
  with assms have "on_connection (conn_handleRead k) oid s = Inr s'" "fits k oid s" by simp_all
  then show ?thesis
    by (intro delivered_quiet [OF _ assms(2)] stream_handleRead) (auto simp: fits_def)
next
  case Conn_handleWrite
  with assms(1) have h: "on_connection (conn_handleWrite wr) oid s = Inr s'" by simp
  show ?thesis
  proof (rule delivered_quiet [OF h assms(2)])
    fix t t'
    assume "sv_heap s oid = Some (tw_conn t)" and w: "conn_handleWrite wr t = Inr t'"
    from server_invD(3) [OF assms(3) this(1)] have "buf_inv (c_outputBuffer (tw_conn t))"
      by (simp add: server_conn_def)
    with w show "conn_stream t' = conn_stream t" by (rule stream_handleWrite)
  qed
next
  case Conn_handleClose
  with assms(1) have "on_connection conn_handleClose oid s = Inr s'" by simp
  then show ?thesis by (rule delivered_quiet [OF _ assms(2) stream_handleClose])
qed

lemma delivered_dispatch:
  assumes "handleEvent (conn_channel oid) (server_call k wr oid) s = Inr s'" and "fits k oid s"
    and "server_inv ws s" and "delivered acc s"
  shows "delivered acc s'"
proof -
  have "server_inv ws s' \<and> delivered acc s'"
    by (rule dispatch_induct [where P = "\<lambda>s. server_inv ws s \<and> delivered acc s", OF assms(1,2)])
      (use assms(3,4) server_call_inv delivered_call in blast)+
  then show ?thesis ..
qed

lemma delivered_new:
  assumes "newConnection oid uninit localr fd peer s = Inr s'" and "delivered acc s" and "server_inv ws s"
    and "sv_heap s oid = None"
  shows "delivered (acc(oid := [])) s'"
proof -
  define c where "c = (tcp_ctor oid fd (getLocalAddr localr) peer uninit)\<lparr>c_has_connection := True,
      c_has_message := sv_has_message s, c_has_writeComplete := sv_has_writeComplete s, c_has_close := True\<rparr>"
  define s1 where "s1 = s\<lparr>sv_fds := insert fd (sv_fds s),
      sv_connections := (sv_connections s)(fd := Some oid), sv_heap := (sv_heap s)(oid := Some c),
      sv_wire := (sv_wire s)(oid := [])\<rparr>"
  have e: "on_connection established oid s1 = Inr s'"
    using assms(1) server_invD(10) [OF assms(3)]
    by (simp add: newConnection_def getNextLoop_def Let_def c_def s1_def)
  have "c_outputBuffer c = new_buffer 1024" by (simp add: c_def tcp_ctor_def)
  then have "delivered (acc(oid := [])) s1"
    using assms(2) by (auto simp: delivered_def s1_def)
  then show ?thesis by (rule delivered_quiet [OF e]) (rule stream_established)
qed

text \<open>\<open>send\<close> never closes.\<close>

lemma fire_no_close:
  "fire b ev t = Inr t' \<Longrightarrow> ev \<noteq> Ev_Close \<Longrightarrow> Ev_Close \<in> set (tw_trace t') \<Longrightarrow> Ev_Close \<in> set (tw_trace t)"
  by (auto simp: fire_def split: if_splits)

lemma on_channel_trace: "tw_trace (on_channel f t) = tw_trace t"
  by (simp add: on_channel_def Let_def case_prod_beta)

lemma send_queue_no_close:
  assumes "send_queue m k r e t = Inr t'" and "Ev_Close \<in> set (tw_trace t')"
  shows "Ev_Close \<in> set (tw_trace t)"
proof (cases "\<not> e \<and> r > 0")
  case False
  with assms show ?thesis by (auto simp: send_queue_def Let_def)
next
  case True
  then have e: "\<not> e" "r > 0" by simp_all
  from assms(1) e show ?thesis
  proof (rule send_queueE)
    fix t1 out
    assume t1: "(if to_size_t (readableBytes (c_outputBuffer (tw_conn t))) + r > c_highWaterMark (tw_conn t)
        \<and> c_highWaterMark (tw_conn t) \<noteq> 0
      then fire (c_has_highWaterMark (tw_conn t))
        (Ev_HighWaterMark (to_size_t (readableBytes (c_outputBuffer (tw_conn t))) + r)) t
      else Inr t) = Inr t1"
      and t': "t' = (let w2 = on_conn (\<lambda>c. c\<lparr>c_outputBuffer := out\<rparr>) t1
        in if \<not> hasWrite (c_channel (tw_conn w2)) then on_channel enableWriting w2 else w2)"
    from assms(2) have "Ev_Close \<in> set (tw_trace t1)"
      unfolding t' by (simp add: Let_def on_channel_trace on_conn_def split: if_splits)
    with t1 show ?thesis by (auto split: if_splits dest: fire_no_close)
  qed
qed

lemma send_direct_no_close:
  "send_direct wr m n t = Inr (k, r, e, t') \<Longrightarrow> Ev_Close \<in> set (tw_trace t') \<Longrightarrow> Ev_Close \<in> set (tw_trace t)"
  by (cases wr) (auto simp: send_direct_def kernel_write_def Let_def bind_ok_Inr_iff
      dest: fire_no_close split: if_splits)

lemma send_no_close:
  "send_string wr m t = Inr t' \<Longrightarrow> Ev_Close \<in> set (tw_trace t') \<Longrightarrow> Ev_Close \<in> set (tw_trace t)"
  by (auto simp: send_string_def send_bytes_def bind_ok_Inr_iff dest: send_direct_no_close send_queue_no_close)

lemma send_alive:
  assumes "on_connection (send_string wr m) oid s = Inr s'"
  shows "sv_heap s' oid \<noteq> None"
proof -
  from assms obtain c t where c: "sv_heap s oid = Some c"
    and t: "send_string wr m \<lparr>tw_conn = c, tw_epoller = sv_epoller s, tw_wire = sv_wire s oid, tw_trace = []\<rparr> = Inr t"
    by (auto simp: on_connection_def bind_ok_Inr_iff split: option.splits)
  from on_connection_stays [where f = "send_string wr m", OF c t] send_no_close [OF t] assms show ?thesis by auto
qed

text \<open>No operation of a connection brings another to life.\<close>

lemma on_connection_dead: "on_connection f oid s = Inr s' \<Longrightarrow> sv_heap s i = None \<Longrightarrow> sv_heap s' i = None"
  by (auto simp: on_connection_def bind_ok_Inr_iff Let_def release_def removeConnection_def
      split: option.splits if_splits)

lemma call_dead: "server_call k wr oid cb s = Inr s' \<Longrightarrow> sv_heap s i = None \<Longrightarrow> sv_heap s' i = None"
  by (cases cb) (auto intro: on_connection_dead)

lemma dispatch_dead:
  assumes "handleEvent (conn_channel oid) (server_call k wr oid) s = Inr s'" and "fits k oid s"
    and "server_inv ws s" and "sv_heap s i = None"
  shows "sv_heap s' i = None"
proof -
  have "server_inv ws s' \<and> sv_heap s' i = None"
    by (rule dispatch_induct [where P = "\<lambda>s. server_inv ws s \<and> sv_heap s i = None", OF assms(1,2)])
      (use assms(3,4) server_call_inv call_dead in blast)+
  then show ?thesis ..
qed

section \<open>The program\<close>

text \<open>What a step gets accepted for a connection: something only for the one it sends on.\<close>

fun sends :: "'f sl_move \<Rightarrow> 'f server_loop \<Rightarrow> nat \<Rightarrow> byte list" where
  "sends (Sl_Send oid wr m) s i =
     (if i = oid then (case sv_heap (sl_server s) oid of None \<Rightarrow> [] | Some c \<Rightarrow> taken wr m c) else [])"
| "sends m s i = []"

text \<open>The steps of the program with the history: a connection that is not there has none.\<close>

inductive stream_step ::
  "'f server_loop \<times> (nat \<Rightarrow> byte list) \<Rightarrow> 'f server_loop \<times> (nat \<Rightarrow> byte list) \<Rightarrow> bool" where
  stream_stepI: "sl_do m s = Some (Inr s') \<Longrightarrow>
    stream_step (s, acc) (s', \<lambda>oid. if sv_heap (sl_server s) oid = None then [] else acc oid @ sends m s oid)"

inductive_cases stream_stepE: "stream_step x y"

definition stream_start :: "'f server_loop \<times> (nat \<Rightarrow> byte list) \<Rightarrow> bool" where
  "stream_start x \<longleftrightarrow> sl_start (fst x)"

definition stream_inv :: "'f server_loop \<times> (nat \<Rightarrow> byte list) \<Rightarrow> bool" where
  "stream_inv x \<longleftrightarrow> sl_inv (fst x) \<and> delivered (snd x) (sl_server (fst x))"

lemma delivered_fresh:
  assumes "delivered acc s'" and "\<And>i. sv_heap s i = None \<Longrightarrow> sv_heap s' i = None"
  shows "delivered (\<lambda>i. if sv_heap s i = None then [] else acc i) s'"
  using assms by (fastforce simp: delivered_def)

text \<open>What \<open>setREvents\<close> keeps, a poll keeps.\<close>

lemma poll_keeps:
  assumes "poll mark_channel w s ep = Inr (ps, s1, ep1)" and "P s"
    and "\<And>p e t t'. mark_channel p e t = Inr t' \<Longrightarrow> P t \<Longrightarrow> P t'"
  shows "P s1"
proof (cases w)
  case (Wait_Ready es)
  show ?thesis
  proof (cases "es = []")
    case False
    with Wait_Ready assms(1) have "mark_ready mark_channel es s = Inr (ps, s1)"
      by (auto simp: poll_def bind_ok_Inr_iff split: if_splits)
    from mark_ready_inv [where P = P, OF assms(3) this assms(2)] show ?thesis .
  qed (use Wait_Ready assms in \<open>simp add: poll_def\<close>)
qed (use assms in \<open>simp add: poll_def\<close>)

lemma mark_delivered:
  "mark_channel p e s = Inr s' \<Longrightarrow> delivered acc (sl_server s) \<Longrightarrow> delivered acc (sl_server s')"
  by (auto simp: mark_channel_def delivered_def split: if_splits option.splits)

lemma mark_dead:
  "mark_channel p e s = Inr s' \<Longrightarrow> sv_heap (sl_server s) i = None \<Longrightarrow> sv_heap (sl_server s') i = None"
  by (auto simp: mark_channel_def split: if_splits option.splits)

lemma handle_active_stream:
  assumes "handle_active io p s = Inr s'" and "sl_inv s" and "answers_ok io p s"
    and "delivered acc (sl_server s)"
  shows "delivered (\<lambda>i. if sv_heap (sl_server s) i = None then [] else acc i) (sl_server s')"
proof -
  have f: "sl_fixed s" and g: "server_inv (others s) (sl_server s)"
    using assms(2) by (simp_all add: sl_inv_def server_good_def)
  have same: ?thesis if "sl_server s' = sl_server s"
    using delivered_fresh [of acc "sl_server s'" "sl_server s"] assms(4) that by simp
  consider (own) "p = sl_addr s" | (acceptor) "p = ac_addr (sl_acceptor s)"
    | (conn) "p \<noteq> sl_addr s" "p \<noteq> ac_addr (sl_acceptor s)" by blast
  then show ?thesis
  proof cases
    case own
    with handle_wakeup [OF f own, of io] assms(1) have "sl_server s' = sl_server s" by (auto split: if_splits)
    then show ?thesis by (rule same)
  next
    case acceptor
    with handle_acceptor [OF f acceptor, of io] assms(1) have
        "s' = s \<or> acceptor_call io Acceptor_handleRead s = Inr s'"
      by (simp del: acceptor_call.simps split: if_splits)
    then show ?thesis
    proof
      assume "s' = s"
      then show ?thesis using same by simp
    next
      assume "acceptor_call io Acceptor_handleRead s = Inr s'"
      then show ?thesis
      proof (cases rule: acceptor_callE)
        case same
        then show ?thesis using delivered_fresh [of acc "sl_server s'" "sl_server s"] assms(4) by simp
      next
        case (new fd sv)
        have d: "sv_heap (sl_server s) (io_alloc io) = None" using assms(3) new(1) by (simp add: answers_ok_def)
        from delivered_new [OF new(2) assms(4) g d]
        have "delivered (acc(io_alloc io := [])) sv" .
        moreover have "sv_heap sv i = None" if "sv_heap (sl_server s) i = None" "i \<noteq> io_alloc io" for i
          using new(2) that server_invD(10) [OF g]
          by (auto simp: newConnection_def getNextLoop_def Let_def elim!: on_connection_dead)
        ultimately show ?thesis using new(3) d by (fastforce simp: delivered_def split: if_splits)
      qed
    qed
  next
    case conn
    with assms(1) obtain sv where
        sv: "handleEvent (conn_channel p) (server_call (io_read io) (io_write io) p) (sl_server s) = Inr sv"
      and s': "s' = s\<lparr>sl_server := sv\<rparr>"
      by (auto simp: handle_active_def bind_ok_Inr_iff)
    have fit: "fits (io_read io) p (sl_server s)" using assms(3) by (simp add: answers_ok_def)
    from delivered_fresh [OF delivered_dispatch [OF sv fit g assms(4)] dispatch_dead [OF sv fit g]] s'
    show ?thesis by simp
  qed
qed

text \<open>Steps of the user.\<close>

lemma delivered_keep: "delivered acc s \<Longrightarrow> delivered acc (user_keeps oid s)"
  by (simp add: delivered_def user_keeps_def)

lemma delivered_drop:
  assumes "delivered acc s"
  shows "delivered acc (user_drops oid s)"
proof -
  have "delivered acc (s\<lparr>sv_users := (sv_users s)(oid := sv_users s oid - 1)\<rparr>)"
    using assms by (simp add: delivered_def)
  then show ?thesis unfolding user_drops_def by (rule delivered_release)
qed

lemma drop_dead: "sv_heap s i = None \<Longrightarrow> sv_heap (user_drops oid s) i = None"
  by (simp add: user_drops_def release_def split: option.splits)

lemma sl_send_server:
  "sl_do (Sl_Send oid wr m) s = Some (Inr s') \<Longrightarrow> on_connection (send_string wr m) oid (sl_server s) = Inr (sl_server s')"
  by (auto simp: on_server_def user_send_def bind_ok_Inr_iff split: option.splits if_splits)

lemma stream_step_inv:
  "sl_do m s = Some (Inr s') \<Longrightarrow> sl_inv s \<Longrightarrow> delivered acc (sl_server s) \<Longrightarrow>
    delivered (\<lambda>i. if sv_heap (sl_server s) i = None then [] else acc i @ sends m s i) (sl_server s')"
proof (induction m s rule: sl_do.induct)
  case (1 m s)
  then have "sl_server s' = sl_server s" by (auto split: if_splits)
  with 1(3) show ?case by (simp add: delivered_def)
next
  case (2 w s)
  from 2(1) obtain ps s1 ep where p: "poll mark_channel w s (sv_epoller (sl_server s)) = Inr (ps, s1, ep)"
    and s': "s' = s1\<lparr>sl_active := ps, sl_server := (sl_server s1)\<lparr>sv_epoller := ep\<rparr>,
      sl_loop := (sl_loop s1)\<lparr>lp_pc := Handling\<rparr>\<rparr>"
    by (auto simp: bind_ok_Inr_iff split: if_splits)
  have "delivered acc (sl_server s1)"
    by (rule poll_keeps [where P = "\<lambda>t. delivered acc (sl_server t)", OF p 2(3) mark_delivered])
  then have "delivered acc (sl_server s')" unfolding s' by (simp add: delivered_def)
  moreover have "sv_heap (sl_server s') i = None" if "sv_heap (sl_server s) i = None" for i
    using poll_keeps [where P = "\<lambda>t. sv_heap (sl_server t) i = None", OF p that mark_dead] unfolding s' by simp
  ultimately show ?case by (simp add: delivered_fresh)
next
  case (3 io s)
  from 3(1) obtain p ps where a: "sl_active s = p # ps" "answers_ok io p s"
    and h: "handle_active io p (s\<lparr>sl_active := ps\<rparr>) = Inr s'"
    by (cases "sl_active s") (auto split: if_splits)
  have "sl_inv (s\<lparr>sl_active := ps\<rparr>)" using 3(2) by (rule sl_inv_same) (simp_all add: shell_def)
  moreover have "answers_ok io p (s\<lparr>sl_active := ps\<rparr>)" using a(2) by (simp add: answers_ok_def)
  ultimately show ?case using handle_active_stream [OF h, of acc] 3(3) by (simp cong: if_cong)
next
  case (4 s)
  then have "sl_server s' = sl_server s" by (auto split: if_splits)
  with delivered_fresh [of acc "sl_server s'" "sl_server s"] 4(3) show ?case by (simp cong: if_cong)
next
  case (5 oid s)
  then have "sl_server s' = user_keeps oid (sl_server s)" by (auto simp: on_server_def split: if_splits)
  with delivered_fresh [OF delivered_keep [OF 5(3)], of "sl_server s" oid] show ?case
    by (simp add: user_keeps_def cong: if_cong)
next
  case (6 oid s)
  then have "sl_server s' = user_drops oid (sl_server s)" by (auto simp: on_server_def split: if_splits)
  moreover have "delivered acc (user_drops oid (sl_server s))" using 6(3) by (rule delivered_drop)
  ultimately show ?case using delivered_fresh [OF _ drop_dead] by (simp cong: if_cong)
next
  case (7 oid wr m s)
  from 7(1) obtain c where c: "sv_heap (sl_server s) oid = Some c" "buf_room (c_outputBuffer c) (length m)"
    by (auto split: option.splits if_splits)
  note f = sl_send_server [OF 7(1)]
  have "server_conn oid c" using 7(2) server_invD(3) [OF _ c(1)] by (auto simp: sl_inv_def server_good_def)
  then have "buf_inv (c_outputBuffer c)" by (simp add: server_conn_def)
  then have d: "delivered (acc(oid := acc oid @ taken wr m c)) (sl_server s')"
    using c by (intro delivered_on_connection [OF f 7(3)]) (auto intro: stream_send)
  show ?case
    unfolding delivered_def using deliveredD [OF d] on_connection_dead [OF f] c(1)
    by (auto split: if_splits)
next
  case (8 oid n s)
  then have f: "on_connection (\<lambda>t. Inr (on_conn (\<lambda>c. c\<lparr>c_inputBuffer := retrieve (c_inputBuffer c) (int n)\<rparr>) t))
      oid (sl_server s) = Inr (sl_server s')"
    by (auto simp: on_server_def user_retrieve_def bind_ok_Inr_iff split: if_splits)
  have "delivered acc (sl_server s')"
    by (rule delivered_quiet [OF f 8(3)]) (auto simp: conn_stream_def on_conn_def)
  from delivered_fresh [OF this on_connection_dead [OF f]] show ?case by (simp cong: if_cong)
qed

lemma sl_start_heap: "sl_start s \<Longrightarrow> sv_heap (sl_server s) = (\<lambda>_. None)"
  unfolding sl_start_def
  by (auto simp: tcp_server_ctor_def tcp_server_start_def server_ctor_def bind_ok_Inr_iff Let_def case_prod_beta)

interpretation streams: state_invariant stream_start stream_step stream_inv
proof unfold_locales
  show "stream_inv x" if "stream_start x" for x :: "'a server_loop \<times> (nat \<Rightarrow> byte list)"
    using that sl_start_inv [of "fst x"] sl_start_heap [of "fst x"]
    by (simp add: stream_start_def stream_inv_def delivered_def)
  show "stream_inv y" if "stream_step x y" and "stream_inv x" for x y :: "'a server_loop \<times> (nat \<Rightarrow> byte list)"
    using that by (cases x) (auto elim!: stream_stepE simp: stream_inv_def intro: sl_do_inv stream_step_inv)
qed

section \<open>Examples\<close>

text \<open>The user sends two bytes on the connection the example serves, and the kernel takes one.\<close>

definition ex_sent :: "nat server_loop" where
  "ex_sent = the (sl_next (Sl_Send 3 (Wrote 1) [1, 2]) ex_serving)"

text \<open>A run of the program without a history has one with a history.\<close>

lemma reach_stream: "reach sl_start sl_step s \<Longrightarrow> \<exists>acc. reach stream_start stream_step (s, acc)"
proof (induction rule: reach.induct)
  case (reach_start s)
  then have "stream_start (s, \<lambda>_. [])" by (simp add: stream_start_def)
  then show ?case by (blast intro: reach.reach_start)
next
  case (reach_step s t)
  from reach_step(3) obtain acc where r: "reach stream_start stream_step (s, acc)" ..
  from reach_step(2) obtain m where "sl_do m s = Some (Inr t)" by (rule sl_stepE)
  from reach.reach_step [OF r stream_stepI [OF this]] show ?case by blast
qed

lemma ex_sent:
  "\<exists>acc c. reach stream_start stream_step (ex_sent, acc) \<and> sv_heap (sl_server ex_sent) 3 = Some c
    \<and> acc 3 = [1, 2]"
proof -
  obtain c where c: "sv_heap (sl_server ex_serving) 3 = Some c" "c_outputBuffer c = new_buffer 1024"
      "ch_events (c_channel c) = READ" "c_highWaterMark c = 0"
    using ex_serving(6) by blast
  have o: "content (c_outputBuffer c) = []" "high_water_safe c" "\<not> hasWrite (c_channel c)"
      "buf_room (c_outputBuffer c) (Suc (Suc 0))"
    using c by (simp_all add: high_water_safe_def hasWrite_def has_event_def poll_bits)
      (simp add: buf_room_def buf_consts new_buffer_def cint)
  obtain acc where r: "reach stream_start stream_step (ex_waiting, acc)"
    using reach_stream [OF ex_waiting_reach] ..
  let ?m = "Sl_Handle (ex_answers (\<lambda>_. Read_Bytes [])) :: nat sl_move"
  let ?a = "\<lambda>oid. if sv_heap (sl_server ex_waiting) oid = None then [] else acc oid @ sends ?m ex_waiting oid"
  have r1: "reach stream_start stream_step (ex_serving, ?a)"
    by (rule reach.reach_step [OF r stream_stepI [OF ex_serving(1)]])
  let ?n = "Sl_Send 3 (Wrote 1) [1, 2] :: nat sl_move"
  have some: "\<exists>x. sl_do ?n ex_serving = Some x"
    using c(1) o(4) ex_serving(2) by (simp add: own_thread.simps)
  have "\<nexists>e. sl_do ?n ex_serving = Some (Inl e)"
    using fault_cases [OF sls.reach_inv [OF ex_serving_reach], of ?n] c(1) o(2) by auto
  with some obtain s where "sl_do ?n ex_serving = Some (Inr s)" by (metis sum.exhaust)
  then have s: "sl_do ?n ex_serving = Some (Inr ex_sent)"
    unfolding ex_sent_def sl_next_def by (simp del: sl_do.simps)
  from send_alive [OF sl_send_server [OF s]] obtain c' where c': "sv_heap (sl_server ex_sent) 3 = Some c'" by auto
  have "sends ?n ex_serving 3 = [1, 2]" using o c(1) by (simp add: taken_def)
  note sent = this
  show ?thesis
    by (intro exI conjI, rule reach.reach_step [OF r1 stream_stepI [OF s]], rule c')
      (use sent in \<open>simp add: ex_waiting_run c(1)\<close>)
qed

section \<open>Properties\<close>

text \<open>
  C1. Output, over whole runs of the program: for every living connection the bytes written to its
  socket, followed by those queued, are the messages \<open>send\<close> accepted since the connection was
  made, in order, none lost, repeated or mixed with another connection's, whatever events,
  closes, other connections and functors come between.
\<close>

theorem program_stream:
  assumes "reach stream_start stream_step (s, acc)" and "sv_heap (sl_server s) oid = Some c"
  shows "sv_wire (sl_server s) oid @ content (c_outputBuffer c) = acc oid"
  using streams.reach_inv [OF assms(1)] deliveredD assms(2) by (simp add: stream_inv_def)

theorem program_stream_witness:
  "\<exists>acc c. sv_heap (sl_server ex_sent) 3 = Some c
    \<and> sv_wire (sl_server ex_sent) 3 @ content (c_outputBuffer c) = [1, 2]"
  using ex_sent program_stream by metis

end
