(* ===== verification/Server_Progress.thy ===== *)
theory Server_Progress
  imports Server_Program
begin

text \<open>
  The program as a typed machine. Every reachable state is well formed: a living connection has
  the address it is registered with, the callbacks its constructor and \<open>newConnection\<close> set,
  two well-formed buffers and a descriptor that is open. And the loop's own thread is never
  stuck: until it has left \<open>loop\<close> it has a next step, whatever the other threads do.
\<close>

section \<open>Definitions\<close>

text \<open>The steps of the loop's own thread that the code takes, not the user's calls.\<close>

fun own_step :: "'f sl_move \<Rightarrow> bool" where
  "own_step (Sl_Loop Enter_Loop) = True"
| "own_step (Sl_Loop Test_Quit) = True"
| "own_step (Sl_Loop Swap) = True"
| "own_step (Sl_Loop Run_Task) = True"
| "own_step (Sl_Loop Tasks_Done) = True"
| "own_step (Sl_Poll w) = True"
| "own_step (Sl_Handle io) = True"
| "own_step Sl_Events_Done = True"
| "own_step m = False"

definition well_formed :: "'f server_loop \<Rightarrow> bool" where
  "well_formed s \<longleftrightarrow> (\<forall>oid c. sv_heap (sl_server s) oid = Some c \<longrightarrow>
     server_conn oid c \<and> conn_fd c \<in> sv_fds (sl_server s)
     \<and> oid \<noteq> sl_addr s \<and> oid \<noteq> ac_addr (sl_acceptor s)
     \<and> conn_fd c \<noteq> ch_fd (sl_wakeup s) \<and> conn_fd c \<noteq> ac_fd (sl_acceptor s))"

text \<open>The connection whose event is next is gone, or its event closes it and no user keeps it.\<close>

definition next_frees :: "answers \<Rightarrow> 'f server_loop \<Rightarrow> bool" where
  "next_frees io s \<longleftrightarrow> (case sl_active s of [] \<Rightarrow> False | p # ps \<Rightarrow>
     p \<noteq> sl_addr s \<and> p \<noteq> ac_addr (sl_acceptor s)
     \<and> (case sv_heap (sl_server s) p of None \<Rightarrow> True
        | Some c \<Rightarrow> sv_users (sl_server s) p = 0
            \<and> closes (io_read io) p (ch_revents (c_channel c)) (sl_server s)))"

text \<open>The acceptor is next, it is readable, and \<open>accept4\<close> fails with an error the code takes as fatal.\<close>

definition next_aborts :: "answers \<Rightarrow> 'f server_loop \<Rightarrow> bool" where
  "next_aborts io s \<longleftrightarrow> (case sl_active s of [] \<Rightarrow> False | p # ps \<Rightarrow>
     p = ac_addr (sl_acceptor s) \<and> read_test (ch_revents (ac_channel (sl_acceptor s)))
     \<and> (case io_accept io of Sys_Ok fd \<Rightarrow> False | Sys_Err err \<Rightarrow> \<not> accept_transient err))"

text \<open>Answers of a kernel with nothing to give: every call returns \<open>EAGAIN\<close>.\<close>

definition nothing_ready :: answers where
  "nothing_ready = \<lparr>io_read = (\<lambda>_. Read_Fail EAGAIN), io_write = Write_Errno EAGAIN,
     io_accept = Sys_Err EAGAIN, io_peer = zero_addr, io_local = None, io_alloc = 0, io_uninit = 0\<rparr>"

section \<open>Lemmas\<close>

lemma sl_inv_well_formed: "sl_inv s \<Longrightarrow> well_formed s"
proof -
  assume i: "sl_inv s"
  then have f: "sl_fixed s" and g: "server_inv (others s) (sl_server s)"
    by (simp_all add: sl_inv_def server_good_def)
  have a: "oid \<noteq> sl_addr s \<and> oid \<noteq> ac_addr (sl_acceptor s)" if "sv_heap (sl_server s) oid = Some c" for oid c
    using server_invD(7) [OF g that] by (simp add: addresses_fixed [OF f])
  have w: "others s (ch_fd (sl_wakeup s)) \<noteq> None" "others s (ac_fd (sl_acceptor s)) \<noteq> None"
    by (simp_all add: others_fixed [OF f])
  have d: "fd \<noteq> ch_fd (sl_wakeup s) \<and> fd \<noteq> ac_fd (sl_acceptor s)" if "fd \<in> sv_fds (sl_server s)" for fd
    using server_invD(6) [OF g] w that by blast
  show ?thesis
    unfolding well_formed_def using a d server_invD(2,3) [OF g] by blast
qed

lemma nothing_ready_ok: "answers_ok nothing_ready p s"
  by (simp add: answers_ok_def nothing_ready_def fits_def reads_ok_def readv_within_def write_within_def)

lemma handle_outcome:
  assumes "sl_inv s" and "lp_pc (sl_loop s) = Handling" and "sl_active s = p # ps" and "answers_ok io p s"
  shows "if next_frees io s then sl_do (Sl_Handle io) s = Some (Inl Use_After_Free)
    else if next_aborts io s then sl_do (Sl_Handle io) s = Some (Inl Aborted)
    else \<exists>s'. sl_do (Sl_Handle io) s = Some (Inr s')"
proof -
  let ?s = "s\<lparr>sl_active := ps\<rparr>"
  have e: "sl_do (Sl_Handle io) s = Some (handle_active io p ?s)" using assms(2-4) by simp
  have i: "sl_inv ?s" using assms(1) by (rule sl_inv_same) (simp_all add: shell_def)
  then have f: "sl_fixed ?s" by (simp add: sl_inv_def)
  have k: "answers_ok io p ?s" using assms(4) by (simp add: answers_ok_def)
  consider (own) "p = sl_addr s" | (acceptor) "p = ac_addr (sl_acceptor s)" "p \<noteq> sl_addr s"
    | (gone) "p \<noteq> sl_addr s" "p \<noteq> ac_addr (sl_acceptor s)" "sv_heap (sl_server s) p = None"
    | (conn) c where "p \<noteq> sl_addr s" "p \<noteq> ac_addr (sl_acceptor s)" "sv_heap (sl_server s) p = Some c"
    by blast
  then show ?thesis
  proof cases
    case own
    have "\<not> next_frees io s" "\<not> next_aborts io s"
      using own assms(3) f by (simp_all add: next_frees_def next_aborts_def sl_fixed_def)
    with handle_wakeup [OF f, of p io] own e show ?thesis by simp
  next
    case acceptor
    have n: "\<not> next_frees io s" using acceptor assms(3) by (simp add: next_frees_def)
    show ?thesis
    proof (cases "handle_active io p ?s")
      case (Inl err)
      with accept_fault [OF i, of io err] k acceptor have "err = Aborted" by simp
      moreover have "next_aborts io s"
        using Inl acceptor accept_fault [OF i, of io err] k handle_acceptor [OF f, of p io] assms(3)
        by (auto simp: next_aborts_def simp del: acceptor_call.simps split: if_splits)
      ultimately show ?thesis using n e Inl by simp
    next
      case (Inr s')
      have "\<not> next_aborts io s"
        using Inr acceptor handle_acceptor [OF f, of p io] assms(3)
        by (auto simp: next_aborts_def acceptor_handleRead_def sockets_accept_def split: if_splits sys_result.splits)
      with n e Inr show ?thesis by simp
    qed
  next
    case gone
    with handle_gone [OF i, of p io] e assms(3) show ?thesis by (simp add: next_frees_def)
  next
    case conn
    with handle_connection [OF assms conn(3)] assms(3) show ?thesis
      by (auto simp: next_frees_def next_aborts_def simp del: sl_do.simps)
  qed
qed

text \<open>Until it has left the loop, the own thread has a next step.\<close>

lemma own_progress:
  assumes "sl_inv s" and "lp_pc (sl_loop s) \<noteq> Loop_Left"
  shows "\<exists>m. own_step m \<and> ((\<exists>s'. sl_do m s = Some (Inr s'))
    \<or> (\<exists>io. m = Sl_Handle io \<and> next_frees io s \<and> sl_do m s = Some (Inl Use_After_Free)))"
proof (cases "lp_pc (sl_loop s)")
  case Before_Loop
  then show ?thesis by (intro exI [of _ "Sl_Loop Enter_Loop"]) simp
next
  case Loop_Test
  then show ?thesis by (intro exI [of _ "Sl_Loop Test_Quit"]) simp
next
  case Polling
  from poll_ok [OF assms(1) Polling, of "[]"] show ?thesis
    by (intro exI [of _ "Sl_Poll (Wait_Ready [])"]) (auto simp del: sl_do.simps)
next
  case Handling
  show ?thesis
  proof (cases "sl_active s")
    case Nil
    with Handling show ?thesis by (intro exI [of _ Sl_Events_Done]) simp
  next
    case (Cons p ps)
    have "\<not> next_aborts nothing_ready s"
      by (simp add: next_aborts_def nothing_ready_def accept_transient_def Cons)
    with handle_outcome [OF assms(1) Handling Cons nothing_ready_ok] show ?thesis
      by (intro exI [of _ "Sl_Handle nothing_ready"]) (auto simp del: sl_do.simps split: if_splits)
  qed
next
  case Before_Swap
  then show ?thesis by (intro exI [of _ "Sl_Loop Swap"]) simp
next
  case (Tasks fs)
  show ?thesis
  proof (cases fs)
    case Nil
    with Tasks show ?thesis by (intro exI [of _ "Sl_Loop Tasks_Done"]) simp
  next
    case (Cons f gs)
    with Tasks show ?thesis by (intro exI [of _ "Sl_Loop Run_Task"]) simp
  qed
qed (use assms(2) in simp)

section \<open>Properties\<close>

text \<open>
  C4. Well-formedness and progress of the whole program. In every state a run reaches, each living
  connection is well formed (registered under its own address, with the callbacks the server
  gave it, two well-formed buffers, and an open descriptor that is neither the acceptor's nor
  the loop's), and the loop's thread, until it has left \<open>loop\<close>, has a next step; it succeeds,
  except for the event of a connection that is gone or that this event frees.
\<close>

theorem program_progress:
  assumes "reach sl_start sl_step s"
  shows "well_formed s \<and> (lp_pc (sl_loop s) \<noteq> Loop_Left \<longrightarrow>
    (\<exists>m. own_step m \<and> ((\<exists>s'. sl_do m s = Some (Inr s'))
      \<or> (\<exists>io. m = Sl_Handle io \<and> next_frees io s \<and> sl_do m s = Some (Inl Use_After_Free)))))"
  using sl_inv_well_formed own_progress sls.reach_inv [OF assms] by blast

theorem program_progress_witness:
  "well_formed ex_serving \<and> (\<exists>m s'. own_step m \<and> sl_do m ex_serving = Some (Inr s'))"
  using program_progress [OF ex_serving_reach] ex_serving(2,3) by (auto simp: loop_init_def next_frees_def)

text \<open>
  C8. Which events fault, exactly. Handling the next active channel, whatever the kernel answers,
  is a use after free if and only if it is a connection that is gone, or one its event closes
  while no user keeps it; it aborts if and only if the acceptor is readable and \<open>accept4\<close> fails
  with an error outside the list the code takes as transient; every other event is handled.
\<close>

theorem event_outcome:
  assumes "reach sl_start sl_step s" and "lp_pc (sl_loop s) = Handling" and "sl_active s = p # ps"
    and "answers_ok io p s"
  shows "if next_frees io s then sl_do (Sl_Handle io) s = Some (Inl Use_After_Free)
    else if next_aborts io s then sl_do (Sl_Handle io) s = Some (Inl Aborted)
    else \<exists>s'. sl_do (Sl_Handle io) s = Some (Inr s')"
  by (rule handle_outcome [OF sls.reach_inv [OF assms(1)] assms(2-4)])

theorem event_outcome_witness:
  "sl_do (Sl_Handle (nothing_ready\<lparr>io_accept := Sys_Err 22\<rparr>)) ex_waiting = Some (Inl Aborted)"
proof -
  let ?io = "nothing_ready\<lparr>io_accept := Sys_Err 22\<rparr>"
  have w: "lp_pc (sl_loop ex_waiting) = Handling" "sl_active ex_waiting = [101]"
    by (simp_all add: ex_waiting_run)
  have k: "answers_ok ?io 101 ex_waiting" using nothing_ready_ok [of 101 ex_waiting] by (simp add: answers_ok_def)
  have "\<not> next_frees ?io ex_waiting" "next_aborts ?io ex_waiting"
    by (simp_all add: next_frees_def next_aborts_def ex_waiting_run ex_tests accept_transient_def)
      (simp add: EAGAIN_def ECONNABORTED_def EINTR_def EPROTO_def EPERM_def EMFILE_def)
  with event_outcome [OF ex_waiting_reach w k] show ?thesis by (simp only: if_True if_False)
qed

end
