(* ===== verification/Async_Logging.thy ===== *)
theory Async_Logging
  imports Log_Stream
begin

text \<open>
  \<open>base/AsyncLogging.h\<close> and \<open>base/AsyncLogging.cpp\<close>: front threads append to a front
  buffer under a mutex; the backend thread swaps the full buffers out, writes them and
  recycles two of them. A \<open>unique_ptr\<close> is an option, and dereferencing a null one is a
  fault. The critical sections are atomic steps; the backend's position between them is
  \<open>backend\<close>. The file can fail: what \<open>fopen\<close> answers is an argument of \<open>async_start\<close> and
  what the \<open>fwrite\<close> calls answer is one of every step of the backend.
\<close>

section \<open>Definitions\<close>

subsection \<open>Writing to the file\<close>

text \<open>
  The \<open>FILE *\<close> is an option: \<open>None\<close> is the null pointer of a failed \<open>fopen\<close>, which no one
  tests, and \<open>Some f\<close> an open stream to which the characters \<open>f\<close> were added. \<open>answers\<close> lists
  what the successive \<open>fwrite\<close> calls return up to the last one that is not complete; the
  calls after it are complete, so \<open>[]\<close> says that all are. The unused answers are returned
  for the next buffer. As in the source, \<open>msg\<close> is not advanced after a short write, and a
  call that writes nothing ends the loop.
\<close>

fun fwriten :: "nat list \<Rightarrow> string option \<Rightarrow> string \<Rightarrow> nat \<Rightarrow> (nat list \<times> string option) outcome" where
  "fwriten answers None msg remain = (if remain = 0 then Inr (answers, None) else Inl Null_Dereference)"
| "fwriten [] (Some f) msg remain = Inr ([], Some (f @ take remain msg))"
| "fwriten (wn # answers) (Some f) msg remain =
     (if remain = 0 then Inr (wn # answers, Some f)
      else if wn = 0 then Inr (answers, Some f)
      else fwriten answers (Some (f @ take (min wn remain) msg)) msg (remain - wn))"

subsection \<open>State\<close>

datatype backend_pc = At_Loop | Waiting | Writing | Finished

record async_state =
  isRuning :: bool
  has_thread :: bool
  frontBuffer :: "fixed_buffer option"
  frontBufferBk :: "fixed_buffer option"
  buffers :: "fixed_buffer option list"
  backend :: backend_pc
  buffer1 :: "fixed_buffer option"
  buffer2 :: "fixed_buffer option"
  toWrite :: "fixed_buffer option list"
  log_file :: "string option"

text \<open>
  \<open>mem\<close> is the memory a \<open>new Buffer\<close> gets; its length is the template argument
  1000 * 4000.
\<close>

definition async_ctor :: "string \<Rightarrow> async_state" where
  "async_ctor mem =
     \<lparr>isRuning = True, has_thread = False,
      frontBuffer = Some (bZero (new_fixed_buffer mem)),
      frontBufferBk = Some (bZero (new_fixed_buffer mem)),
      buffers = [], backend = Finished, buffer1 = None, buffer2 = None, toWrite = [],
      log_file = None\<rparr>"

text \<open>
  The locals of \<open>run\<close>, the stream among them: \<open>opened\<close> says whether \<open>fopen\<close> succeeded. The
  thread goes on in either case. \<open>start\<close> creates the thread and waits until they are set up.
\<close>

definition run_locals :: "string \<Rightarrow> bool \<Rightarrow> async_state \<Rightarrow> async_state" where
  "run_locals mem opened s =
     s\<lparr>backend := At_Loop, buffer1 := Some (bZero (new_fixed_buffer mem)),
       buffer2 := Some (bZero (new_fixed_buffer mem)), toWrite := [],
       log_file := (if opened then Some '''' else None)\<rparr>"

definition async_start :: "string \<Rightarrow> bool \<Rightarrow> async_state \<Rightarrow> async_state" where
  "async_start mem opened s = run_locals mem opened (s\<lparr>isRuning := True, has_thread := True\<rparr>)"

subsection \<open>Front side\<close>

definition async_append :: "string \<Rightarrow> async_state \<Rightarrow> string \<Rightarrow> async_state outcome" where
  "async_append mem s msg =
     (case frontBuffer s of
        None \<Rightarrow> Inl Null_Dereference
      | Some fb \<Rightarrow>
          if rest fb > int (length msg) then
            bind_ok (fb_put fb msg) (\<lambda>fb'. Inr (s\<lparr>frontBuffer := Some fb'\<rparr>))
          else
            (let fresh = (case frontBufferBk s of Some bk \<Rightarrow> bk | None \<Rightarrow> new_fixed_buffer mem) in
             bind_ok (fb_put fresh msg) (\<lambda>fb'.
               Inr (s\<lparr>buffers := buffers s @ [Some fb], frontBuffer := Some fb',
                      frontBufferBk := None\<rparr>))))"

subsection \<open>Backend thread\<close>

text \<open>The rest of the critical section after the optional timed wait.\<close>

definition swap_out :: "async_state \<Rightarrow> async_state" where
  "swap_out s =
     (let s1 = s\<lparr>buffers := toWrite s, toWrite := buffers s @ [frontBuffer s],
                 frontBuffer := buffer1 s, buffer1 := None\<rparr>
      in if frontBufferBk s1 = None
         then s1\<lparr>frontBufferBk := buffer2 s1, buffer2 := None\<rparr> else s1)"

fun write_buffers :: "nat list \<Rightarrow> string option \<Rightarrow> fixed_buffer option list \<Rightarrow> string option outcome" where
  "write_buffers answers file [] = Inr file"
| "write_buffers answers file (None # bs) = Inl Null_Dereference"
| "write_buffers answers file (Some b # bs) =
     bind_ok (fwriten answers file (fb_buf b) (fb_cur b))
       (\<lambda>(answers', file'). write_buffers answers' file' bs)"

text \<open>Taking the last element of \<open>toWrite\<close> as a cleared buffer.\<close>

definition take_back :: "fixed_buffer option list \<Rightarrow> (fixed_buffer option \<times> fixed_buffer option list) outcome" where
  "take_back bs =
     (if bs = [] then Inl Empty_Container
      else case last bs of
             None \<Rightarrow> Inl Null_Dereference
           | Some b \<Rightarrow> Inr (Some (clear b), butlast bs))"

definition recycle :: "async_state \<Rightarrow> async_state outcome" where
  "recycle s =
     (let tw = (if length (toWrite s) > 2 then take 2 (toWrite s) else toWrite s) in
      bind_ok (if buffer1 s = None then take_back tw else Inr (buffer1 s, tw)) (\<lambda>(b1, tw1).
      bind_ok (if buffer2 s = None then take_back tw1 else Inr (buffer2 s, tw1)) (\<lambda>(b2, tw2).
        Inr (s\<lparr>buffer1 := b1, buffer2 := b2, toWrite := []\<rparr>))))"

text \<open>
  The round ends with \<open>fflush(file)\<close>, whose result is ignored; on a null pointer it is
  defined (it flushes all streams), so it is not a fault.
\<close>

definition write_and_recycle :: "nat list \<Rightarrow> async_state \<Rightarrow> async_state outcome" where
  "write_and_recycle answers s =
     bind_ok (write_buffers answers (log_file s) (toWrite s)) (\<lambda>f. recycle (s\<lparr>log_file := f\<rparr>))"

text \<open>
  One step of the thread running \<open>run\<close>, by where it stands; \<open>answers\<close> is used by the step
  that writes.
\<close>

definition run_step :: "nat list \<Rightarrow> async_state \<Rightarrow> async_state outcome" where
  "run_step answers s =
     (case backend s of
        At_Loop \<Rightarrow>
          if \<not> isRuning s then Inr (s\<lparr>backend := Finished\<rparr>)
          else if buffers s = [] then Inr (s\<lparr>backend := Waiting\<rparr>)
          else Inr ((swap_out s)\<lparr>backend := Writing\<rparr>)
      | Waiting \<Rightarrow> Inr ((swap_out s)\<lparr>backend := Writing\<rparr>)
      | Writing \<Rightarrow> bind_ok (write_and_recycle answers s) (\<lambda>s1. Inr (s1\<lparr>backend := At_Loop\<rparr>))
      | Finished \<Rightarrow> Inr s)"

subsection \<open>Destruction\<close>

text \<open>
  The destructor up to the wait in \<open>join\<close>, which dereferences \<open>_thread\<close>.
\<close>

definition async_dtor :: "async_state \<Rightarrow> async_state outcome" where
  "async_dtor s =
     (if isRuning s then
        (if has_thread s then Inr (s\<lparr>isRuning := False\<rparr>) else Inl Null_Dereference)
      else Inr s)"

subsection \<open>The system\<close>

text \<open>
  Front threads, the backend and the destructor interleave. The history says what went
  through the logger: \<open>ah_text\<close> is the text of all messages appended so far that fit an
  empty buffer (a longer one is dropped by \<open>FixedBuffer::append\<close>), \<open>ah_given\<close> that of all
  buffers given to \<open>fwriten\<close>, and \<open>ah_whole\<close> that every \<open>fwrite\<close> was complete.
\<close>

definition accepted :: "string \<Rightarrow> string \<Rightarrow> string" where
  "accepted mem msg = (if length msg < length mem then spaced msg else [])"

fun ptr_text :: "fixed_buffer option \<Rightarrow> string" where
  "ptr_text None = []"
| "ptr_text (Some b) = fb_text b"

definition texts :: "fixed_buffer option list \<Rightarrow> string" where
  "texts bs = concat (map ptr_text bs)"

record async_history =
  ah_text :: string
  ah_given :: string
  ah_whole :: bool

definition log_appended :: "string \<Rightarrow> string \<Rightarrow> async_history \<Rightarrow> async_history" where
  "log_appended mem msg g = g\<lparr>ah_text := ah_text g @ accepted mem msg\<rparr>"

definition log_round :: "nat list \<Rightarrow> async_state \<Rightarrow> async_history \<Rightarrow> async_history" where
  "log_round answers s g =
     (if backend s = Writing
      then g\<lparr>ah_given := ah_given g @ texts (toWrite s), ah_whole := (ah_whole g \<and> answers = [])\<rparr>
      else g)"

inductive async_step :: "string \<Rightarrow> async_state \<times> async_history \<Rightarrow> async_state \<times> async_history \<Rightarrow> bool"
  for mem :: string where
  front_append: "async_append mem s msg = Inr s' \<Longrightarrow> async_step mem (s, g) (s', log_appended mem msg g)"
| backend_run: "run_step answers s = Inr s' \<Longrightarrow> async_step mem (s, g) (s', log_round answers s g)"
| destroy: "async_dtor s = Inr s' \<Longrightarrow> async_step mem (s, g) (s', g)"

inductive_cases async_step_cases: "async_step mem (s, g) (s', g')"

definition no_history :: async_history where
  "no_history = \<lparr>ah_text = '''', ah_given = '''', ah_whole = True\<rparr>"

definition async_init :: "string \<Rightarrow> async_state \<times> async_history \<Rightarrow> bool" where
  "async_init mem x \<longleftrightarrow> (\<exists>opened. x = (async_start mem opened (async_ctor mem), no_history))"

abbreviation async_reach :: "string \<Rightarrow> async_state \<Rightarrow> async_history \<Rightarrow> bool" where
  "async_reach mem s g \<equiv> reach (async_init mem) (async_step mem) (s, g)"

text \<open>Several messages, one after the other.\<close>

fun async_appends :: "string \<Rightarrow> async_state \<Rightarrow> string list \<Rightarrow> async_state outcome" where
  "async_appends mem s [] = Inr s"
| "async_appends mem s (msg # msgs) = bind_ok (async_append mem s msg) (\<lambda>s'. async_appends mem s' msgs)"

section \<open>Lemmas\<close>

subsection \<open>Well-formed buffers\<close>

definition buf_ok :: "string \<Rightarrow> fixed_buffer \<Rightarrow> bool" where
  "buf_ok mem b \<longleftrightarrow> fb_inv b \<and> length (fb_buf b) = length mem"

definition ptr_ok :: "string \<Rightarrow> fixed_buffer option \<Rightarrow> bool" where
  "ptr_ok mem p \<longleftrightarrow> (\<exists>b. p = Some b \<and> buf_ok mem b)"

definition ptr_empty :: "string \<Rightarrow> fixed_buffer option \<Rightarrow> bool" where
  "ptr_empty mem p \<longleftrightarrow> (\<exists>b. p = Some b \<and> buf_ok mem b \<and> fb_text b = [])"

lemma texts_simps [simp]:
  "texts [] = []" "texts (p # bs) = ptr_text p @ texts bs" "texts (xs @ ys) = texts xs @ texts ys"
  by (simp_all add: texts_def)

lemma ptr_empty_ok: "ptr_empty mem p \<Longrightarrow> ptr_ok mem p"
  by (auto simp: ptr_empty_def ptr_ok_def)

lemma ptr_empty_text [simp]: "ptr_empty mem p \<Longrightarrow> ptr_text p = []"
  by (auto simp: ptr_empty_def)

lemma not_ok_None [simp]: "\<not> ptr_ok mem None" "\<not> ptr_empty mem None"
  by (simp_all add: ptr_ok_def ptr_empty_def)

lemma fresh_empty [simp]:
  "ptr_empty mem (Some (new_fixed_buffer mem))" "ptr_empty mem (Some (bZero (new_fixed_buffer mem)))"
  by (simp_all add: ptr_empty_def buf_ok_def fb_inv_def new_fixed_buffer_def fb_text_def bZero_def)

lemma fresh_text: "fb_text (bZero (new_fixed_buffer mem)) = []"
  by (simp add: new_fixed_buffer_def fb_text_def bZero_def)

lemma clear_empty [simp]: "buf_ok mem b \<Longrightarrow> ptr_empty mem (Some (clear b))"
  by (simp add: ptr_empty_def buf_ok_def fb_inv_def clear_def fb_text_def)

text \<open>A put on a well-formed buffer, by the contract of the text sink.\<close>

lemma put_room:
  assumes "buf_ok mem b" and "rest b > int (length msg)"
  obtains b' where "fb_put b msg = Inr b'" and "buf_ok mem b'" and "fb_text b' = fb_text b @ spaced msg"
proof -
  have "length (fb_text b) + length msg < length (fb_buf b)"
    using assms by (simp add: buf_ok_def rest_def)
  then show ?thesis
    using assms(1) fb.put_fits [of b msg] that by (auto simp: buf_ok_def)
qed

lemma put_empty:
  assumes "ptr_empty mem (Some b)"
  obtains b' where "fb_put b msg = Inr b'" and "buf_ok mem b'" and "fb_text b' = accepted mem msg"
proof (cases "length msg < length mem")
  case True
  with assms have "rest b > int (length msg)"
    using rest_text [of b] by (simp add: ptr_empty_def buf_ok_def)
  with assms put_room [of mem b msg] True that show ?thesis
    by (auto simp: ptr_empty_def accepted_def)
next
  case False
  with assms fb.put_full [of b msg] that show ?thesis
    by (auto simp: ptr_empty_def accepted_def buf_ok_def)
qed


subsection \<open>Invariant\<close>

text \<open>
  The pointers the code dereferences are never null: outside the writing phase the backend
  owns two empty spare buffers; during it the swapped-out list is long enough to refill the
  spares it gave away; and the front's spare is missing only while a full buffer is queued.
  What was given to \<open>fwriten\<close>, the list being written, the queue and the front buffer together
  are the messages in order, and the file holds what was given as far as \<open>fwrite\<close> was
  complete.
\<close>

definition spare_ok :: "string \<Rightarrow> async_state \<Rightarrow> bool" where
  "spare_ok mem s \<longleftrightarrow>
     (if backend s = Writing
      then buffer1 s = None \<and> toWrite s \<noteq> []
        \<and> (buffer2 s = None \<and> 2 \<le> length (toWrite s) \<or> ptr_empty mem (buffer2 s))
      else toWrite s = [] \<and> ptr_empty mem (buffer1 s) \<and> ptr_empty mem (buffer2 s))"

definition front_ok :: "string \<Rightarrow> async_state \<Rightarrow> bool" where
  "front_ok mem s \<longleftrightarrow> has_thread s \<and> ptr_ok mem (frontBuffer s)
     \<and> (\<forall>p \<in> set (buffers s @ toWrite s). ptr_ok mem p)
     \<and> (frontBufferBk s = None \<and> buffers s \<noteq> [] \<or> ptr_empty mem (frontBufferBk s))"

definition async_contents :: "async_state \<Rightarrow> string" where
  "async_contents s = texts (toWrite s) @ texts (buffers s) @ ptr_text (frontBuffer s)"

definition file_ok :: "async_state \<Rightarrow> async_history \<Rightarrow> bool" where
  "file_ok s g \<longleftrightarrow>
     (case log_file s of
        None \<Rightarrow> ah_given g = []
      | Some f \<Rightarrow> length f \<le> length (ah_given g) \<and> (ah_whole g \<longrightarrow> f = ah_given g))"

definition async_inv :: "string \<Rightarrow> async_state \<times> async_history \<Rightarrow> bool" where
  "async_inv mem x \<longleftrightarrow>
     (case x of (s, g) \<Rightarrow> front_ok mem s \<and> spare_ok mem s
        \<and> ah_given g @ async_contents s = ah_text g \<and> file_ok s g)"

lemma async_append_ok:
  assumes "async_inv mem (s, g)"
  obtains s' where "async_append mem s msg = Inr s'" and "async_inv mem (s', log_appended mem msg g)"
    and "backend s' = backend s" and "toWrite s' = toWrite s" and "log_file s' = log_file s"
proof -
  from assms obtain fb where fb: "frontBuffer s = Some fb" "buf_ok mem fb"
    by (auto simp: async_inv_def front_ok_def ptr_ok_def)
  show ?thesis
  proof (cases "rest fb > int (length msg)")
    case True
    with fb(2) obtain fb' where fb': "fb_put fb msg = Inr fb'" "buf_ok mem fb'"
        "fb_text fb' = fb_text fb @ spaced msg"
      by (rule put_room)
    have "length msg < length mem"
      using True fb(2) by (simp add: buf_ok_def rest_def)
    with True fb fb' assms show ?thesis
      by (intro that [of "s\<lparr>frontBuffer := Some fb'\<rparr>"])
        (auto simp: async_append_def async_inv_def front_ok_def spare_ok_def async_contents_def
          file_ok_def ptr_ok_def accepted_def log_appended_def split: option.splits)
  next
    case False
    let ?fresh = "case frontBufferBk s of Some bk \<Rightarrow> bk | None \<Rightarrow> new_fixed_buffer mem"
    have "ptr_empty mem (Some ?fresh)"
      using assms by (cases "frontBufferBk s") (auto simp: async_inv_def front_ok_def)
    then obtain fb' where fb': "fb_put ?fresh msg = Inr fb'" "buf_ok mem fb'"
        "fb_text fb' = accepted mem msg"
      by (rule put_empty)
    with False fb assms show ?thesis
      by (intro that [of "s\<lparr>buffers := buffers s @ [Some fb], frontBuffer := Some fb',
            frontBufferBk := None\<rparr>"])
        (auto simp: async_append_def Let_def async_inv_def front_ok_def spare_ok_def
          async_contents_def file_ok_def ptr_ok_def log_appended_def split: option.splits)
  qed
qed

lemma swap_out_ok:
  assumes "async_inv mem (s, g)" and "backend s \<noteq> Writing"
  shows "async_inv mem ((swap_out s)\<lparr>backend := Writing\<rparr>, g)"
proof (cases "frontBufferBk s = None")
  case True
  with assms have "1 \<le> length (buffers s)"
    by (cases "buffers s") (auto simp: async_inv_def front_ok_def)
  with True assms show ?thesis
    by (auto simp: async_inv_def front_ok_def spare_ok_def async_contents_def file_ok_def swap_out_def
        Let_def intro: ptr_empty_ok)
next
  case False
  with assms show ?thesis
    by (auto simp: async_inv_def front_ok_def spare_ok_def async_contents_def file_ok_def swap_out_def
        Let_def intro: ptr_empty_ok)
qed

text \<open>
  What \<open>fwriten\<close> adds to an open stream: the whole buffer when every call is complete, and
  never more characters than the buffer has. Without a stream only an empty buffer passes.
\<close>

lemma fwriten_open:
  "\<exists>answers' u. fwriten answers (Some f) msg n = Inr (answers', Some (f @ u)) \<and> length u \<le> n
    \<and> (answers = [] \<longrightarrow> answers' = [] \<and> u = take n msg)"
proof (induction answers arbitrary: f n)
  case (Cons wn answers)
  have "\<exists>answers' u. fwriten answers (Some (f @ take (min wn n) msg)) msg (n - wn)
      = Inr (answers', Some ((f @ take (min wn n) msg) @ u)) \<and> length u \<le> n - wn"
    using Cons by blast
  then obtain answers' u where "fwriten answers (Some (f @ take (min wn n) msg)) msg (n - wn)
      = Inr (answers', Some ((f @ take (min wn n) msg) @ u))" "length u \<le> n - wn" by blast
  then show ?case by (cases "n = 0 \<or> wn = 0") (auto simp: min_def)
qed simp

lemma write_buffers_open:
  assumes "\<forall>p \<in> set bs. ptr_ok mem p"
  shows "\<exists>u. write_buffers answers (Some f) bs = Inr (Some (f @ u)) \<and> length u \<le> length (texts bs)
    \<and> (answers = [] \<longrightarrow> u = texts bs)"
  using assms
proof (induction bs arbitrary: answers f)
  case (Cons p bs)
  from Cons.prems obtain b where p: "p = Some b" "fb_inv b" by (auto simp: ptr_ok_def buf_ok_def)
  obtain answers' u where w: "fwriten answers (Some f) (fb_buf b) (fb_cur b) = Inr (answers', Some (f @ u))"
      "length u \<le> fb_cur b" "answers = [] \<longrightarrow> answers' = [] \<and> u = fb_text b"
    using fwriten_open [of answers f "fb_buf b" "fb_cur b"] by (auto simp: fb_text_def)
  obtain v where "write_buffers answers' (Some (f @ u)) bs = Inr (Some ((f @ u) @ v))"
      "length v \<le> length (texts bs)" "answers' = [] \<longrightarrow> v = texts bs"
    using Cons.IH [of answers' "f @ u"] Cons.prems by auto
  with w p show ?case by (intro exI [of _ "u @ v"]) auto
qed simp

lemma write_buffers_null:
  "\<forall>p \<in> set bs. ptr_ok mem p \<Longrightarrow>
    write_buffers answers None bs = (if texts bs = [] then Inr None else Inl Null_Dereference)"
proof (induction bs)
  case (Cons p bs)
  then obtain b where "p = Some b" "fb_inv b" by (auto simp: ptr_ok_def buf_ok_def)
  moreover from this have "fb_text b = [] \<longleftrightarrow> fb_cur b = 0"
    using length_fb_text [of b] by (metis length_0_conv)
  ultimately show ?case using Cons by simp
qed simp

lemma take_back_ok:
  "bs \<noteq> [] \<Longrightarrow> \<forall>p \<in> set bs. ptr_ok mem p \<Longrightarrow>
    \<exists>b. take_back bs = Inr (b, butlast bs) \<and> ptr_empty mem b"
  using last_in_set [of bs] by (fastforce simp: take_back_def ptr_ok_def)

lemma recycle_ok:
  assumes "spare_ok mem s" and "backend s = Writing" and "\<forall>p \<in> set (toWrite s). ptr_ok mem p"
  obtains p q where "recycle s = Inr (s\<lparr>buffer1 := p, buffer2 := q, toWrite := []\<rparr>)"
    and "ptr_empty mem p" and "ptr_empty mem q"
proof -
  define tw where "tw = (if length (toWrite s) > 2 then take 2 (toWrite s) else toWrite s)"
  have tw: "tw \<noteq> []" "\<forall>p \<in> set tw. ptr_ok mem p" "2 \<le> length (toWrite s) \<Longrightarrow> length tw = 2"
    using assms by (auto simp: tw_def spare_ok_def dest: in_set_takeD)
  obtain b1 where b1: "take_back tw = Inr (b1, butlast tw)" "ptr_empty mem b1"
    using take_back_ok [OF tw(1,2)] by blast
  have none1: "buffer1 s = None" using assms(1,2) by (simp add: spare_ok_def)
  show ?thesis
  proof (cases "buffer2 s")
    case None
    with assms have "length tw = 2" by (intro tw(3)) (auto simp: spare_ok_def)
    then have ne: "butlast tw \<noteq> []"
      by (auto simp: length_Suc_conv numeral_2_eq_2)
    have "\<forall>p \<in> set (butlast tw). ptr_ok mem p" using tw(2) by (auto dest: in_set_butlastD)
    then obtain b2 where "take_back (butlast tw) = Inr (b2, butlast (butlast tw))" "ptr_empty mem b2"
      using take_back_ok [OF ne] by blast
    with b1 none1 None show ?thesis
      by (intro that [where p = b1 and q = b2]) (simp_all add: recycle_def tw_def [symmetric])
  next
    case (Some b2)
    with assms have "ptr_empty mem (Some b2)" by (simp add: spare_ok_def)
    with b1 none1 Some show ?thesis
      by (intro that [where p = b1 and q = "Some b2"]) (simp_all add: recycle_def tw_def [symmetric])
  qed
qed

text \<open>The two cases in which the writing step of the backend succeeds, and the one in which it does not.\<close>

definition no_stream :: "async_state \<Rightarrow> bool" where
  "no_stream s \<longleftrightarrow> backend s = Writing \<and> log_file s = None \<and> texts (toWrite s) \<noteq> []"

lemma writing_recycles:
  assumes "async_inv mem (s, g)" and "backend s = Writing"
    and "write_buffers answers (log_file s) (toWrite s) = Inr f"
  obtains p q where "write_and_recycle answers s
      = Inr (s\<lparr>log_file := f, buffer1 := p, buffer2 := q, toWrite := []\<rparr>)"
    and "ptr_empty mem p" and "ptr_empty mem q"
proof -
  let ?s = "s\<lparr>log_file := f\<rparr>"
  have "spare_ok mem ?s" "backend ?s = Writing" "\<forall>p \<in> set (toWrite ?s). ptr_ok mem p"
    using assms by (auto simp: async_inv_def front_ok_def spare_ok_def)
  then obtain b1 b2 where "recycle ?s = Inr (?s\<lparr>buffer1 := b1, buffer2 := b2, toWrite := []\<rparr>)"
      "ptr_empty mem b1" "ptr_empty mem b2"
    by (rule recycle_ok)
  with assms(3) that show ?thesis by (simp add: write_and_recycle_def)
qed

lemma write_and_recycle_ok:
  assumes "async_inv mem (s, g)" and "backend s = Writing" and "\<not> no_stream s"
  obtains s' where "write_and_recycle answers s = Inr s'"
    and "async_inv mem (s'\<lparr>backend := At_Loop\<rparr>, log_round answers s g)"
    and "answers = [] \<Longrightarrow> log_file s' = map_option (\<lambda>f. f @ texts (toWrite s)) (log_file s)"
proof -
  have ok: "\<forall>p \<in> set (toWrite s). ptr_ok mem p"
    using assms(1) by (auto simp: async_inv_def front_ok_def)
  obtain f' where w: "write_buffers answers (log_file s) (toWrite s) = Inr f'"
    and f': "file_ok (s\<lparr>log_file := f'\<rparr>) (log_round answers s g)"
      "answers = [] \<Longrightarrow> f' = map_option (\<lambda>f. f @ texts (toWrite s)) (log_file s)"
  proof (cases "log_file s")
    case None
    with assms have "texts (toWrite s) = []" by (simp add: no_stream_def)
    with None assms(1,2) write_buffers_null [OF ok] that [of None] show ?thesis
      by (simp add: file_ok_def log_round_def async_inv_def)
  next
    case (Some f)
    from write_buffers_open [OF ok, of answers f] obtain u
      where "write_buffers answers (Some f) (toWrite s) = Inr (Some (f @ u))"
        "length u \<le> length (texts (toWrite s))" "answers = [] \<longrightarrow> u = texts (toWrite s)" by blast
    with Some assms(1,2) that [of "Some (f @ u)"] show ?thesis
      by (simp add: file_ok_def log_round_def async_inv_def)
  qed
  obtain p q where "write_and_recycle answers s
      = Inr (s\<lparr>log_file := f', buffer1 := p, buffer2 := q, toWrite := []\<rparr>)"
      "ptr_empty mem p" "ptr_empty mem q"
    by (rule writing_recycles [OF assms(1,2) w])
  with assms(1,2) f' show ?thesis
    by (intro that [of "s\<lparr>log_file := f', buffer1 := p, buffer2 := q, toWrite := []\<rparr>"])
      (auto simp: async_inv_def front_ok_def spare_ok_def async_contents_def file_ok_def log_round_def)
qed

lemma write_and_recycle_null:
  assumes "async_inv mem (s, g)" and "no_stream s"
  shows "write_and_recycle answers s = Inl Null_Dereference"
proof -
  have "\<forall>p \<in> set (toWrite s). ptr_ok mem p" using assms(1) by (auto simp: async_inv_def front_ok_def)
  with assms(2) write_buffers_null show ?thesis by (simp add: write_and_recycle_def no_stream_def)
qed

lemma run_step_ok:
  assumes "async_inv mem (s, g)" and "\<not> no_stream s"
  obtains s' where "run_step answers s = Inr s'" and "async_inv mem (s', log_round answers s g)"
proof (cases "backend s")
  case At_Loop
  have "async_inv mem (s\<lparr>backend := pc\<rparr>, g)" if "pc \<noteq> Writing" for pc
    using assms At_Loop that
    by (auto simp: async_inv_def front_ok_def spare_ok_def async_contents_def file_ok_def)
  note idle = this
  have "async_inv mem ((swap_out s)\<lparr>backend := Writing\<rparr>, g)"
    using assms At_Loop by (simp add: swap_out_ok)
  with At_Loop that idle [of Finished] idle [of Waiting] show ?thesis
    by (cases "isRuning s"; cases "buffers s = []") (simp_all add: run_step_def log_round_def)
next
  case Waiting
  with assms swap_out_ok [OF assms(1)] that show ?thesis by (auto simp: run_step_def log_round_def)
next
  case Writing
  obtain s' where "write_and_recycle answers s = Inr s'"
      "async_inv mem (s'\<lparr>backend := At_Loop\<rparr>, log_round answers s g)"
    by (rule write_and_recycle_ok [OF assms(1) Writing assms(2)])
  with Writing show ?thesis
    by (intro that [of "s'\<lparr>backend := At_Loop\<rparr>"]) (simp_all add: run_step_def)
next
  case Finished
  with assms that show ?thesis by (auto simp: run_step_def log_round_def)
qed

lemma run_step_null:
  "async_inv mem (s, g) \<Longrightarrow> no_stream s \<Longrightarrow> run_step answers s = Inl Null_Dereference"
  using write_and_recycle_null [of mem s g answers] by (simp add: run_step_def no_stream_def)

lemma run_step_Inr_ok:
  assumes "async_inv mem (s, g)" and "run_step answers s = Inr s'"
  shows "async_inv mem (s', log_round answers s g)"
proof -
  have "\<not> no_stream s" using run_step_null [OF assms(1), of answers] assms(2) by auto
  with assms show ?thesis by (auto elim: run_step_ok [of mem s g answers])
qed

lemma async_dtor_ok:
  assumes "async_inv mem (s, g)"
  obtains s' where "async_dtor s = Inr s'" and "async_inv mem (s', g)"
proof -
  have "async_inv mem (s\<lparr>isRuning := False\<rparr>, g)"
    using assms by (simp add: async_inv_def front_ok_def spare_ok_def async_contents_def file_ok_def)
  moreover have "has_thread s"
    using assms by (simp add: async_inv_def front_ok_def)
  ultimately show ?thesis
    using assms that by (cases "isRuning s") (auto simp: async_dtor_def)
qed

lemma async_appends_ok:
  assumes "async_inv mem (s, g)"
  shows "\<exists>s' g'. async_appends mem s msgs = Inr s' \<and> async_inv mem (s', g') \<and> backend s' = backend s
    \<and> toWrite s' = toWrite s \<and> log_file s' = log_file s"
  using assms
proof (induction msgs arbitrary: s g)
  case (Cons msg msgs)
  obtain s1 where "async_append mem s msg = Inr s1" "async_inv mem (s1, log_appended mem msg g)"
      "backend s1 = backend s" "toWrite s1 = toWrite s" "log_file s1 = log_file s"
    by (rule async_append_ok [OF Cons.prems])
  with Cons.IH [OF this(2)] show ?case by simp
qed auto

text \<open>
  From the timed wait, the next two steps write everything that was in the buffers, whatever
  is appended between them.
\<close>

lemma async_drain_steps:
  assumes inv: "async_inv mem (s, g)" and "backend s = Waiting" and "log_file s = Some f"
  shows "\<exists>s1. run_step answers s = Inr s1 \<and> (\<forall>msgs. \<exists>s1' s2. async_appends mem s1 msgs = Inr s1'
    \<and> run_step [] s1' = Inr s2 \<and> backend s2 = At_Loop
    \<and> log_file s2 = Some (f @ texts (buffers s) @ ptr_text (frontBuffer s)))"
proof -
  let ?s1 = "(swap_out s)\<lparr>backend := Writing\<rparr>"
  have inv1: "async_inv mem (?s1, g)" using inv assms(2) by (simp add: swap_out_ok)
  have s1: "log_file ?s1 = Some f" "texts (toWrite ?s1) = texts (buffers s) @ ptr_text (frontBuffer s)"
    using assms(3) by (simp_all add: swap_out_def Let_def)
  have "\<exists>s1' s2. async_appends mem ?s1 msgs = Inr s1' \<and> run_step [] s1' = Inr s2 \<and> backend s2 = At_Loop
    \<and> log_file s2 = Some (f @ texts (buffers s) @ ptr_text (frontBuffer s))" for msgs
  proof -
    obtain s1' g' where s1': "async_appends mem ?s1 msgs = Inr s1'" "async_inv mem (s1', g')"
        "backend s1' = Writing" "toWrite s1' = toWrite ?s1" "log_file s1' = log_file ?s1"
      using async_appends_ok [OF inv1, of msgs] by auto
    have "\<not> no_stream s1'" using s1' s1 by (simp add: no_stream_def)
    then obtain s2 where "write_and_recycle [] s1' = Inr s2"
        "log_file s2 = map_option (\<lambda>f. f @ texts (toWrite s1')) (log_file s1')"
      by (rule write_and_recycle_ok [OF s1'(2,3), of "[]"]) simp_all
    with s1 s1' show ?thesis
      by (intro exI [of _ s1'] exI [of _ "s2\<lparr>backend := At_Loop\<rparr>"]) (simp add: run_step_def)
  qed
  with assms(2) show ?thesis by (intro exI [of _ ?s1]) (simp add: run_step_def)
qed

lemma buffers_written:
  "async_inv mem (s, g) \<Longrightarrow> backend s = Waiting \<Longrightarrow> log_file s = Some f \<Longrightarrow> ah_whole g \<Longrightarrow>
    f @ texts (buffers s) @ ptr_text (frontBuffer s) = ah_text g"
  by (auto simp: async_inv_def async_contents_def file_ok_def spare_ok_def)

text \<open>The invariant holds in every reachable state.\<close>

interpretation async: state_invariant "async_init mem" "async_step mem" "async_inv mem"
proof unfold_locales
  fix x
  assume "async_init mem x"
  then show "async_inv mem x"
    by (auto simp: async_init_def async_inv_def front_ok_def spare_ok_def async_contents_def file_ok_def
        async_start_def run_locals_def async_ctor_def no_history_def ptr_empty_ok [OF fresh_empty(2)] fresh_text)
next
  fix x y
  assume step: "async_step mem x y" and inv: "async_inv mem x"
  from step show "async_inv mem y"
  proof cases
    case (front_append s msg s' g)
    with inv show ?thesis by (auto elim: async_append_ok [of mem s g msg])
  next
    case (backend_run answers s s' g)
    with inv show ?thesis by (simp add: run_step_Inr_ok)
  next
    case (destroy s s' g)
    with inv show ?thesis by (auto elim: async_dtor_ok [of mem s g])
  qed
qed

section \<open>Properties\<close>

subsection \<open>Reaching states\<close>

lemma async_reach_start: "async_reach mem (async_start mem opened (async_ctor mem)) no_history"
  by (rule reach_start) (auto simp: async_init_def)

lemma reach_append:
  assumes "async_reach mem s g"
  obtains s' where "async_append mem s msg = Inr s'" and "async_reach mem s' (log_appended mem msg g)"
    and "log_file s' = log_file s" and "backend s' = backend s"
proof -
  have "async_inv mem (s, g)" using assms by (rule async.reach_inv)
  then obtain s' where "async_append mem s msg = Inr s'" "log_file s' = log_file s" "backend s' = backend s"
    by (rule async_append_ok)
  with assms that show ?thesis by (blast intro: reach_step front_append)
qed

lemma reach_run:
  "async_reach mem s g \<Longrightarrow> run_step answers s = Inr s' \<Longrightarrow> async_reach mem s' (log_round answers s g)"
  by (blast intro: reach_step backend_run)

text \<open>Started, one message appended, and the backend in its wait.\<close>

definition ex_logger :: "bool \<Rightarrow> async_state" where
  "ex_logger opened =
     (case async_append (replicate 8 NUL)
             (async_start (replicate 8 NUL) opened (async_ctor (replicate 8 NUL))) ''ab'' of
        Inl e \<Rightarrow> async_ctor []
      | Inr s \<Rightarrow> s\<lparr>backend := Waiting\<rparr>)"

definition ex_history :: async_history where
  "ex_history = \<lparr>ah_text = ''ab '', ah_given = '''', ah_whole = True\<rparr>"

lemma ex_logger_append:
  "async_append (replicate 8 NUL)
     (async_start (replicate 8 NUL) opened (async_ctor (replicate 8 NUL))) ''ab''
   = Inr ((ex_logger opened)\<lparr>backend := At_Loop\<rparr>)"
  by (cases opened) code_simp+

lemma ex_logger_simps [simp]:
  "backend (ex_logger opened) = Waiting" "buffers (ex_logger opened) = []"
  "ptr_text (frontBuffer (ex_logger opened)) = ''ab ''" "toWrite (ex_logger opened) = []"
  "log_file (ex_logger opened) = (if opened then Some '''' else None)"
  by (cases opened; code_simp)+

lemma ex_logger_reach: "async_reach (replicate 8 NUL) (ex_logger opened) ex_history"
proof -
  let ?s = "(ex_logger opened)\<lparr>backend := At_Loop\<rparr>"
  have g: "log_appended (replicate 8 NUL) ''ab'' no_history = ex_history"
    by (simp add: log_appended_def accepted_def spaced_def no_history_def ex_history_def)
  have "async_step (replicate 8 NUL)
      (async_start (replicate 8 NUL) opened (async_ctor (replicate 8 NUL)), no_history) (?s, ex_history)"
    unfolding g [symmetric] by (rule front_append [OF ex_logger_append])
  then have "async_reach (replicate 8 NUL) ?s ex_history"
    by (rule reach_step [OF async_reach_start])
  moreover have "isRuning (ex_logger opened)" by (cases opened; code_simp)
  then have "run_step [] ?s = Inr (ex_logger opened)" by (simp add: run_step_def)
  ultimately have "async_reach (replicate 8 NUL) (ex_logger opened) (log_round [] ?s ex_history)"
    by (rule reach_run [of "replicate 8 NUL" ?s])
  then show ?thesis by (simp add: log_round_def)
qed

section \<open>Properties\<close>

text \<open>
  C26. For a started logger, as long as the object exists, exactly when a null pointer is
  dereferenced: in every reachable
  state, whatever the interleaving and whatever \<open>fopen\<close> and the \<open>fwrite\<close> calls answered,
  appending a message of any length succeeds, and the next step of the backend succeeds
  except in one case, a null \<open>FILE *\<close> (the \<open>fopen\<close> that no one checks failed) with a
  character to write. The buffer pointers are never null where they are used, and the
  backend can always refill its two spare buffers from the list it wrote.
\<close>

theorem async_never_faults:
  assumes "async_reach mem s g"
  shows "(\<exists>s'. async_append mem s msg = Inr s')
    \<and> (if backend s = Writing \<and> log_file s = None \<and> texts (toWrite s) \<noteq> []
       then run_step answers s = Inl Null_Dereference
       else (\<exists>s'. run_step answers s = Inr s'))"
proof -
  have inv: "async_inv mem (s, g)" using assms by (rule async.reach_inv)
  have "\<exists>s'. async_append mem s msg = Inr s'" by (meson inv async_append_ok)
  moreover have "\<exists>s'. run_step answers s = Inr s'" if "\<not> no_stream s"
    by (meson inv that run_step_ok)
  ultimately show ?thesis
    using run_step_null [OF inv, of answers] by (auto simp: no_stream_def)
qed

theorem async_never_faults_witness:
  "(\<exists>s'. async_append (replicate 8 NUL) (ex_logger True) ''abc'' = Inr s')
    \<and> (\<exists>s'. run_step [] (ex_logger True) = Inr s')"
  using async_never_faults [OF ex_logger_reach, where msg = "''abc''" and answers = "[]"] by simp

text \<open>
  C27. No message is lost, duplicated or reordered between the front threads and the file: in
  every reachable state what was given to \<open>fwriten\<close>, the list being written, the queued
  buffers and the front buffer, in this order, hold exactly the messages appended so far,
  each followed by a blank, except those too long for an empty buffer, which \<open>append\<close>
  drops. The file holds what was given to \<open>fwriten\<close> if every \<open>fwrite\<close> was complete; after a
  short or failed one it is no longer than that, and without a stream nothing was given.
\<close>

theorem async_fifo:
  assumes "async_reach mem s g"
  shows "ah_given g @ texts (toWrite s) @ texts (buffers s) @ ptr_text (frontBuffer s) = ah_text g
    \<and> (case log_file s of
         None \<Rightarrow> ah_given g = []
       | Some f \<Rightarrow> length f \<le> length (ah_given g) \<and> (ah_whole g \<longrightarrow> f = ah_given g))"
proof -
  have "async_inv mem (s, g)" using assms by (rule async.reach_inv)
  then show ?thesis by (simp add: async_inv_def async_contents_def file_ok_def)
qed

theorem async_fifo_witness:
  "ah_whole ex_history \<and> texts (toWrite (ex_logger True)) @ texts (buffers (ex_logger True))
    @ ptr_text (frontBuffer (ex_logger True)) = ''ab ''"
  using async_fifo [OF ex_logger_reach, of True] by (simp add: ex_history_def)

text \<open>
  C28. Progress: from the timed wait, with an open stream, the backend's next two steps (swap,
  then write and recycle) add to the file everything that was in the buffers when it woke,
  whatever is appended between them, if the \<open>fwrite\<close> calls of this round are complete; and if
  those of all earlier rounds were too, the file then holds every message accepted by then.
\<close>

theorem async_drains:
  assumes "async_reach mem s g" and "backend s = Waiting" and "log_file s = Some f"
  shows "\<exists>s1. run_step answers s = Inr s1 \<and> (\<forall>msgs. \<exists>s1' s2. async_appends mem s1 msgs = Inr s1'
      \<and> run_step [] s1' = Inr s2 \<and> backend s2 = At_Loop
      \<and> log_file s2 = Some (f @ texts (buffers s) @ ptr_text (frontBuffer s)))
    \<and> (ah_whole g \<longrightarrow> f @ texts (buffers s) @ ptr_text (frontBuffer s) = ah_text g)"
proof -
  have inv: "async_inv mem (s, g)" using assms(1) by (rule async.reach_inv)
  show ?thesis
    using async_drain_steps [OF inv assms(2,3)] buffers_written [OF inv assms(2,3)] by blast
qed

theorem async_drains_witness:
  "\<exists>s1 s1' s2. run_step [] (ex_logger True) = Inr s1
    \<and> async_appends (replicate 8 NUL) s1 [''c'', ''d''] = Inr s1'
    \<and> run_step [] s1' = Inr s2 \<and> log_file s2 = Some ''ab ''"
proof -
  have "log_file (ex_logger True) = Some ''''" by simp
  from async_drains [OF ex_logger_reach ex_logger_simps(1) this, of "[]"] show ?thesis
    by (simp del: async_appends.simps) blast
qed

text \<open>
  A failed \<open>fopen\<close> goes unnoticed until the first character is to be written, and then the
  backend passes the null pointer to \<open>fwrite\<close>.
\<close>

theorem async_open_unchecked:
  assumes "async_reach mem s g" and "backend s = Waiting" and "log_file s = None"
    and "buffers s = []" and "ptr_text (frontBuffer s) \<noteq> []"
  shows "\<exists>s1. run_step answers s = Inr s1 \<and> run_step answers' s1 = Inl Null_Dereference"
proof -
  let ?s1 = "(swap_out s)\<lparr>backend := Writing\<rparr>"
  have inv: "async_inv mem (?s1, g)"
    using async.reach_inv [OF assms(1)] assms(2) by (simp add: swap_out_ok)
  moreover have "no_stream ?s1"
    using assms(3-) by (simp add: no_stream_def swap_out_def Let_def)
  ultimately have "run_step answers' ?s1 = Inl Null_Dereference" by (rule run_step_null)
  with assms(2) show ?thesis by (simp add: run_step_def [of answers s])
qed

theorem async_open_unchecked_witness:
  "\<exists>s1. run_step [] (ex_logger False) = Inr s1 \<and> run_step [] s1 = Inl Null_Dereference"
  using async_open_unchecked [OF ex_logger_reach, of False] by simp

text \<open>
  Shutting down loses messages: the backend leaves its loop as soon as it sees the flag
  cleared, without a last swap, so a message appended before the destructor ran can be
  missing from the file when the thread has finished.
\<close>

theorem async_shutdown_loses:
  assumes "length msg < length mem"
  shows "\<exists>s g. async_reach mem s g \<and> ah_text g = spaced msg \<and> backend s = Finished
    \<and> log_file s = Some ''''"
proof -
  let ?s0 = "async_start mem True (async_ctor mem)"
  let ?g = "log_appended mem msg no_history"
  obtain s1 where s1: "async_append mem ?s0 msg = Inr s1" "async_reach mem s1 ?g"
    "log_file s1 = log_file ?s0" "backend s1 = backend ?s0"
    by (rule reach_append [OF async_reach_start])
  have h: "ah_text ?g = spaced msg" using assms by (simp add: accepted_def log_appended_def no_history_def)
  have f: "backend s1 = At_Loop" "log_file s1 = Some ''''"
    using s1(3,4) by (simp_all add: async_start_def run_locals_def)
  have r: "isRuning s1" "has_thread s1"
    using s1(1) by (auto simp: async_append_def async_start_def run_locals_def async_ctor_def Let_def
        bind_ok_Inr_iff split: if_splits)
  let ?s2 = "s1\<lparr>isRuning := False\<rparr>"
  have "async_dtor s1 = Inr ?s2" using r by (simp add: async_dtor_def)
  with s1(2) have "async_reach mem ?s2 ?g" by (blast intro: reach_step destroy)
  moreover have "run_step [] ?s2 = Inr (?s2\<lparr>backend := Finished\<rparr>)" using f by (simp add: run_step_def)
  ultimately have "async_reach mem (?s2\<lparr>backend := Finished\<rparr>) (log_round [] ?s2 ?g)" by (rule reach_run)
  then have "async_reach mem (?s2\<lparr>backend := Finished\<rparr>) ?g" using f by (simp add: log_round_def)
  with f h show ?thesis by (intro exI [of _ "?s2\<lparr>backend := Finished\<rparr>"] exI [of _ ?g]) simp
qed

theorem async_shutdown_loses_witness:
  "\<exists>s g. async_reach (replicate 4000000 NUL) s g \<and> ah_text g = ''x '' \<and> backend s = Finished
    \<and> log_file s = Some ''''"
  using async_shutdown_loses [of "''x''" "replicate 4000000 NUL"] by (simp add: spaced_def)

text \<open>
  \<open>fwriten\<close> writes the message once when \<open>fwrite\<close> is complete, but after a short write
  it starts again from the beginning of the message instead of going on, so the file gets
  the first part twice and the end of the message not at all; and when \<open>fwrite\<close> writes
  nothing the message is dropped.
\<close>

theorem fwriten_short_write:
  assumes "0 < k" and "k < n" and "n \<le> length msg"
  shows "fwriten [] (Some f) msg n = Inr ([], Some (f @ take n msg))
    \<and> fwriten [k] (Some f) msg n = Inr ([], Some (f @ take k msg @ take (n - k) msg))
    \<and> fwriten [0] (Some f) msg n = Inr ([], Some f)"
  using assms by simp

theorem fwriten_short_write_witness: "fwriten [2] (Some '''') ''abcde'' 5 = Inr ([], Some ''ababc'')"
  using fwriten_short_write [of 2 5 "''abcde''" "''''"] by simp

text \<open>A logger destroyed without having been started dereferences its null thread.\<close>

lemma async_dtor_unstarted: "async_dtor (async_ctor mem) = Inl Null_Dereference"
  by (simp add: async_dtor_def async_ctor_def)

end
