(* ===== verification/Log_Pipeline.thy ===== *)
theory Log_Pipeline
  imports Logging Async_Logging
begin

text \<open>
  The two halves of the log put together: \<open>Logging::setOutput\<close> is given a function that
  appends to a started \<open>AsyncLogging\<close>, any threads execute \<open>LOG_*\<close> statements, and the
  backend thread writes. A statement calls the output function once, and that call is one
  critical section of the logger, so a statement is one step.
\<close>

section \<open>Definitions\<close>

text \<open>
  \<open>pp_lines\<close> and \<open>pp_hist\<close> are the history: the texts handed to the output function, and
  what the logger did with them.
\<close>

record pipe =
  pp_async :: async_state
  pp_lines :: "string list"
  pp_hist :: async_history

definition async_output :: "string \<Rightarrow> string \<Rightarrow> pipe outcome \<Rightarrow> pipe outcome" where
  "async_output mem text w =
     bind_ok w (\<lambda>p. bind_ok (async_append mem (pp_async p) text) (\<lambda>s.
       Inr (p\<lparr>pp_async := s, pp_lines := pp_lines p @ [text],
              pp_hist := log_appended mem text (pp_hist p)\<rparr>)))"

text \<open>The flush function stays the one that flushes \<open>stdout\<close>: it does nothing to the logger.\<close>

definition async_globals :: "string \<Rightarrow> log_level \<Rightarrow> pipe outcome log_globals" where
  "async_globals mem level =
     setOutput (async_output mem) \<lparr>g_logLevel = level, g_output = (\<lambda>_ w. w), g_flush = (\<lambda>w. w)\<rparr>"

text \<open>
  The size of the logger's buffers is the template argument \<open>1000 * 4000\<close>; its \<open>fopen\<close> may
  have failed.
\<close>

definition pipe_start :: "string \<Rightarrow> pipe \<Rightarrow> bool" where
  "pipe_start mem p \<longleftrightarrow> length mem = 4000000
     \<and> (\<exists>opened. p = \<lparr>pp_async = async_start mem opened (async_ctor mem), pp_lines = [],
                       pp_hist = no_history\<rparr>)"

definition statement_good :: "('d \<Rightarrow> string) \<Rightarrow> string \<Rightarrow> log_site \<Rightarrow> log_level \<Rightarrow> 'd item list \<Rightarrow> bool" where
  "statement_good fmt uninit st level items \<longleftrightarrow> site_good st \<and> level \<noteq> NUM_LOG_LEVELS
     \<and> (\<forall>i \<in> set items. item_good fmt i) \<and> length uninit = kSmallSize"

inductive pipe_step :: "string \<Rightarrow> log_level \<Rightarrow> ('d \<Rightarrow> string) \<Rightarrow> pipe \<Rightarrow> pipe \<Rightarrow> bool"
  for mem :: string and threshold :: log_level and fmt :: "'d \<Rightarrow> string" where
  pipe_log: "statement_good fmt uninit st level items \<Longrightarrow>
    log_statement fmt uninit (async_globals mem threshold) st level items (Inr p) = Inr (Returns (Inr p')) \<Longrightarrow>
    pipe_step mem threshold fmt p p'"
| pipe_backend: "run_step answers (pp_async p) = Inr s \<Longrightarrow>
    pipe_step mem threshold fmt p
      (p\<lparr>pp_async := s, pp_hist := log_round answers (pp_async p) (pp_hist p)\<rparr>)"

inductive_cases pipe_stepE: "pipe_step mem threshold fmt p p'"

section \<open>Lemmas\<close>

lemma async_globals_simps [simp]:
  "g_logLevel (async_globals mem level) = level" "g_output (async_globals mem level) = async_output mem"
  "g_flush (async_globals mem level) w = w"
  by (simp_all add: async_globals_def setOutput_def)

definition pipe_inv :: "string \<Rightarrow> pipe \<Rightarrow> bool" where
  "pipe_inv mem p \<longleftrightarrow> length mem = 4000000
     \<and> async_inv mem (pp_async p, pp_hist p) \<and> ah_text (pp_hist p) = concat (map spaced (pp_lines p))
     \<and> (\<forall>l \<in> set (pp_lines p). length l \<le> kSmallSize)"

text \<open>A statement above the threshold, whatever its operands: one whole line is appended.\<close>

lemma pipe_statement:
  assumes "pipe_inv mem p" and "statement_good fmt uninit st level items" and "threshold \<le> level"
  obtains line p' where
      "log_statement fmt uninit (async_globals mem threshold) st level items (Inr p)
        = Inr (if level = FATAL then Aborts (Inr p') else Returns (Inr p'))"
    and "pp_lines p' = pp_lines p @ [line]" and "length line \<le> kSmallSize" and "pipe_inv mem p'"
    and "log_file (pp_async p') = log_file (pp_async p)"
proof -
  from assms(2,3) have "g_logLevel (async_globals mem threshold) \<le> level" "level \<noteq> NUM_LOG_LEVELS"
      "site_good st" "\<forall>i \<in> set items. item_good fmt i" "length uninit = kSmallSize"
    by (simp_all add: statement_good_def)
  from log_statement_output [OF this, of "Inr p"] obtain line where line: "length line \<le> kSmallSize"
    and run: "log_statement fmt uninit (async_globals mem threshold) st level items (Inr p)
      = Inr (if level = FATAL then Aborts (async_output mem line (Inr p)) else Returns (async_output mem line (Inr p)))"
    by auto
  have "async_inv mem (pp_async p, pp_hist p)" using assms(1) by (simp add: pipe_inv_def)
  then obtain s where s: "async_append mem (pp_async p) line = Inr s"
      "async_inv mem (s, log_appended mem line (pp_hist p))" "log_file s = log_file (pp_async p)"
    by (rule async_append_ok)
  have "ah_text (log_appended mem line (pp_hist p)) = ah_text (pp_hist p) @ spaced line"
    using line assms(1) by (simp add: log_appended_def accepted_def pipe_inv_def kSmallSize_def)
  then show thesis
    using run s line assms(1)
    by (intro that [of "p\<lparr>pp_async := s, pp_lines := pp_lines p @ [line],
          pp_hist := log_appended mem line (pp_hist p)\<rparr>" line])
      (simp_all add: async_output_def pipe_inv_def)
qed

interpretation pipe: state_invariant "pipe_start mem" "pipe_step mem threshold fmt" "pipe_inv mem"
proof unfold_locales
  fix p
  assume "pipe_start mem p"
  then obtain opened where p: "length mem = 4000000" "p = \<lparr>pp_async = async_start mem opened (async_ctor mem),
      pp_lines = [], pp_hist = no_history\<rparr>"
    by (auto simp: pipe_start_def)
  have "async_inv mem (async_start mem opened (async_ctor mem), no_history)"
    using async.reach_inv [OF async_reach_start] .
  then show "pipe_inv mem p" using p by (simp add: pipe_inv_def no_history_def)
next
  fix p p'
  assume "pipe_step mem threshold fmt p p'" and inv: "pipe_inv mem p"
  then show "pipe_inv mem p'"
  proof (cases rule: pipe_step.cases)
    case (pipe_log uninit st level items)
    show ?thesis
    proof (cases "threshold \<le> level")
      case True
      obtain q where
          "log_statement fmt uninit (async_globals mem threshold) st level items (Inr p)
            = Inr (if level = FATAL then Aborts (Inr q) else Returns (Inr q))"
        and "pipe_inv mem q"
        by (rule pipe_statement [OF inv pipe_log(1) True])
      with pipe_log(2) show ?thesis by (cases "level = FATAL") simp_all
    next
      case False
      then have "log_statement fmt uninit (async_globals mem threshold) st level items (Inr p) = Inr (Returns (Inr p))"
        by (simp add: log_statement_def)
      with pipe_log(2) inv show ?thesis by simp
    qed
  next
    case (pipe_backend answers s)
    have "async_inv mem (pp_async p, pp_hist p)" using inv by (simp add: pipe_inv_def)
    then have "async_inv mem (s, log_round answers (pp_async p) (pp_hist p))"
      using pipe_backend(2) by (rule run_step_Inr_ok)
    with inv pipe_backend(1) show ?thesis by (simp add: pipe_inv_def log_round_def)
  qed
qed

section \<open>Examples\<close>

definition ex_pipe :: pipe where
  "ex_pipe = \<lparr>pp_async = async_start (replicate 4000000 NUL) True (async_ctor (replicate 4000000 NUL)),
     pp_lines = [], pp_hist = no_history\<rparr>"

lemma ex_pipe_reach: "reach (pipe_start (replicate 4000000 NUL)) (pipe_step (replicate 4000000 NUL) TRACE sample_fmt) ex_pipe"
  by (rule reach_start) (auto simp: pipe_start_def ex_pipe_def)

lemma ex_statement: "statement_good sample_fmt (replicate kSmallSize NUL) sample_site FATAL [Item_String ''x'']"
  by (simp add: statement_good_def sample_good)

lemma trace_least [simp]: "TRACE \<le> level"
  by (simp add: less_eq_log_level_def)

definition ex_pipe_waiting :: pipe where
  "ex_pipe_waiting = ex_pipe\<lparr>pp_async := (pp_async ex_pipe)\<lparr>backend := Waiting\<rparr>\<rparr>"

lemma ex_pipe_waiting_reach:
  "reach (pipe_start (replicate 4000000 NUL)) (pipe_step (replicate 4000000 NUL) TRACE sample_fmt) ex_pipe_waiting"
proof (rule reach_step [OF ex_pipe_reach])
  have "run_step [] (pp_async ex_pipe) = Inr ((pp_async ex_pipe)\<lparr>backend := Waiting\<rparr>)"
    by (simp add: ex_pipe_def run_step_def async_start_def run_locals_def async_ctor_def)
  then have "pipe_step (replicate 4000000 NUL) TRACE sample_fmt ex_pipe
      (ex_pipe\<lparr>pp_async := (pp_async ex_pipe)\<lparr>backend := Waiting\<rparr>,
        pp_hist := log_round [] (pp_async ex_pipe) (pp_hist ex_pipe)\<rparr>)"
    by (rule pipe_backend)
  then show "pipe_step (replicate 4000000 NUL) TRACE sample_fmt ex_pipe ex_pipe_waiting"
    by (simp add: ex_pipe_waiting_def ex_pipe_def log_round_def async_start_def run_locals_def)
qed

text \<open>One line logged.\<close>

definition ex_pipe_logged :: pipe where
  "ex_pipe_logged = (case log_statement sample_fmt (replicate kSmallSize NUL)
       (async_globals (replicate 4000000 NUL) TRACE) sample_site INFO [Item_String ''x''] (Inr ex_pipe) of
     Inr (Returns (Inr q)) \<Rightarrow> q | _ \<Rightarrow> ex_pipe)"

lemma ex_pipe_logged:
  "reach (pipe_start (replicate 4000000 NUL)) (pipe_step (replicate 4000000 NUL) TRACE sample_fmt) ex_pipe_logged"
  "\<exists>line. pp_lines ex_pipe_logged = [line]"
proof -
  have st: "statement_good sample_fmt (replicate kSmallSize NUL) sample_site INFO [Item_String ''x'']"
    by (simp add: statement_good_def sample_good)
  obtain line q where run: "log_statement sample_fmt (replicate kSmallSize NUL)
        (async_globals (replicate 4000000 NUL) TRACE) sample_site INFO [Item_String ''x''] (Inr ex_pipe)
      = Inr (if INFO = FATAL then Aborts (Inr q) else Returns (Inr q))"
    and q: "pp_lines q = pp_lines ex_pipe @ [line]"
    by (rule pipe_statement [OF pipe.reach_inv [OF ex_pipe_reach] st trace_least])
  then have e: "ex_pipe_logged = q" by (simp add: ex_pipe_logged_def)
  show "reach (pipe_start (replicate 4000000 NUL)) (pipe_step (replicate 4000000 NUL) TRACE sample_fmt) ex_pipe_logged"
    unfolding e by (rule reach_step [OF ex_pipe_reach]) (rule pipe_log [OF st], use run in simp)
  show "\<exists>line. pp_lines ex_pipe_logged = [line]" using q unfolding e by (simp add: ex_pipe_def)
qed

section \<open>Properties\<close>

text \<open>
  C29. Every line that passes the filter is handed to \<open>fwriten\<close> whole, once and in order, or
  is still in the logger's buffers: what was handed over, the list being written, the queue
  and the front buffer hold exactly the lines logged so far, each followed by a blank. No
  line is too long for a buffer, since the log stream cuts it at 4000 characters. If every
  \<open>fwrite\<close> was complete, the file is exactly what was handed over, so the file followed by
  the buffers is the lines logged; after a short or failed one it is no longer than that,
  and if \<open>fopen\<close> failed nothing was handed over.
\<close>

theorem pipeline_lossless:
  assumes "reach (pipe_start mem) (pipe_step mem threshold fmt) p"
  shows "ah_given (pp_hist p) @ texts (toWrite (pp_async p)) @ texts (buffers (pp_async p))
      @ ptr_text (frontBuffer (pp_async p)) = concat (map spaced (pp_lines p))
    \<and> (\<forall>l \<in> set (pp_lines p). length l \<le> kSmallSize)
    \<and> (case log_file (pp_async p) of
         None \<Rightarrow> ah_given (pp_hist p) = []
       | Some f \<Rightarrow> length f \<le> length (ah_given (pp_hist p))
           \<and> (ah_whole (pp_hist p) \<longrightarrow> f = ah_given (pp_hist p)))"
proof -
  have "async_inv mem (pp_async p, pp_hist p)" "ah_text (pp_hist p) = concat (map spaced (pp_lines p))"
    "\<forall>l \<in> set (pp_lines p). length l \<le> kSmallSize"
    using pipe.reach_inv [OF assms] by (simp_all add: pipe_inv_def)
  then show ?thesis by (simp add: async_inv_def async_contents_def file_ok_def)
qed

theorem pipeline_lossless_witness:
  "\<exists>line. pp_lines ex_pipe_logged = [line] \<and> length line \<le> kSmallSize
    \<and> ah_given (pp_hist ex_pipe_logged) @ texts (toWrite (pp_async ex_pipe_logged))
      @ texts (buffers (pp_async ex_pipe_logged)) @ ptr_text (frontBuffer (pp_async ex_pipe_logged)) = spaced line"
proof -
  obtain line where "pp_lines ex_pipe_logged = [line]" using ex_pipe_logged(2) by blast
  with pipeline_lossless [OF ex_pipe_logged(1)] show ?thesis by auto
qed

text \<open>
  A \<open>LOG_FATAL\<close> through the asynchronous logger is lost: the statement hands its line to the
  logger and the process aborts, with the file as it was before the statement; the flush
  function, which is the one of \<open>stdout\<close>, does not help. What other statements left in the
  buffers is lost with it. A statement of any other level returns, and no statement faults.
\<close>

theorem pipeline_fatal_lost:
  assumes "reach (pipe_start mem) (pipe_step mem threshold fmt) p"
    and "statement_good fmt uninit st level items" and "threshold \<le> level"
  shows "\<exists>line q. log_statement fmt uninit (async_globals mem threshold) st level items (Inr p)
      = Inr (if level = FATAL then Aborts (Inr q) else Returns (Inr q))
    \<and> pp_lines q = pp_lines p @ [line] \<and> log_file (pp_async q) = log_file (pp_async p)"
proof -
  obtain line q where "log_statement fmt uninit (async_globals mem threshold) st level items (Inr p)
      = Inr (if level = FATAL then Aborts (Inr q) else Returns (Inr q))"
    and "pp_lines q = pp_lines p @ [line]" and "log_file (pp_async q) = log_file (pp_async p)"
    by (rule pipe_statement [OF pipe.reach_inv [OF assms(1)] assms(2,3)])
  then show ?thesis by blast
qed

theorem pipeline_fatal_lost_witness:
  "\<exists>q. log_statement sample_fmt (replicate kSmallSize NUL) (async_globals (replicate 4000000 NUL) TRACE)
      sample_site FATAL [Item_String ''x''] (Inr ex_pipe) = Inr (Aborts (Inr q))
    \<and> length (pp_lines q) = 1 \<and> log_file (pp_async q) = Some ''''"
proof -
  have "pp_lines ex_pipe = []" "log_file (pp_async ex_pipe) = Some ''''"
    by (simp_all add: ex_pipe_def async_start_def run_locals_def async_ctor_def)
  with pipeline_fatal_lost [OF ex_pipe_reach ex_statement trace_least] show ?thesis by auto
qed

text \<open>
  Once the backend waits, its next two steps put every line logged so far into the file, if
  \<open>fopen\<close> succeeded and every \<open>fwrite\<close> is complete.
\<close>

theorem pipeline_drains:
  assumes "reach (pipe_start mem) (pipe_step mem threshold fmt) p" and "backend (pp_async p) = Waiting"
    and "log_file (pp_async p) = Some f" and "ah_whole (pp_hist p)"
  shows "\<exists>s1 s2. run_step [] (pp_async p) = Inr s1 \<and> run_step [] s1 = Inr s2
    \<and> log_file s2 = Some (concat (map spaced (pp_lines p)))"
proof -
  have inv: "async_inv mem (pp_async p, pp_hist p)"
    and "ah_text (pp_hist p) = concat (map spaced (pp_lines p))"
    using pipe.reach_inv [OF assms(1)] by (simp_all add: pipe_inv_def)
  then have w: "f @ texts (buffers (pp_async p)) @ ptr_text (frontBuffer (pp_async p))
      = concat (map spaced (pp_lines p))"
    using buffers_written [OF inv assms(2-4)] by simp
  obtain s1 where s1: "run_step [] (pp_async p) = Inr s1"
    and drain: "\<exists>s1' s2. async_appends mem s1 [] = Inr s1' \<and> run_step [] s1' = Inr s2 \<and> backend s2 = At_Loop
      \<and> log_file s2 = Some (f @ texts (buffers (pp_async p)) @ ptr_text (frontBuffer (pp_async p)))"
    using async_drain_steps [OF inv assms(2,3), of "[]"] by blast
  from s1 drain show ?thesis by (auto simp: w)
qed

theorem pipeline_drains_witness:
  "\<exists>s1 s2. run_step [] (pp_async ex_pipe_waiting) = Inr s1 \<and> run_step [] s1 = Inr s2
    \<and> log_file s2 = Some (concat (map spaced (pp_lines ex_pipe_waiting)))"
  by (rule pipeline_drains [OF ex_pipe_waiting_reach])
    (simp_all add: ex_pipe_waiting_def ex_pipe_def async_start_def run_locals_def no_history_def)

end
