(* ===== verification/Thread_Pool.thy ===== *)
theory Thread_Pool
  imports Sync Fifo_Queue Thread
begin

text \<open>
  \<open>base/ThreadPool.h\<close> and \<open>base/ThreadPool.cpp\<close>: workers that take tasks from a bounded
  deque, producers that block while it is full, and \<open>stop\<close>. A move is one critical section,
  one test of \<open>_isRunning\<close> outside the mutex, or the end of a task; the thread a signal
  wakes is part of the move. A task is a \<open>std::function\<close>, \<open>None\<close> when it is empty.
\<close>

section \<open>Definitions\<close>

subsection \<open>The object\<close>

type_synonym 'a task = "'a option"

record 'a pool =
  tp_isRunning :: bool
  tp_maxNum :: nat
  tp_name :: string
  tp_notFull :: cond
  tp_notEmpty :: cond
  tp_tasks :: "'a task list"

definition pool_ctor :: "nat \<Rightarrow> string \<Rightarrow> 'a pool" where
  "pool_ctor num name = \<lparr>tp_isRunning = False, tp_maxNum = num, tp_name = name,
     tp_notFull = cond_init, tp_notEmpty = cond_init, tp_tasks = []\<rparr>"

text \<open>The name of worker \<open>i\<close>, through a 16 byte array.\<close>

definition worker_name :: "'a pool \<Rightarrow> nat \<Rightarrow> string" where
  "worker_name p i = tp_name p @ take 15 ('' Thread-'' @ decimal (int i + 1))"

definition isFull :: "'a pool \<Rightarrow> bool" where
  "isFull p \<longleftrightarrow> length (tp_tasks p) \<ge> tp_maxNum p"

definition tp_put :: "'a \<Rightarrow> 'a list \<Rightarrow> 'a list" where
  "tp_put x q = x # q"

definition tp_get :: "'a list \<Rightarrow> ('a \<times> 'a list) outcome" where
  "tp_get q = bind_ok (deque_back q) (\<lambda>x. bind_ok (pop_back q) (\<lambda>q'. Inr (x, q')))"

text \<open>
  \<open>run\<close> of a pool with threads, from the test of its loop on: the producer \<open>t\<close> sleeps, or
  the task is queued and \<open>w\<close> woken. The flag tells whether the task was queued.
\<close>

definition run_check :: "nat \<Rightarrow> 'a task \<Rightarrow> nat option \<Rightarrow> 'a pool \<Rightarrow> ('a pool \<times> bool) option" where
  "run_check t x w p =
     (if isFull p then Some (p\<lparr>tp_notFull := cond_wait t (tp_notFull p)\<rparr>, False)
      else map_option (\<lambda>c. (p\<lparr>tp_tasks := tp_put x (tp_tasks p), tp_notEmpty := c\<rparr>, True))
             (cond_signal w (tp_notEmpty p)))"

text \<open>The block of \<open>loop\<close> under the mutex: sleep, or take the task at the back.\<close>

definition worker_check ::
  "nat \<Rightarrow> nat option \<Rightarrow> 'a pool \<Rightarrow> ('a task option \<times> 'a pool) outcome option" where
  "worker_check t w p =
     (if tp_tasks p = [] \<and> tp_isRunning p
      then Some (Inr (None, p\<lparr>tp_notEmpty := cond_wait t (tp_notEmpty p)\<rparr>))
      else case tp_get (tp_tasks p) of
             Inl e \<Rightarrow> Some (Inl e)
           | Inr (x, q) \<Rightarrow>
               map_option (\<lambda>c. Inr (Some x, p\<lparr>tp_tasks := q, tp_notFull := c\<rparr>))
                 (cond_signal w (tp_notFull p)))"

definition stop_section :: "'a pool \<Rightarrow> 'a pool" where
  "stop_section p = p\<lparr>tp_isRunning := False, tp_notEmpty := cond_notifyAll (tp_notEmpty p)\<rparr>"

text \<open>
  The second half of \<open>stop\<close>, the joins, where \<open>Inr None\<close> is a join that blocks, and the
  destruction of the vector of threads at the end of the pool's destructor.
\<close>

fun join_all :: "thread_obj list \<Rightarrow> pthreads \<Rightarrow> pthreads option outcome" where
  "join_all [] tab = Inr (Some tab)"
| "join_all (th # ths) tab =
     bind_ok (thread_join th tab) (\<lambda>r.
       case r of None \<Rightarrow> Inr None | Some tab1 \<Rightarrow> join_all ths tab1)"

fun destroy_all :: "thread_obj list \<Rightarrow> pthreads \<Rightarrow> pthreads outcome" where
  "destroy_all [] tab = Inr tab"
| "destroy_all (th # ths) tab = bind_ok (thread_dtor th tab) (destroy_all ths)"

definition pool_dtor :: "'a pool \<Rightarrow> thread_obj list \<Rightarrow> pthreads \<Rightarrow> pthreads option outcome" where
  "pool_dtor p ths tab =
     bind_ok (if tp_isRunning p then join_all ths tab else Inr (Some tab)) (\<lambda>r.
       case r of
         None \<Rightarrow> Inr None
       | Some tab1 \<Rightarrow> bind_ok (destroy_all ths tab1) (\<lambda>tab2. Inr (Some tab2)))"

subsection \<open>The pool and its threads\<close>

datatype 'a worker_pc =
    Not_Spawned
  | At_Test
  | Want_Mutex
  | In_Wait
  | Executing "'a task"
  | Exited

record 'a pool_system =
  pool :: "'a pool"
  worker :: "nat \<Rightarrow> 'a worker_pc"
  spawned :: nat
  held :: "nat \<Rightarrow> 'a task option"
  submitted :: "'a task list"
  begun :: "'a task list"
  failure :: "fault option"

definition pool_init :: "nat \<Rightarrow> string \<Rightarrow> 'a pool_system" where
  "pool_init n name = \<lparr>pool = pool_ctor n name, worker = \<lambda>_. Not_Spawned, spawned = 0,
     held = \<lambda>_. None, submitted = [], begun = [], failure = None\<rparr>"

datatype 'a pool_action =
    Pool_Start
  | Pool_Spawn
  | Pool_Stop
  | Worker_Test nat
  | Worker_Enter nat "nat option"
  | Worker_Wake nat "nat option"
  | Worker_Spurious nat
  | Worker_Done nat
  | Worker_Throws nat
  | Run_Call nat "'a task" "nat option"
  | Run_Wake nat "nat option"
  | Run_Spurious nat

definition finish_worker ::
  "nat \<Rightarrow> ('a task option \<times> 'a pool) outcome option \<Rightarrow> 'a pool_system \<Rightarrow> 'a pool_system option" where
  "finish_worker t r s =
     (case r of
        None \<Rightarrow> None
      | Some (Inl e) \<Rightarrow> Some (s\<lparr>failure := Some e\<rparr>)
      | Some (Inr (None, p)) \<Rightarrow> Some (s\<lparr>pool := p, worker := (worker s)(t := In_Wait)\<rparr>)
      | Some (Inr (Some x, p)) \<Rightarrow>
          Some (s\<lparr>pool := p, worker := (worker s)(t := Executing x), begun := begun s @ [x]\<rparr>))"

definition finish_run ::
  "nat \<Rightarrow> 'a task \<Rightarrow> ('a pool \<times> bool) option \<Rightarrow> 'a pool_system \<Rightarrow> 'a pool_system option" where
  "finish_run t x r s =
     (case r of
        None \<Rightarrow> None
      | Some (p, True) \<Rightarrow>
          Some (s\<lparr>pool := p, held := (held s)(t := None), submitted := submitted s @ [x]\<rparr>)
      | Some (p, False) \<Rightarrow> Some (s\<lparr>pool := p, held := (held s)(t := Some x)\<rparr>))"

text \<open>\<open>run\<close> of a pool without threads calls the task.\<close>

definition run_inline :: "'a task \<Rightarrow> 'a pool_system \<Rightarrow> 'a pool_system" where
  "run_inline x s =
     (case x of
        None \<Rightarrow> s\<lparr>failure := Some Bad_Function_Call\<rparr>
      | Some _ \<Rightarrow> s\<lparr>submitted := submitted s @ [x], begun := begun s @ [x]\<rparr>)"

fun pool_move :: "'a pool_action \<Rightarrow> 'a pool_system \<Rightarrow> 'a pool_system option" where
  "pool_move Pool_Start s =
     (if spawned s = 0 then Some (s\<lparr>pool := (pool s)\<lparr>tp_isRunning := True\<rparr>\<rparr>) else None)"
| "pool_move Pool_Spawn s =
     (if tp_isRunning (pool s) \<and> spawned s < tp_maxNum (pool s)
      then Some (s\<lparr>worker := (worker s)(spawned s := At_Test), spawned := spawned s + 1\<rparr>) else None)"
| "pool_move Pool_Stop s =
     (if tp_isRunning (pool s) \<and> spawned s = tp_maxNum (pool s)
      then Some (s\<lparr>pool := stop_section (pool s)\<rparr>) else None)"
| "pool_move (Worker_Test t) s =
     (if worker s t = At_Test
      then Some (s\<lparr>worker := (worker s)(t := if tp_isRunning (pool s) then Want_Mutex else Exited)\<rparr>)
      else None)"
| "pool_move (Worker_Enter t w) s =
     (if worker s t = Want_Mutex then finish_worker t (worker_check t w (pool s)) s else None)"
| "pool_move (Worker_Wake t w) s =
     (if t \<in> woken (tp_notEmpty (pool s))
      then finish_worker t (worker_check t w
             ((pool s)\<lparr>tp_notEmpty := cond_resume t (tp_notEmpty (pool s))\<rparr>)) s
      else None)"
| "pool_move (Worker_Spurious t) s =
     (if t \<in> sleeping (tp_notEmpty (pool s))
      then Some (s\<lparr>pool := (pool s)\<lparr>tp_notEmpty := cond_spurious t (tp_notEmpty (pool s))\<rparr>\<rparr>) else None)"
| "pool_move (Worker_Done t) s =
     (case worker s t of
        Executing _ \<Rightarrow> Some (s\<lparr>worker := (worker s)(t := At_Test)\<rparr>)
      | _ \<Rightarrow> None)"
| "pool_move (Worker_Throws t) s =
     (case worker s t of
        Executing (Some _) \<Rightarrow> Some (s\<lparr>failure := Some Aborted\<rparr>)
      | _ \<Rightarrow> None)"
| "pool_move (Run_Call t x w) s =
     (if held s t \<noteq> None then None
      else if tp_maxNum (pool s) = 0 then Some (run_inline x s)
      else finish_run t x (run_check t x w (pool s)) s)"
| "pool_move (Run_Wake t w) s =
     (case held s t of
        None \<Rightarrow> None
      | Some x \<Rightarrow>
          if t \<in> woken (tp_notFull (pool s))
          then finish_run t x (run_check t x w
                 ((pool s)\<lparr>tp_notFull := cond_resume t (tp_notFull (pool s))\<rparr>)) s
          else None)"
| "pool_move (Run_Spurious t) s =
     (if t \<in> sleeping (tp_notFull (pool s))
      then Some (s\<lparr>pool := (pool s)\<lparr>tp_notFull := cond_spurious t (tp_notFull (pool s))\<rparr>\<rparr>) else None)"

text \<open>A fault ends the process.\<close>

definition pool_do :: "'a pool_action \<Rightarrow> 'a pool_system \<Rightarrow> 'a pool_system option" where
  "pool_do m s = (if failure s = None then pool_move m s else None)"

definition pool_start :: "nat \<Rightarrow> string \<Rightarrow> 'a pool_system \<Rightarrow> bool" where
  "pool_start n name s \<longleftrightarrow> s = pool_init n name"

inductive pool_step :: "'a pool_system \<Rightarrow> 'a pool_system \<Rightarrow> bool" where
  pool_stepI: "pool_do m s = Some s' \<Longrightarrow> pool_step s s'"

inductive_cases pool_stepE: "pool_step s s'"

section \<open>Lemmas\<close>

interpretation tpq: fifo_queue rev tp_put tp_get
proof unfold_locales
  show "\<exists>q'. tp_get q = Inr (x, q') \<and> rev q' = xs" if "rev q = x # xs" for q x and xs :: "'a list"
  proof -
    from that have "q = rev xs @ [x]" by (metis rev.simps(2) rev_rev_ident)
    then show ?thesis by (simp add: tp_get_def)
  qed
qed (auto simp: tp_put_def tp_get_def)

text \<open>A well-formed pool, up to the number of wake-ups that cover each condition.\<close>

definition pool_data :: "nat \<Rightarrow> nat \<Rightarrow> 'a pool \<Rightarrow> bool" where
  "pool_data e f p \<longleftrightarrow> length (tp_tasks p) \<le> tp_maxNum p
     \<and> cond_wf (tp_notFull p) \<and> cond_wf (tp_notEmpty p)
     \<and> wakeups_cover e (tp_notEmpty p) \<and> wakeups_cover f (tp_notFull p)
     \<and> (sleeping (tp_notEmpty p) \<noteq> {} \<longrightarrow> tp_isRunning p)"

definition pool_inv :: "'a pool_system \<Rightarrow> bool" where
  "pool_inv s \<longleftrightarrow>
     pool_data (length (tp_tasks (pool s))) (tp_maxNum (pool s) - length (tp_tasks (pool s))) (pool s)
     \<and> begun s @ rev (tp_tasks (pool s)) = submitted s
     \<and> (\<forall>t. waiting t (tp_notEmpty (pool s)) \<longrightarrow> worker s t = In_Wait)
     \<and> (\<forall>t. waiting t (tp_notFull (pool s)) \<longrightarrow> held s t \<noteq> None)
     \<and> (\<forall>t \<ge> spawned s. worker s t = Not_Spawned)
     \<and> (failure s = Some Empty_Container \<longrightarrow> \<not> tp_isRunning (pool s) \<and> tp_tasks (pool s) = [])
     \<and> failure s \<in> {None, Some Empty_Container, Some Bad_Function_Call, Some Aborted}"

subsection \<open>The critical sections\<close>

lemma tp_get_snoc [simp]: "tp_get (q @ [x]) = Inr (x, q)"
  by (simp add: tp_get_def)

lemma worker_sleeps:
  "worker_check t w p = Some (Inr (None, p')) \<longleftrightarrow> tp_tasks p = [] \<and> tp_isRunning p
     \<and> p' = p\<lparr>tp_notEmpty := cond_wait t (tp_notEmpty p)\<rparr>"
  by (auto simp: worker_check_def split: sum.splits)

lemma worker_takes:
  "worker_check t w p = Some (Inr (Some x, p')) \<longleftrightarrow>
    (\<exists>q c. tp_tasks p = q @ [x] \<and> cond_signal w (tp_notFull p) = Some c
       \<and> p' = p\<lparr>tp_tasks := q, tp_notFull := c\<rparr>)"
  by (cases "tp_tasks p" rule: rev_cases) (auto simp: worker_check_def tp_get_def)

lemma worker_faults:
  "worker_check t w p = Some (Inl e) \<longleftrightarrow> e = Empty_Container \<and> tp_tasks p = [] \<and> \<not> tp_isRunning p"
  by (cases "tp_tasks p" rule: rev_cases) (auto simp: worker_check_def tp_get_def)

lemma worker_cases:
  assumes "finish_worker t (worker_check t w p) s = Some s'"
  obtains (fault) "tp_tasks p = []" and "\<not> tp_isRunning p" and "s' = s\<lparr>failure := Some Empty_Container\<rparr>"
  | (sleep) "tp_tasks p = []" and "tp_isRunning p"
      and "s' = s\<lparr>pool := p\<lparr>tp_notEmpty := cond_wait t (tp_notEmpty p)\<rparr>, worker := (worker s)(t := In_Wait)\<rparr>"
  | (get) q x c where "tp_tasks p = q @ [x]" and "cond_signal w (tp_notFull p) = Some c"
      and "s' = s\<lparr>pool := p\<lparr>tp_tasks := q, tp_notFull := c\<rparr>, worker := (worker s)(t := Executing x),
             begun := begun s @ [x]\<rparr>"
proof -
  from assms obtain r where r: "worker_check t w p = Some r"
    by (auto simp: finish_worker_def split: option.splits)
  show thesis
  proof (cases r)
    case (Inl e)
    with r have c: "worker_check t w p = Some (Inl e)" by simp
    with assms show thesis using fault by (simp add: worker_faults finish_worker_def)
  next
    case (Inr y)
    then obtain o' p' where y: "r = Inr (o', p')" by (cases y) auto
    show thesis
    proof (cases o')
      case None
      with r y have "worker_check t w p = Some (Inr (None, p'))" by simp
      with assms show thesis using sleep by (simp add: worker_sleeps finish_worker_def)
    next
      case (Some x)
      with r y assms have "worker_check t w p = Some (Inr (Some x, p'))" by simp
      then obtain q c where "tp_tasks p = q @ [x]" and "cond_signal w (tp_notFull p) = Some c"
        and "p' = p\<lparr>tp_tasks := q, tp_notFull := c\<rparr>" by (auto simp: worker_takes)
      with r y Some assms show thesis by (auto simp: finish_worker_def intro: get)
    qed
  qed
qed

lemma run_cases:
  assumes "finish_run t x (run_check t x w p) s = Some s'"
  obtains (sleep) "isFull p"
      and "s' = s\<lparr>pool := p\<lparr>tp_notFull := cond_wait t (tp_notFull p)\<rparr>, held := (held s)(t := Some x)\<rparr>"
  | (put) c where "\<not> isFull p" and "cond_signal w (tp_notEmpty p) = Some c"
      and "s' = s\<lparr>pool := p\<lparr>tp_tasks := tp_put x (tp_tasks p), tp_notEmpty := c\<rparr>,
             held := (held s)(t := None), submitted := submitted s @ [x]\<rparr>"
  using assms by (auto simp: finish_run_def run_check_def split: if_splits option.splits)

lemma finish_worker_inv:
  assumes "finish_worker t (worker_check t w p) s = Some s'" and s: "pool_inv s" "failure s = None"
    and p: "tp_tasks p = tp_tasks (pool s)" "tp_isRunning p = tp_isRunning (pool s)"
      "tp_maxNum p = tp_maxNum (pool s)"
    and data: "pool_data (length (tp_tasks p) - 1) (tp_maxNum p - length (tp_tasks p)) p"
    and t: "t < spawned s"
    and w: "\<forall>u. waiting u (tp_notEmpty p) \<longrightarrow> u \<noteq> t \<and> worker s u = In_Wait"
    and h: "\<forall>u. waiting u (tp_notFull p) \<longrightarrow> held s u \<noteq> None"
  shows "pool_inv s'"
  using assms(1)
proof (cases rule: worker_cases)
  case fault
  with s p show ?thesis by (simp add: pool_inv_def)
next
  case sleep
  have "t \<notin> woken (tp_notEmpty p)" using w by (auto simp: waiting_def)
  with data sleep have "pool_data (length (tp_tasks (pool s'))) (tp_maxNum (pool s')
      - length (tp_tasks (pool s'))) (pool s')"
    by (simp add: pool_data_def cond_wf_wait cover_sleep)
  with s w h t p sleep show ?thesis by (auto simp: pool_inv_def)
next
  case (get q x c)
  have "tp_maxNum p - length q = Suc (tp_maxNum p - length (tp_tasks p))"
    using data get(1) by (auto simp: pool_data_def)
  with data get have "pool_data (length (tp_tasks (pool s'))) (tp_maxNum (pool s')
      - length (tp_tasks (pool s'))) (pool s')"
    by (auto simp: pool_data_def intro: cond_wf_signal cover_signal)
  moreover have "tp_tasks (pool s) = q @ [x]" using p get(1) by simp
  ultimately show ?thesis
    using s w h t p get by (simp add: pool_inv_def waiting_signal [OF get(2)])
qed

lemma finish_run_inv:
  assumes "finish_run t x (run_check t x w p) s = Some s'" and s: "pool_inv s" "failure s = None"
    and p: "tp_tasks p = tp_tasks (pool s)" "tp_isRunning p = tp_isRunning (pool s)"
      "tp_maxNum p = tp_maxNum (pool s)"
    and data: "pool_data (length (tp_tasks p)) (tp_maxNum p - length (tp_tasks p) - 1) p"
    and w: "\<forall>u. waiting u (tp_notEmpty p) \<longrightarrow> worker s u = In_Wait"
    and h: "\<forall>u. waiting u (tp_notFull p) \<longrightarrow> u \<noteq> t \<and> held s u \<noteq> None"
  shows "pool_inv s'"
  using assms(1)
proof (cases rule: run_cases)
  case sleep
  have "t \<notin> woken (tp_notFull p)" using h by (auto simp: waiting_def)
  moreover have "wakeups_cover (tp_maxNum p - length (tp_tasks p)) (cond_wait t (tp_notFull p))"
    using sleep(1) by (auto simp: isFull_def intro: cover_mono [OF cover_sleep])
  ultimately have "pool_data (length (tp_tasks (pool s'))) (tp_maxNum (pool s')
      - length (tp_tasks (pool s'))) (pool s')"
    using data sleep by (simp add: pool_data_def cond_wf_wait)
  with s w h p sleep show ?thesis by (auto simp: pool_inv_def)
next
  case (put c)
  have "pool_data (length (tp_tasks (pool s'))) (tp_maxNum (pool s')
      - length (tp_tasks (pool s'))) (pool s')"
    using data put(1,3) sleeping_signal [OF put(2)] cond_wf_signal [OF put(2)] cover_signal [OF put(2)]
    by (auto simp: pool_data_def isFull_def tp_put_def)
  with s w h p put show ?thesis
    by (auto simp: pool_inv_def waiting_signal [OF put(2)] tp_put_def)
qed


subsection \<open>The invariant\<close>

lemma worker_spawned: "pool_inv s \<Longrightarrow> worker s t \<noteq> Not_Spawned \<Longrightarrow> t < spawned s"
  by (meson pool_inv_def not_less)

lemma pool_move_inv:
  assumes "pool_move m s = Some s'" and "pool_inv s" and "failure s = None"
  shows "pool_inv s'"
  using assms
proof (induction m s rule: pool_move.induct)
  case (1 s)
  then show ?case by (auto simp: pool_inv_def pool_data_def split: if_splits)
next
  case (2 s)
  then show ?case
    by (auto simp: pool_inv_def split: if_splits)
next
  case (3 s)
  then show ?case
    by (auto simp: pool_inv_def pool_data_def stop_section_def cond_wf_notifyAll cover_notifyAll
        split: if_splits)
next
  case (4 t s)
  then show ?case
    using worker_spawned [of s t] by (auto simp: pool_inv_def split: if_splits)
next
  case (5 t w s)
  then have m: "worker s t = Want_Mutex" and f: "finish_worker t (worker_check t w (pool s)) s = Some s'"
    by (auto split: if_splits)
  show ?case
    using 5(2) m worker_spawned [OF 5(2), of t]
    by (intro finish_worker_inv [OF f 5(2,3)]) (auto simp: pool_inv_def pool_data_def cover_minus cover_minus_Suc)
next
  case (6 t w s)
  let ?c = "tp_notEmpty (pool s)"
  from 6(1) have t: "t \<in> woken ?c"
    and f: "finish_worker t (worker_check t w ((pool s)\<lparr>tp_notEmpty := cond_resume t ?c\<rparr>)) s = Some s'"
    by (auto split: if_splits)
  from 6(2) have wf: "cond_wf ?c" and cv: "wakeups_cover (length (tp_tasks (pool s))) ?c"
    and w: "waiting t ?c \<longrightarrow> worker s t = In_Wait"
    by (auto simp: pool_inv_def pool_data_def)
  with t have "worker s t \<noteq> Not_Spawned" by (simp add: waiting_def)
  then show ?case
    using 6(2) worker_spawned [OF 6(2), of t] cover_resume_diff [OF cv t wf] cond_wf_resume [OF wf]
    by (intro finish_worker_inv [OF f 6(2,3)])
      (auto simp: pool_inv_def pool_data_def waiting_resume [OF wf t])
next
  case (7 t s)
  then show ?case
    using sleeping_spurious [of t "tp_notEmpty (pool s)"]
    by (auto simp: pool_inv_def pool_data_def waiting_spurious cond_wf_spurious cover_spurious
        split: if_splits)
next
  case (8 t s)
  then show ?case
    using worker_spawned [of s t] by (auto simp: pool_inv_def split: worker_pc.splits)
next
  case (9 t s)
  then show ?case
    by (auto simp: pool_inv_def split: worker_pc.splits option.splits)
next
  case (10 t x w s)
  show ?case
  proof (cases "tp_maxNum (pool s) = 0")
    case True
    with 10 show ?thesis
      by (auto simp: pool_inv_def pool_data_def run_inline_def split: if_splits option.splits)
  next
    case False
    with 10(1) have h: "held s t = None" and f: "finish_run t x (run_check t x w (pool s)) s = Some s'"
      by (auto split: if_splits)
    show ?thesis
      using 10(2) h
      by (intro finish_run_inv [OF f 10(2,3)]) (auto simp: pool_inv_def pool_data_def cover_minus cover_minus_Suc)
  qed
next
  case (11 t w s)
  let ?c = "tp_notFull (pool s)"
  from 11(1) obtain x where h: "held s t = Some x" and t: "t \<in> woken ?c"
    and f: "finish_run t x (run_check t x w ((pool s)\<lparr>tp_notFull := cond_resume t ?c\<rparr>)) s = Some s'"
    by (auto split: if_splits option.splits)
  from 11(2) have wf: "cond_wf ?c"
    and cv: "wakeups_cover (tp_maxNum (pool s) - length (tp_tasks (pool s))) ?c"
    by (auto simp: pool_inv_def pool_data_def)
  show ?case
    using 11(2) cover_resume_diff [OF cv t wf] cond_wf_resume [OF wf]
    by (intro finish_run_inv [OF f 11(2,3)])
      (auto simp: pool_inv_def pool_data_def waiting_resume [OF wf t])
next
  case (12 t s)
  then show ?case
    by (auto simp: pool_inv_def pool_data_def waiting_spurious cond_wf_spurious cover_spurious
        split: if_splits)
qed


interpretation tps: state_invariant "pool_start n name" pool_step pool_inv
proof unfold_locales
  show "pool_inv s" if "pool_start n name s" for s :: "'a pool_system"
    using that
    by (simp add: pool_start_def pool_init_def pool_ctor_def pool_inv_def pool_data_def
        wakeups_cover_def cond_wf_def cond_init_def waiting_def)
  show "pool_inv t" if "pool_step s t" and "pool_inv s" for s t :: "'a pool_system"
    using that by (auto elim!: pool_stepE simp: pool_do_def split: if_splits intro: pool_move_inv)
qed

lemma pool_schedule:
  "schedule pool_do ms (pool_init n name) = Some s \<Longrightarrow> reach (pool_start n name) pool_step s"
  by (rule schedule_reach [where move = pool_do and ms = ms and s = "pool_init n name"])
    (auto intro: pool_stepI reach_start simp: pool_start_def)

subsection \<open>A pool whose workers have left\<close>

definition workers_gone :: "'a pool_system \<Rightarrow> bool" where
  "workers_gone s \<longleftrightarrow> \<not> tp_isRunning (pool s) \<and> 0 < tp_maxNum (pool s) \<and> 0 < spawned s
     \<and> (\<forall>t. worker s t \<in> {Not_Spawned, Exited})"

lemma workers_gone_step:
  assumes "pool_move m s = Some s'" and "workers_gone s" and "pool_inv s"
  shows "workers_gone s' \<and> begun s' = begun s"
proof -
  have idle: "\<forall>t. worker s t = Not_Spawned \<or> worker s t = Exited"
    using assms(2) by (auto simp: workers_gone_def)
  have nw: "\<forall>t. t \<notin> woken (tp_notEmpty (pool s))"
  proof
    fix t
    show "t \<notin> woken (tp_notEmpty (pool s))"
      using assms(3) idle [rule_format, of t] by (auto simp: pool_inv_def waiting_def)
  qed
  show ?thesis
    using assms(1,2) idle nw
  proof (induction m s rule: pool_move.induct)
    case (10 t x w s)
    then have "finish_run t x (run_check t x w (pool s)) s = Some s'"
      by (auto simp: workers_gone_def split: if_splits)
    then show ?case
      by (rule run_cases) (use 10 in \<open>auto simp: workers_gone_def\<close>)
  next
    case (11 t w s)
    then obtain x where "finish_run t x (run_check t x w
        ((pool s)\<lparr>tp_notFull := cond_resume t (tp_notFull (pool s))\<rparr>)) s = Some s'"
      by (auto split: if_splits option.splits)
    then show ?case
      by (rule run_cases) (use 11 in \<open>auto simp: workers_gone_def\<close>)
  next
    case (8 t s)
    from 8(3) [rule_format, of t] 8(1) show ?case by auto
  next
    case (9 t s)
    from 9(3) [rule_format, of t] 9(1) show ?case by auto
  next
    case (4 t s)
    from 4(3) [rule_format, of t] 4(1) show ?case by auto
  next
    case (5 t w s)
    from 5(3) [rule_format, of t] 5(1) show ?case by auto
  qed (auto simp: workers_gone_def split: if_splits)
qed

lemma pool_do_some: "pool_do m s = Some s' \<longleftrightarrow> failure s = None \<and> pool_move m s = Some s'"
  by (simp add: pool_do_def)

lemma workers_gone_schedule:
  "schedule pool_do ms s = Some s' \<Longrightarrow> workers_gone s \<Longrightarrow> pool_inv s \<Longrightarrow>
    workers_gone s' \<and> begun s' = begun s"
proof (induction ms arbitrary: s)
  case Nil
  then show ?case by simp
next
  case (Cons m ms)
  then obtain s1 where m: "pool_move m s = Some s1" and f: "failure s = None"
    and r: "schedule pool_do ms s1 = Some s'"
    by (auto simp: pool_do_some split: option.splits)
  from workers_gone_step [OF m Cons.prems(2,3)] Cons.IH [OF r] pool_move_inv [OF m Cons.prems(3) f]
  show ?case by simp
qed

lemma join_all_returned:
  "distinct (map th_pthreadId ths) \<Longrightarrow> \<forall>th \<in> set ths. tab (th_pthreadId th) = Some Terminated \<Longrightarrow>
    \<exists>tab'. join_all ths tab = Inr (Some tab') \<and> (\<forall>th \<in> set ths. tab' (th_pthreadId th) = None)
      \<and> (\<forall>h. h \<notin> th_pthreadId ` set ths \<longrightarrow> tab' h = tab h)"
proof (induction ths arbitrary: tab)
  case Nil
  then show ?case by simp
next
  case (Cons th ths)
  let ?t = "tab(th_pthreadId th := None)"
  have "th_pthreadId u \<noteq> th_pthreadId th" if "u \<in> set ths" for u
    using Cons.prems(1) imageI [OF that, of th_pthreadId] by auto
  with Cons.prems have "\<forall>th \<in> set ths. ?t (th_pthreadId th) = Some Terminated" by simp
  moreover have "distinct (map th_pthreadId ths)" using Cons.prems(1) by simp
  ultimately obtain tab' where "join_all ths ?t = Inr (Some tab')"
    and "\<forall>th \<in> set ths. tab' (th_pthreadId th) = None"
    and "\<forall>h. h \<notin> th_pthreadId ` set ths \<longrightarrow> tab' h = ?t h"
    using Cons.IH by blast
  moreover have "thread_join th tab = Inr (Some ?t)"
    using Cons.prems(2) by (simp add: thread_join_done)
  ultimately show ?case using Cons.prems(1) by auto
qed

section \<open>Properties\<close>

text \<open>
  C23. Tasks start in the order in which \<open>run\<close> queued them, each once, and never more than
  \<open>_maxNum\<close> of them wait, under every schedule of producers, workers and \<open>stop\<close>.
\<close>

theorem pool_fifo_bounded:
  assumes "reach (pool_start n name) pool_step s"
  shows "begun s @ rev (tp_tasks (pool s)) = submitted s
    \<and> length (tp_tasks (pool s)) \<le> tp_maxNum (pool s)"
  using tps.reach_inv [OF assms] by (simp add: pool_inv_def pool_data_def)

text \<open>
  C24. No lost wake-up: while a worker sleeps, as many workers are on their way to the mutex
  as tasks wait; while a producer sleeps, as many producers as places are free.
\<close>

theorem pool_wakes:
  assumes "reach (pool_start n name) pool_step s"
  shows "(sleeping (tp_notEmpty (pool s)) \<noteq> {} \<longrightarrow>
        length (tp_tasks (pool s)) \<le> card (woken (tp_notEmpty (pool s))))
    \<and> (sleeping (tp_notFull (pool s)) \<noteq> {} \<longrightarrow>
        tp_maxNum (pool s) - length (tp_tasks (pool s)) \<le> card (woken (tp_notFull (pool s))))"
  using tps.reach_inv [OF assms] by (simp add: pool_inv_def pool_data_def wakeups_cover_def)

text \<open>
  The critical section of a worker faults exactly when it finds no task in a stopped pool,
  and then by taking \<open>back()\<close> of an empty deque; in particular never while the pool runs.
\<close>

theorem worker_fault_iff:
  "(\<exists>w. worker_check t w p = Some (Inl e)) \<longleftrightarrow>
    e = Empty_Container \<and> tp_tasks p = [] \<and> \<not> tp_isRunning p"
  by (simp add: worker_faults)

text \<open>
  C25. \<open>stop\<close> of an idle pool: it wakes every sleeping worker, and the first one to get
  the mutex runs into \<open>back()\<close> of the empty deque.
\<close>

theorem stop_crashes_idle_worker:
  assumes "reach (pool_start n name) pool_step s" and "failure s = None"
    and "tp_isRunning (pool s)" and "spawned s = tp_maxNum (pool s)"
    and "tp_tasks (pool s) = []" and "t \<in> sleeping (tp_notEmpty (pool s))"
  shows "\<exists>s'. schedule pool_do [Pool_Stop, Worker_Wake t w] s = Some s'
    \<and> failure s' = Some Empty_Container"
proof -
  let ?p = "stop_section (pool s)"
  have "worker_check t w (?p\<lparr>tp_notEmpty := cond_resume t (tp_notEmpty ?p)\<rparr>) = Some (Inl Empty_Container)"
    using assms(5) by (simp add: worker_faults stop_section_def)
  moreover have "t \<in> woken (tp_notEmpty ?p)"
    using assms(6) by (simp add: stop_section_def cond_notifyAll_def)
  ultimately show ?thesis
    using assms(2-4) by (simp add: pool_do_def finish_worker_def)
qed

text \<open>
  Once all workers have left a stopped pool, nothing that happens afterwards starts a task:
  tasks still queued and producers still blocked in \<open>run\<close> stay where they are.
\<close>

theorem stopped_pool_starts_nothing:
  assumes "reach (pool_start n name) pool_step s" and "workers_gone s"
    and "schedule pool_do ms s = Some s'"
  shows "begun s' = begun s"
  using workers_gone_schedule [OF assms(3,2) tps.reach_inv [OF assms(1)]] by simp

text \<open>
  Destroying a running pool whose threads have returned: the joins succeed, and the
  destructor of the first \<open>Thread\<close> then detaches a thread that was joined.
\<close>

theorem pool_dtor_faults:
  assumes "tp_isRunning p" and "ths \<noteq> []" and "distinct (map th_pthreadId ths)"
    and "\<forall>th \<in> set ths. th_isRunning th \<and> tab (th_pthreadId th) = Some Terminated"
  shows "pool_dtor p ths tab = Inl Bad_Thread_Handle"
proof -
  obtain tab' where "join_all ths tab = Inr (Some tab')"
    and "\<forall>th \<in> set ths. tab' (th_pthreadId th) = None"
    using join_all_returned [OF assms(3), of tab] assms(4) by auto
  with assms(1,2,4) show ?thesis
    by (cases ths) (simp_all add: pool_dtor_def thread_dtor_def pthread_detach_def)
qed

section \<open>Examples\<close>

lemmas pool_eval = pool_do_def pool_init_def pool_ctor_def worker_check_def run_check_def tp_put_def
  tp_get_def isFull_def finish_worker_def finish_run_def stop_section_def cond_init_def cond_wait_def
  cond_signal_def cond_resume_def cond_notifyAll_def insert_Diff_if

text \<open>A pool of one worker: idle, and after a \<open>stop\<close> that found two tasks.\<close>

definition idle_pool :: "nat pool_system" where
  "idle_pool = the (schedule pool_do [Pool_Start, Pool_Spawn, Worker_Test 0, Worker_Enter 0 None]
     (pool_init 1 ''p''))"

definition left_moves :: "nat pool_action list" where
  "left_moves = [Pool_Start, Pool_Spawn, Worker_Test 0, Run_Call 5 (Some 10) None,
     Worker_Enter 0 None, Run_Call 5 (Some 11) None, Run_Call 6 (Some 12) None, Pool_Stop,
     Worker_Done 0, Worker_Test 0]"

definition left_pool :: "nat pool_system" where
  "left_pool = the (schedule pool_do left_moves (pool_init 1 ''p''))"

lemma idle_pool_reach: "reach (pool_start 1 ''p'') pool_step idle_pool"
  by (rule pool_schedule [where ms = "[Pool_Start, Pool_Spawn, Worker_Test 0, Worker_Enter 0 None]"])
    (simp add: idle_pool_def pool_eval)

lemma left_pool_reach: "reach (pool_start 1 ''p'') pool_step left_pool"
  by (rule pool_schedule [where ms = left_moves])
    (simp add: left_pool_def left_moves_def pool_eval)

lemma idle_pool_state:
  "failure idle_pool = None" "tp_isRunning (pool idle_pool)" "spawned idle_pool = 1"
  "tp_maxNum (pool idle_pool) = 1" "tp_tasks (pool idle_pool) = []"
  "sleeping (tp_notEmpty (pool idle_pool)) = {0}"
  by (simp_all add: idle_pool_def pool_eval)

lemma left_pool_state:
  "workers_gone left_pool" "begun left_pool = [Some 10]" "submitted left_pool = [Some 10, Some 11]"
  "tp_tasks (pool left_pool) = [Some 11]" "sleeping (tp_notFull (pool left_pool)) = {6}"
  "tp_maxNum (pool left_pool) = 1" "woken (tp_notFull (pool left_pool)) = {}"
  by (simp_all add: left_pool_def left_moves_def pool_eval workers_gone_def)

theorem pool_fifo_bounded_witness: "[Some 10] @ rev (tp_tasks (pool left_pool)) = [Some 10, Some 11]"
  using pool_fifo_bounded [OF left_pool_reach] by (simp add: left_pool_state)

theorem pool_wakes_witness:
  "tp_maxNum (pool left_pool) - length (tp_tasks (pool left_pool))
    \<le> card (woken (tp_notFull (pool left_pool)))"
  using pool_wakes [OF left_pool_reach] by (simp add: left_pool_state)

theorem stop_crashes_idle_worker_witness:
  "\<exists>s'. schedule pool_do [Pool_Stop, Worker_Wake 0 None] idle_pool = Some s'
    \<and> failure s' = Some Empty_Container"
  by (rule stop_crashes_idle_worker [OF idle_pool_reach]) (simp_all add: idle_pool_state)

theorem stopped_pool_starts_nothing_witness:
  "begun (the (schedule pool_do [Run_Spurious 6, Run_Wake 6 None] left_pool)) = [Some 10]"
proof -
  have "\<exists>s. schedule pool_do [Run_Spurious 6, Run_Wake 6 None] left_pool = Some s"
    by (simp add: left_pool_def left_moves_def pool_eval cond_spurious_def)
  then obtain s where s: "schedule pool_do [Run_Spurious 6, Run_Wake 6 None] left_pool = Some s" ..
  from stopped_pool_starts_nothing [OF left_pool_reach left_pool_state(1) s] show ?thesis
    by (simp add: s left_pool_state del: schedule.simps)
qed

theorem pool_dtor_faults_witness:
  "pool_dtor ((pool_ctor 1 ''p'')\<lparr>tp_isRunning := True\<rparr> :: nat pool)
     [\<lparr>th_isRunning = True, th_pthreadId = 4, th_tid = 0, th_name = ''t''\<rparr>]
     ((\<lambda>_. None)(4 := Some Terminated)) = Inl Bad_Thread_Handle"
  by (rule pool_dtor_faults) (simp_all add: pool_ctor_def)

end
