(* ===== verification/Spec2Isabelle.thy ===== *)
theory Spec2Isabelle
  imports Server_Threads Send_Threads Library_Tests Thread_Tests Server_Stream Server_Progress Server_Log Log_Pipeline Thread_Pool Blocking_Queue Current_Thread
begin

text \<open>
  Verification of the two libraries of the repository: \<open>base\<close> (threads, locks, queues, logging)
  and \<open>net\<close> (an event loop on epoll and a TCP server on it). Every theory names the files
  under \<open>src/\<close> it models; definitions keep the names of the functions and members.

  \<^bold>\<open>The program and its parts.\<close> A \<open>TcpServer\<close> owns an \<open>Acceptor\<close> (a listening socket and its
  channel), a pool of loop threads and a map from descriptors to shared pointers of
  \<open>TcpConnection\<close>. An \<open>EventLoop\<close> asks its \<open>Epoller\<close> for the channels with events, runs
  \<open>handleEvent\<close> of each, which calls the handlers bound to the channel, and then the functors
  that other threads posted, waking the loop through an eventfd. A connection reads into one
  \<open>Buffer\<close> and queues in a second one what the kernel did not take. All of it logs through the
  macros of \<open>Logging\<close>, whose text goes to stdout or to \<open>AsyncLogging\<close>, a thread that writes
  buffers to a file.

  \<^bold>\<open>How code is modelled.\<close> A class is a record of its members, a method a function of the
  record that returns an \<open>outcome\<close>: \<open>Inr\<close> of a result, or \<open>Inl\<close> of a fault (memory used after it
  was freed, a read out of range, a call of an empty \<open>std::function\<close>, an abort). \<open>int\<close> and \<open>size_t\<close>
  are integers with the conversions of C written out (\<open>Cpp_Prelude\<close>), the integers of the wire
  format words of their width (\<open>Byte_Order\<close>). What the kernel answers is an argument. Calls of user
  callbacks are entries of a trace in the order of the calls. Code that threads interleave is a
  function from moves to successor states, one move for each section under a lock, each wait, or
  each statement where there is no lock; the inductive step relation on top of it has the
  reachable states, and its invariants are interpretations of the locale \<open>state_invariant\<close>.

  \<^bold>\<open>The theories, bottom up.\<close>
  \<^item> \<open>Cpp_Prelude\<close>: outcomes, conversions, reachable states, schedules, the locale of invariants.
  \<^item> \<open>Byte_Order\<close>, \<open>Byte_Stream\<close>, \<open>Buffer\<close> (\<open>net/Buffer.h\<close>, \<open>net/Buffer.cpp\<close>): every operation, with
    the reallocation and the move to the front. \<open>append_refines\<close> and \<open>readFromFd_refines\<close> describe
    them on the readable bytes alone; \<open>byte_stream\<close> is the contract \<open>TcpConnection\<close> uses.
  \<^item> \<open>Channel\<close>, \<open>Epoller\<close>: the event mask and its switches, \<open>handleEvent\<close>, and \<open>poll\<close>,
    \<open>updateChannel\<close> and \<open>removeChannel\<close> with the interest list of the kernel.
  \<^item> \<open>Inet_Address\<close>, \<open>Sockets\<close>, \<open>Acceptor\<close>: addresses and their text, the wrapped system calls with
    the errors that abort, the listening socket.
  \<^item> \<open>Tcp_Connection\<close>, \<open>Connection_Frame\<close>: \<open>send\<close>, \<open>established\<close>, \<open>destory\<close> and the three handlers;
    the accepted messages are the bytes on the wire followed by the queued ones; what an
    operation of one connection can change.
  \<^item> \<open>Event_Loop\<close>, \<open>Event_Loop_Pool\<close>: the loop thread and the posting threads, interleaved; the
    hand-over of a loop by its thread, the round robin. After \<open>quit\<close> a loop leaves within one
    round under every continuation (\<open>round_left\<close> counts the moves it has left).
  \<^item> \<open>Tcp_Server\<close>, \<open>Server_Events\<close>: the server with a map, a heap of connections and their owners
    (the map and the user); the branches of its operations.
  \<^item> \<open>Server_Loop\<close>, \<open>Server_Program\<close>, \<open>Server_Progress\<close>, \<open>Server_Stream\<close>: the program with
    \<open>threadNum = 0\<close>, where one thread polls, handles each active channel, runs the functors, and
    users keep, drop and send between events. They show what the poller can point to, which
    events fault, that every step of the loop has a successor, that the loop refines \<open>Event_Loop\<close>,
    and that no byte is lost, reordered or mixed with those of another connection.
  \<^item> \<open>Server_Threads\<close>: the server with \<open>threadNum > 0\<close>, statement by statement. The invariant of
    one loop holds for each loop of the pool under every interleaving; the schedules at the end
    exhibit the unprotected map and callbacks that run out of order.
  \<^item> \<open>Send_Threads\<close>: several threads inside \<open>send\<close> of one connection: which messages a call takes
    and which it drops, what the stream keeps of those taken, and how two of them mix.
  \<^item> \<open>Sync\<close>, \<open>Fifo_Queue\<close>, \<open>Blocking_Queue\<close>, \<open>Thread\<close>, \<open>Thread_Pool\<close>, \<open>Current_Thread\<close>: guard,
    condition, latch, queues with waiting producers and consumers, pthreads and their ids, the
    stack trace.
  \<^item> \<open>Text_Sink\<close>, \<open>Log_Stream\<close>, \<open>Logging\<close>, \<open>Async_Logging\<close>, \<open>Log_Pipeline\<close>, \<open>Server_Log\<close>: the bounded
    buffer of a line and its operators, the macros with their level filter, the default output,
    the double-buffered logger, the two connected, and the lines the server writes. What
    \<open>fopen\<close> and each \<open>fwrite\<close> of the logger answer are arguments; the history records what was
    given to \<open>fwriten\<close> and whether every \<open>fwrite\<close> was complete, and the theorems say what holds
    in either case.
  \<^item> \<open>Library_Tests\<close>, \<open>Thread_Tests\<close>: six programs of \<open>test/\<close> as programs of the model: their
    assertions hold, and their threads leave the values they print.

  \<^bold>\<open>Interfaces.\<close> \<open>byte_stream\<close> (by \<open>Buffer\<close>, for \<open>Tcp_Connection\<close>), \<open>fifo_queue\<close> (by the two ends
  \<open>BlockingQueue\<close> and \<open>ThreadPool\<close> use), \<open>text_sink\<close> and \<open>item_sink\<close> (by \<open>FixedBuffer\<close> and the
  operators of \<open>LogStream\<close>), and \<open>state_invariant\<close> (by each transition system).

  \<^bold>\<open>Termination and bounds.\<close> No definition needs fuel: the loops of the code that end are
  structural recursions or have a measure, and those that serve for ever are step relations, for
  which progress is a theorem of its own. An append asks that the indices of the buffer stay
  below \<open>2 ^ 31\<close> (\<open>buf_room\<close>), since the code keeps them in an \<open>int\<close>; a read, that the kernel
  delivers no more than it was offered (\<open>readv_within\<close>). Sizes of the log are those of the code,
  4000 bytes for a line and \<open>mem\<close> bytes for a buffer of the logger.

  \<^bold>\<open>Not modelled.\<close> In a running server users act between events: what they do inside a callback
  is a later move of theirs. In the threaded model they neither send, nor keep connections, nor
  quit, and an operation of the map is atomic except for its begin and end, which is
  where \<open>map_race\<close> observes it; in \<open>Send_Threads\<close> the two halves of \<open>send\<close> are atomic. The
  flags the code shares without a lock (\<open>_quit\<close>, \<open>_isRuning\<close>) are read and written in one step.
  The file of the logger is what \<open>fwrite\<close> took: that \<open>fflush\<close> passes it on is not modelled. The
  failure of \<open>epoll_ctl\<close> is an input (\<open>ep_deny\<close>); other failures for want of memory are left out.
  Parameters stand for \<open>inet_pton\<close>, \<open>inet_ntop\<close>, \<open>snprintf\<close> of a double, the symbols of \<open>backtrace\<close>
  and their demangling. The name given to the kernel by \<open>prctl\<close>, the branches for systems
  without \<open>accept4\<close> or \<open>SO_REUSEPORT\<close>, and members the code writes and never reads
  (\<open>_isHandling\<close>, \<open>_context\<close>) have no definition. The test programs not in \<open>Library_Tests\<close> and
  \<open>Thread_Tests\<close> only log, throw and sleep.
\<close>

end
